(* ===== verification/Prelude.thy ===== *)
theory Prelude
  imports Main "HOL-Library.Word" "HOL-Library.Char_ord" "HOL-Library.Sublist"
    "HOL-Library.Multiset" "HOL-Library.Product_Lexorder"
begin

text \<open>
  Shared vocabulary of the PiCache development: the named theorem collections, the machine
  types, the binary-search-then-scan idiom that the filter engine writes out three times
  (hash sets, the pattern index, the table of modified entries), the instants and durations
  of Go's package \<^verbatim>\<open>time\<close>, and the contract of a transition system with an invariant, which
  every stateful component of the development instantiates.
\<close>

unbundle bit_operations_syntax

section \<open>Collections and machine types\<close>

named_theorems go_simps \<open>unfolding rules for the models of Go library calls\<close>
named_theorems inv_intros \<open>an operation preserves its component's invariant\<close>

type_synonym u8 = "8 word"
type_synonym u16 = "16 word"
type_synonym u32 = "32 word"
type_synonym u64 = "64 word"
type_synonym bytes = "8 word list"

section \<open>Generic facts on lists\<close>

lemma find_filter: "find P (filter Q xs) = find (\<lambda>x. Q x \<and> P x) xs"
  by (induction xs) auto

lemma find_map: "find P (map f xs) = map_option f (find (\<lambda>x. P (f x)) xs)"
  by (induction xs) auto

lemma find_append:
  "find P (xs @ ys) = (case find P xs of None \<Rightarrow> find P ys | Some x \<Rightarrow> Some x)"
  by (induction xs) auto

lemma find_None_all: "find P xs = None \<longleftrightarrow> (\<forall>x \<in> set xs. \<not> P x)"
  by (auto simp: find_None_iff)

lemma find_SomeD: "find P xs = Some x \<Longrightarrow> x \<in> set xs \<and> P x"
  by (auto simp: find_Some_iff)

lemma find_cong_set: "(\<And>x. x \<in> set xs \<Longrightarrow> P x = Q x) \<Longrightarrow> find P xs = find Q xs"
  by (induction xs) auto

lemma find_upt_shift:
  "find P [a..<b] = (if a < b then (if P a then Some a else find P [Suc a..<b]) else None)"
  by (simp add: upt_conv_Cons)

lemma find_upt_drop_prefix:
  assumes "\<And>i. a \<le> i \<Longrightarrow> i < m \<Longrightarrow> \<not> P i" and "a \<le> m" and "m \<le> b"
  shows "find P [a..<b] = find P [m..<b]"
proof -
  have "[a..<b] = [a..<m] @ [m..<b]"
    using assms(2,3) by (metis le_add_diff_inverse upt_add_eq_append)
  moreover have "find P [a..<m] = None"
    using assms(1) by (simp add: find_None_all)
  ultimately show ?thesis by (simp add: find_append)
qed

lemma find_upt_filter_nth:
  "find P (map f (filter (\<lambda>i. Q i) [0..<n])) = map_option f (find (\<lambda>i. Q i \<and> P (f i)) [0..<n])"
  by (simp add: find_map find_filter)

text \<open>On sorted lists the first hit only depends on the set of elements.\<close>

lemma find_sorted_least:
  assumes "sorted xs" and "find P xs = Some x" and "y \<in> set xs" and "P y"
  shows "x \<le> (y :: 'a::linorder)"
proof -
  obtain i where i: "i < length xs" "x = xs ! i" "\<And>j. j < i \<Longrightarrow> \<not> P (xs ! j)"
    using assms(2) by (auto simp: find_Some_iff)
  obtain k where k: "k < length xs" "y = xs ! k"
    using assms(3) by (auto simp: in_set_conv_nth)
  have "i \<le> k" using i(3) k(2) assms(4) by (meson linorder_not_less)
  then show ?thesis using sorted_nth_mono [OF assms(1)] i k by auto
qed

lemma find_sorted_cong:
  assumes "sorted xs" and "sorted ys" and "\<And>x. P x \<Longrightarrow> x \<in> set xs \<longleftrightarrow> x \<in> set ys"
  shows "find P xs = (find P ys :: 'a::linorder option)"
proof (cases "find P xs")
  case None
  then have "find P ys = None" using assms(3) by (auto simp: find_None_all)
  with None show ?thesis by simp
next
  case (Some x)
  then have x: "x \<in> set xs" "P x" by (auto dest: find_SomeD)
  then obtain y where y: "find P ys = Some y"
    using assms(3) by (cases "find P ys") (auto simp: find_None_all)
  then have "y \<in> set ys" "P y" by (auto dest: find_SomeD)
  then have "x \<le> y" and "y \<le> x"
    using find_sorted_least [OF assms(1) Some] find_sorted_least [OF assms(2) y] x assms(3) by auto
  with Some y show ?thesis by simp
qed

text \<open>A loop over a list that returns the first result found.\<close>

fun first_some :: "('a \<Rightarrow> 'b option) \<Rightarrow> 'a list \<Rightarrow> 'b option" where
  "first_some f [] = None"
| "first_some f (x # xs) = (case f x of None \<Rightarrow> first_some f xs | Some y \<Rightarrow> Some y)"

lemma first_some_None: "first_some f xs = None \<longleftrightarrow> (\<forall>x \<in> set xs. f x = None)"
  by (induction xs) (auto split: option.splits)

lemma first_some_ex: "x \<in> set xs \<Longrightarrow> f x = Some y \<Longrightarrow> \<exists>z. first_some f xs = Some z"
  by (induction xs) (auto split: option.splits)

lemma first_some_SomeD: "first_some f xs = Some y \<Longrightarrow> \<exists>x \<in> set xs. f x = Some y"
  by (induction xs) (auto split: option.splits)

lemma first_some_cong: "(\<And>x. x \<in> set xs \<Longrightarrow> f x = g x) \<Longrightarrow> first_some f xs = first_some g xs"
  by (induction xs) (auto split: option.splits)

lemma first_some_append:
  "first_some f (xs @ ys) = (case first_some f xs of None \<Rightarrow> first_some f ys | Some y \<Rightarrow> Some y)"
  by (induction xs) (auto split: option.splits)

lemma first_some_map: "first_some f (map g xs) = first_some (f \<circ> g) xs"
  by (induction xs) (auto split: option.splits)

lemma nth_le_if_sorted: "sorted xs \<Longrightarrow> i \<le> j \<Longrightarrow> j < length xs \<Longrightarrow> xs ! i \<le> xs ! j"
  by (rule sorted_nth_mono)

section \<open>Binary search\<close>

text \<open>
  The half-interval loop of \<^verbatim>\<open>hashSet.lookup\<close>, \<^verbatim>\<open>patternSet.lookup\<close>, \<^verbatim>\<open>modTable.lookup\<close> and
  of the library's \<^verbatim>\<open>slices.BinarySearch\<close>. The indices are Go ints below the length of a
  slice, so the sum never overflows.
\<close>

function lower_bound :: "'a::linorder list \<Rightarrow> 'a \<Rightarrow> nat \<Rightarrow> nat \<Rightarrow> nat" where
  "lower_bound xs x lo hi =
     (if lo < hi then
        let m = (lo + hi) div 2 in
        if xs ! m < x then lower_bound xs x (m + 1) hi else lower_bound xs x lo m
      else lo)"
  by pat_completeness auto
termination
  by (relation "measure (\<lambda>(xs, x, lo, hi). hi - lo)") auto

declare lower_bound.simps [simp del]

lemma lower_bound_correct:
  assumes "sorted xs" and "lo \<le> hi" and "hi \<le> length xs"
    and "\<And>i. i < lo \<Longrightarrow> xs ! i < x"
    and "\<And>i. hi \<le> i \<Longrightarrow> i < length xs \<Longrightarrow> x \<le> xs ! i"
  shows "lower_bound xs x lo hi \<le> hi \<and> lo \<le> lower_bound xs x lo hi \<and>
    (\<forall>i < lower_bound xs x lo hi. xs ! i < x) \<and>
    (\<forall>i. lower_bound xs x lo hi \<le> i \<longrightarrow> i < length xs \<longrightarrow> x \<le> xs ! i)"
  using assms
proof (induction xs x lo hi rule: lower_bound.induct)
  case (1 xs x lo hi)
  show ?case
  proof (cases "lo < hi")
    case False
    then have "lower_bound xs x lo hi = lo" by (simp add: lower_bound.simps [of xs x lo hi])
    with False "1.prems" show ?thesis by auto
  next
    case True
    define m where "m = (lo + hi) div 2"
    have m: "lo \<le> m" "m < hi" using True by (auto simp: m_def)
    show ?thesis
    proof (cases "xs ! m < x")
      case less: True
      have below: "xs ! i < x" if "i < m + 1" for i
        using nth_le_if_sorted [OF "1.prems"(1), of i m] that m "1.prems"(3) less by simp
      have "lower_bound xs x lo hi = lower_bound xs x (m + 1) hi"
        using True less by (simp add: lower_bound.simps [of xs x lo hi] m_def Let_def)
      then show ?thesis
        using "1.IH"(1) [OF True m_def less "1.prems"(1) _ "1.prems"(3) below "1.prems"(5)] m
        by auto
    next
      case ge: False
      have above: "x \<le> xs ! i" if "m \<le> i" and "i < length xs" for i
        using nth_le_if_sorted [OF "1.prems"(1) that] ge by simp
      have "lower_bound xs x lo hi = lower_bound xs x lo m"
        using True ge by (simp add: lower_bound.simps [of xs x lo hi] m_def Let_def)
      then show ?thesis
        using "1.IH"(2) [OF True m_def ge "1.prems"(1) m(1) _ "1.prems"(4) above] m "1.prems"(3)
        by auto
    qed
  qed
qed

definition bsearch :: "'a::linorder list \<Rightarrow> 'a \<Rightarrow> nat" where
  "bsearch xs x = lower_bound xs x 0 (length xs)"

lemma bsearch_correct:
  assumes "sorted xs"
  shows bsearch_le_length: "bsearch xs x \<le> length xs"
    and bsearch_below: "i < bsearch xs x \<Longrightarrow> xs ! i < x"
    and bsearch_above: "bsearch xs x \<le> i \<Longrightarrow> i < length xs \<Longrightarrow> x \<le> xs ! i"
  using lower_bound_correct [OF assms, of 0 "length xs" x] by (auto simp: bsearch_def)

text \<open>\<^verbatim>\<open>slices.BinarySearch\<close>, of which the code uses the flag \<^verbatim>\<open>found\<close>.\<close>

definition slices_BinarySearch :: "'a::linorder list \<Rightarrow> 'a \<Rightarrow> bool" where
  "slices_BinarySearch xs x = (let i = bsearch xs x in i < length xs \<and> xs ! i = x)"

lemma slices_BinarySearch_iff [simp]:
  assumes "sorted xs"
  shows "slices_BinarySearch xs x \<longleftrightarrow> x \<in> set xs"
proof
  assume "slices_BinarySearch xs x"
  then have "bsearch xs x < length xs" and "xs ! bsearch xs x = x"
    by (auto simp: slices_BinarySearch_def Let_def)
  then show "x \<in> set xs" by (metis nth_mem)
next
  assume "x \<in> set xs"
  then obtain i where i: "i < length xs" "xs ! i = x" by (auto simp: in_set_conv_nth)
  have le: "bsearch xs x \<le> i"
    using bsearch_below [OF assms, of i x] i by (meson linorder_not_less order.irrefl)
  then have "xs ! bsearch xs x \<le> x" using nth_le_if_sorted [OF assms] i by metis
  moreover have "x \<le> xs ! bsearch xs x" using bsearch_above [OF assms] le i by auto
  ultimately show "slices_BinarySearch xs x"
    using le i by (simp add: slices_BinarySearch_def Let_def)
qed

text \<open>
  The scan that follows the search: from index \<open>i\<close> on, over the run of elements equal to
  \<open>x\<close>, to the first one whose index is accepted.
\<close>

function scan_run :: "'a list \<Rightarrow> 'a \<Rightarrow> (nat \<Rightarrow> bool) \<Rightarrow> nat \<Rightarrow> nat option" where
  "scan_run xs x ok i =
     (if i < length xs \<and> xs ! i = x then
        if ok i then Some i else scan_run xs x ok (i + 1)
      else None)"
  by pat_completeness auto
termination
  by (relation "measure (\<lambda>(xs, x, ok, i). length xs - i)") auto

declare scan_run.simps [simp del]

definition probe_run :: "'a::linorder list \<Rightarrow> 'a \<Rightarrow> (nat \<Rightarrow> bool) \<Rightarrow> nat option" where
  "probe_run xs x ok = scan_run xs x ok (bsearch xs x)"

lemma scan_run_find:
  assumes "sorted xs" and "\<And>j. i \<le> j \<Longrightarrow> j < length xs \<Longrightarrow> x \<le> xs ! j" and "i \<le> length xs"
  shows "scan_run xs x ok i = find (\<lambda>j. xs ! j = x \<and> ok j) [i..<length xs]"
  using assms
proof (induction xs x ok i rule: scan_run.induct)
  case (1 xs x ok i)
  consider (run) "i < length xs" "xs ! i = x" | (past) "i < length xs" "xs ! i \<noteq> x" | (ended) "i = length xs"
    using "1.prems"(3) by linarith
  then show ?case
  proof cases
    case run
    have "\<not> ok i \<Longrightarrow> scan_run xs x ok (i + 1) = find (\<lambda>j. xs ! j = x \<and> ok j) [i + 1..<length xs]"
      using "1.IH" run "1.prems" by auto
    with run show ?thesis by (simp add: scan_run.simps [of xs x ok i] find_upt_shift [of _ i])
  next
    case past
    then have "x < xs ! i" using "1.prems"(2) [of i] by auto
    then have "\<forall>j \<in> set [i..<length xs]. xs ! j \<noteq> x"
      using nth_le_if_sorted [OF "1.prems"(1), of i] by fastforce
    then have "find (\<lambda>j. xs ! j = x \<and> ok j) [i..<length xs] = None"
      unfolding find_None_all by blast
    with past show ?thesis by (simp add: scan_run.simps [of xs x ok i])
  next
    case ended
    then show ?thesis by (simp add: scan_run.simps [of xs x ok "length xs"])
  qed
qed

text \<open>On a sorted array the probe is the plain left-to-right search it replaces.\<close>

lemma probe_run_find:
  assumes "sorted xs"
  shows "probe_run xs x ok = find (\<lambda>j. xs ! j = x \<and> ok j) [0..<length xs]"
proof -
  have "probe_run xs x ok = find (\<lambda>j. xs ! j = x \<and> ok j) [bsearch xs x..<length xs]"
    unfolding probe_run_def
    by (rule scan_run_find [OF assms]) (auto simp: bsearch_correct [OF assms])
  also have "\<dots> = find (\<lambda>j. xs ! j = x \<and> ok j) [0..<length xs]"
    by (rule find_upt_drop_prefix [symmetric])
      (auto dest: bsearch_below [OF assms] simp: bsearch_le_length [OF assms])
  finally show ?thesis .
qed

section \<open>Instants and durations\<close>

text \<open>
  A \<^verbatim>\<open>time.Time\<close> is its number of nanoseconds since the Unix epoch and a \<^verbatim>\<open>time.Duration\<close>
  an int64 number of nanoseconds. \<^verbatim>\<open>Time.Sub\<close> saturates at the ends of that range, which
  matters for the zero time (1 January of the year 1).
\<close>

type_synonym instant = int
type_synonym duration = int

definition Second :: duration where "Second = 1000000000"
definition Minute :: duration where "Minute = 60 * Second"
definition Hour :: duration where "Hour = 60 * Minute"

definition zero_time :: instant where "zero_time = - 62135596800 * 1000000000"

definition min_duration :: duration where "min_duration = - (2 ^ 63)"
definition max_duration :: duration where "max_duration = 2 ^ 63 - 1"

definition time_Sub :: "instant \<Rightarrow> instant \<Rightarrow> duration" where
  "time_Sub t u = max min_duration (min max_duration (t - u))"

lemmas time_consts [go_simps] = Second_def Minute_def Hour_def zero_time_def min_duration_def
  max_duration_def

lemma time_Sub_pos_iff [simp]: "0 < time_Sub t u \<longleftrightarrow> u < t"
  by (auto simp: time_Sub_def min_duration_def max_duration_def)

lemma time_Sub_ge_iff:
  "d \<le> max_duration \<Longrightarrow> min_duration < d \<Longrightarrow> d \<le> time_Sub t u \<longleftrightarrow> d \<le> t - u"
  by (auto simp: time_Sub_def)

lemma time_Sub_gt_iff:
  "d < max_duration \<Longrightarrow> min_duration \<le> d \<Longrightarrow> d < time_Sub t u \<longleftrightarrow> d < t - u"
  by (auto simp: time_Sub_def)

section \<open>Transition systems with an invariant\<close>

text \<open>
  The contract every stateful component meets: an initial state, a step function for its
  operations and an invariant that holds initially and is kept by every operation. What a
  client may rely on, that the invariant holds after any sequence of operations, is proved
  here once.
\<close>

locale invariant_machine =
  fixes init :: "'s"
    and step :: "'op \<Rightarrow> 's \<Rightarrow> 's"
    and inv :: "'s \<Rightarrow> bool"
  assumes inv_init: "inv init"
    and inv_step: "inv s \<Longrightarrow> inv (step oper s)"
begin

lemma inv_fold: "inv s \<Longrightarrow> inv (fold step opers s)"
  by (induction opers arbitrary: s) (auto intro: inv_step)

lemma inv_run: "inv (fold step opers init)"
  by (rule inv_fold) (rule inv_init)

end

end
