(* ===== verification/GoStrings.thy ===== *)
theory GoStrings
  imports Prelude
begin

text \<open>
  The functions of Go's package \<^verbatim>\<open>strings\<close> that the modelled code calls, on byte strings
  (\<open>char list\<close>). Strings are UTF-8: \<^verbatim>\<open>TrimSpace\<close> also removes the encodings of Unicode's white
  space, and \<^verbatim>\<open>ToLower\<close> maps the two runes outside ASCII whose lower case is an ASCII letter (the
  Kelvin sign to k, the dotted capital I to i). Other bytes from 128 on stay as they are under
  \<open>strings_ToLower\<close>: the modelled callers reject them, or compare the result with ASCII text.
\<close>

definition lower_char :: "char \<Rightarrow> char" where
  "lower_char c = (if CHR ''A'' \<le> c \<and> c \<le> CHR ''Z'' then char_of (of_char c + 32 :: nat) else c)"

fun strings_ToLower :: "string \<Rightarrow> string" where
  "strings_ToLower [] = []"
| "strings_ToLower (c # s) =
     (if c = CHR 0xE2 \<and> take 2 s = [CHR 0x84, CHR 0xAA] then CHR ''k'' # strings_ToLower (drop 2 s)
      else if c = CHR 0xC4 \<and> take 1 s = [CHR 0xB0] then CHR ''i'' # strings_ToLower (drop 1 s)
      else lower_char c # strings_ToLower s)"

text \<open>\<^verbatim>\<open>ToUpper\<close>, likewise: the long s and the dotless i have an ASCII letter as their upper case.\<close>

definition upper_char :: "char \<Rightarrow> char" where
  "upper_char c = (if CHR ''a'' \<le> c \<and> c \<le> CHR ''z'' then char_of (of_char c - 32 :: nat) else c)"

fun strings_ToUpper :: "string \<Rightarrow> string" where
  "strings_ToUpper [] = []"
| "strings_ToUpper (c # s) =
     (if c = CHR 0xC5 \<and> take 1 s = [CHR 0xBF] then CHR ''S'' # strings_ToUpper (drop 1 s)
      else if c = CHR 0xC4 \<and> take 1 s = [CHR 0xB1] then CHR ''I'' # strings_ToUpper (drop 1 s)
      else upper_char c # strings_ToUpper s)"

definition is_space :: "char \<Rightarrow> bool" where
  "is_space c \<longleftrightarrow> c \<in> {CHR 0x09, CHR 0x0A, CHR 0x0B, CHR 0x0C, CHR 0x0D, CHR 0x20}"

text \<open>The encodings of \<^verbatim>\<open>unicode.IsSpace\<close> beyond ASCII.\<close>

definition wide_spaces :: "string list" where
  "wide_spaces =
     [[CHR 0xC2, CHR 0x85], [CHR 0xC2, CHR 0xA0], [CHR 0xE1, CHR 0x9A, CHR 0x80],
      [CHR 0xE2, CHR 0x80, CHR 0xA8], [CHR 0xE2, CHR 0x80, CHR 0xA9], [CHR 0xE2, CHR 0x80, CHR 0xAF],
      [CHR 0xE2, CHR 0x81, CHR 0x9F], [CHR 0xE3, CHR 0x80, CHR 0x80]]
     @ map (\<lambda>n. [CHR 0xE2, CHR 0x80, char_of (0x80 + n :: nat)]) [0..<11]"

text \<open>The length of the white space at the front of a string, and of its mirror image at the end.\<close>

definition space_len :: "string list \<Rightarrow> string \<Rightarrow> nat" where
  "space_len seqs s =
     (case s of [] \<Rightarrow> 0
      | c # _ \<Rightarrow> if is_space c then 1
          else case find (\<lambda>w. take (length w) s = w) seqs of None \<Rightarrow> 0 | Some w \<Rightarrow> length w)"

function trim_front :: "string list \<Rightarrow> string \<Rightarrow> string" where
  "trim_front seqs s = (let n = space_len seqs s in if n = 0 \<or> s = [] then s else trim_front seqs (drop n s))"
  by pat_completeness auto
termination by (relation "measure (length \<circ> snd)") auto

declare trim_front.simps [simp del]

definition strings_TrimSpace :: "string \<Rightarrow> string" where
  "strings_TrimSpace s = rev (trim_front (map rev wide_spaces) (rev (trim_front wide_spaces s)))"

definition strings_HasPrefix :: "string \<Rightarrow> string \<Rightarrow> bool" where
  "strings_HasPrefix s p \<longleftrightarrow> take (length p) s = p"

definition strings_HasSuffix :: "string \<Rightarrow> string \<Rightarrow> bool" where
  "strings_HasSuffix s p \<longleftrightarrow> length p \<le> length s \<and> drop (length s - length p) s = p"

definition strings_CutPrefix :: "string \<Rightarrow> string \<Rightarrow> string option" where
  "strings_CutPrefix s p = (if strings_HasPrefix s p then Some (drop (length p) s) else None)"

definition strings_CutSuffix :: "string \<Rightarrow> string \<Rightarrow> string option" where
  "strings_CutSuffix s p =
     (if strings_HasSuffix s p then Some (take (length s - length p) s) else None)"

definition strings_TrimPrefix :: "string \<Rightarrow> string \<Rightarrow> string" where
  "strings_TrimPrefix s p = (case strings_CutPrefix s p of None \<Rightarrow> s | Some t \<Rightarrow> t)"

definition strings_TrimSuffix :: "string \<Rightarrow> string \<Rightarrow> string" where
  "strings_TrimSuffix s p = (case strings_CutSuffix s p of None \<Rightarrow> s | Some t \<Rightarrow> t)"

fun strings_Contains :: "string \<Rightarrow> string \<Rightarrow> bool" where
  "strings_Contains [] t = (t = [])"
| "strings_Contains (c # s) t = (strings_HasPrefix (c # s) t \<or> strings_Contains s t)"

text \<open>\<^verbatim>\<open>strings.Cut\<close> at a single byte, and \<^verbatim>\<open>strings.Split\<close> at a single byte.\<close>

definition strings_CutByte :: "string \<Rightarrow> char \<Rightarrow> (string \<times> string) option" where
  "strings_CutByte s c =
     (if c \<in> set s then Some (takeWhile (\<lambda>x. x \<noteq> c) s, tl (dropWhile (\<lambda>x. x \<noteq> c) s)) else None)"

fun strings_Split :: "char \<Rightarrow> string \<Rightarrow> string list" where
  "strings_Split c [] = [[]]"
| "strings_Split c (x # xs) =
     (if x = c then [] # strings_Split c xs
      else case strings_Split c xs of [] \<Rightarrow> [[x]] | p # ps \<Rightarrow> (x # p) # ps)"

text \<open>\<^verbatim>\<open>strings.IndexByte\<close> and \<^verbatim>\<open>strings.LastIndexByte\<close>; \<open>None\<close> is the result -1.\<close>

definition strings_IndexByte :: "string \<Rightarrow> char \<Rightarrow> nat option" where
  "strings_IndexByte s c = (if c \<in> set s then Some (length (takeWhile (\<lambda>x. x \<noteq> c) s)) else None)"

definition strings_LastIndexByte :: "string \<Rightarrow> char \<Rightarrow> nat option" where
  "strings_LastIndexByte s c =
     (if c \<in> set s then Some (length s - 1 - length (takeWhile (\<lambda>x. x \<noteq> c) (rev s))) else None)"

text \<open>\<^verbatim>\<open>strings.Fields\<close> on ASCII text.\<close>

function strings_Fields :: "string \<Rightarrow> string list" where
  "strings_Fields s =
     (let t = dropWhile is_space s in
      if t = [] then [] else takeWhile (\<lambda>c. \<not> is_space c) t # strings_Fields (dropWhile (\<lambda>c. \<not> is_space c) t))"
  by pat_completeness auto
termination
proof (relation "measure length")
  fix s t assume t: "t = dropWhile is_space s" "t \<noteq> []"
  then have "\<not> is_space (hd t)" using hd_dropWhile [of is_space s] by simp
  then have "length (dropWhile (\<lambda>c. \<not> is_space c) t) < length t"
    using t(2) length_dropWhile_le [of "\<lambda>c. \<not> is_space c" "tl t"] by (cases t) auto
  moreover have "length t \<le> length s" using t(1) length_dropWhile_le by simp
  ultimately show "(dropWhile (\<lambda>c. \<not> is_space c) t, s) \<in> measure length" by simp
qed simp

declare strings_Fields.simps [simp del]

text \<open>\<^verbatim>\<open>strings.Join\<close>.\<close>

fun strings_Join :: "string \<Rightarrow> string list \<Rightarrow> string" where
  "strings_Join sep [] = []"
| "strings_Join sep [p] = p"
| "strings_Join sep (p # q # ps) = p @ sep @ strings_Join sep (q # ps)"

lemmas strings_defs [go_simps] = strings_HasPrefix_def strings_HasSuffix_def strings_CutPrefix_def strings_CutSuffix_def
  strings_TrimPrefix_def strings_TrimSuffix_def strings_CutByte_def lower_char_def is_space_def

lemma HasPrefix_iff: "strings_HasPrefix s p \<longleftrightarrow> prefix p s"
  by (metis append_take_drop_id prefixI append_eq_conv_conj prefixE strings_HasPrefix_def)

lemma HasSuffix_iff: "strings_HasSuffix s p \<longleftrightarrow> suffix p s"
  by (metis append_eq_conv_conj drop_append suffix_def suffix_drop suffix_length_le
      add_diff_cancel_right' length_append strings_HasSuffix_def)

lemma Contains_iff: "strings_Contains s t \<longleftrightarrow> sublist t s"
  by (induction s) (auto simp: HasPrefix_iff sublist_Cons_right)

lemma Split_nonempty [simp]: "strings_Split c s \<noteq> []"
  by (induction s) (auto split: list.splits)

lemma Split_no_sep: "p \<in> set (strings_Split c s) \<Longrightarrow> c \<notin> set p"
  by (induction s arbitrary: p) (fastforce split: list.splits if_splits)+

lemma Join_Split: "strings_Join [c] (strings_Split c s) = s"
proof (induction s)
  case Nil
  then show ?case by simp
next
  case (Cons x xs)
  obtain p ps where "strings_Split c xs = p # ps" by (cases "strings_Split c xs") auto
  with Cons show ?case by (cases ps) auto
qed

lemma Split_no_sep_id: "c \<notin> set s \<Longrightarrow> strings_Split c s = [s]"
  by (induction s) auto

lemma Split_append_sep:
  "c \<notin> set p \<Longrightarrow> strings_Split c (p @ c # s) = p # strings_Split c s"
  by (induction p) auto

lemma Split_Join:
  "ps \<noteq> [] \<Longrightarrow> \<forall>p \<in> set ps. c \<notin> set p \<Longrightarrow> strings_Split c (strings_Join [c] ps) = ps"
  by (induction "[c]" ps rule: strings_Join.induct) (auto simp: Split_no_sep_id Split_append_sep)

lemma length_TrimSuffix_le: "length (strings_TrimSuffix s p) \<le> length s"
  by (simp add: strings_TrimSuffix_def strings_CutSuffix_def split: option.splits)

text \<open>On ASCII text \<^verbatim>\<open>TrimSpace\<close> is the trimming of the ASCII white space.\<close>

definition ascii :: "string \<Rightarrow> bool" where
  "ascii s = list_all (\<lambda>c. of_char c < (128 :: nat)) s"

lemma space_len_ascii:
  assumes "ascii s" and "list_all (\<lambda>w. w \<noteq> [] \<and> 128 \<le> (of_char (hd w) :: nat)) seqs"
  shows "space_len seqs s = (if s \<noteq> [] \<and> is_space (hd s) then 1 else 0)"
proof (cases s)
  case (Cons c cs)
  have "take (length w) s \<noteq> w" if "w \<in> set seqs" for w
  proof -
    have "w \<noteq> []" "128 \<le> (of_char (hd w) :: nat)" using that assms(2) by (simp_all add: list_all_iff)
    moreover have "of_char c < (128 :: nat)" using assms(1) Cons by (simp add: ascii_def)
    ultimately show ?thesis using Cons by (cases w) auto
  qed
  then have "find (\<lambda>w. take (length w) s = w) seqs = None" by (simp add: find_None_all)
  with Cons show ?thesis by (simp add: space_len_def)
qed (simp add: space_len_def)

lemma trim_front_ascii:
  assumes "list_all (\<lambda>w. w \<noteq> [] \<and> 128 \<le> (of_char (hd w) :: nat)) seqs"
  shows "ascii s \<Longrightarrow> trim_front seqs s = dropWhile is_space s"
proof (induction s)
  case (Cons c s)
  then show ?case using space_len_ascii [OF Cons.prems assms]
    by (simp add: trim_front.simps [of seqs "c # s"] ascii_def)
qed (simp add: trim_front.simps)

lemma TrimSpace_ascii:
  assumes "ascii s"
  shows "strings_TrimSpace s = rev (dropWhile is_space (rev (dropWhile is_space s)))"
proof -
  have "list_all (\<lambda>w. w \<noteq> [] \<and> 128 \<le> (of_char (hd w) :: nat)) wide_spaces"
    "list_all (\<lambda>w. w \<noteq> [] \<and> 128 \<le> (of_char (hd w) :: nat)) (map rev wide_spaces)"
    by code_simp+
  note front = trim_front_ascii [OF this(1)] trim_front_ascii [OF this(2)]
  have "ascii (rev (dropWhile is_space s))" using assms by (auto simp: ascii_def list_all_iff dest: set_dropWhileD)
  with assms show ?thesis by (simp add: strings_TrimSpace_def front)
qed

lemma LastIndexByte_Some:
  assumes "strings_LastIndexByte s c = Some j"
  shows "s = take j s @ c # drop (j + 1) s \<and> c \<notin> set (drop (j + 1) s)"
proof -
  have mem: "c \<in> set s" and j: "j = length s - 1 - length (takeWhile (\<lambda>x. x \<noteq> c) (rev s))"
    using assms by (auto simp: strings_LastIndexByte_def split: if_splits)
  then obtain xs ys where s: "s = xs @ c # ys" "c \<notin> set ys" by (auto dest: split_list_last)
  then have "takeWhile (\<lambda>x. x \<noteq> c) (rev s) = rev ys" by (auto intro: takeWhile_append2 simp: takeWhile_tail)
  then have "j = length xs" using j s(1) by simp
  with s show ?thesis by simp
qed

lemma LastIndexByte_None: "strings_LastIndexByte s c = None \<longleftrightarrow> c \<notin> set s"
  by (simp add: strings_LastIndexByte_def)

lemma LastIndexByte_append: "c \<notin> set ys \<Longrightarrow> strings_LastIndexByte (xs @ c # ys) c = Some (length xs)"
proof -
  assume "c \<notin> set ys"
  then have "takeWhile (\<lambda>x. x \<noteq> c) (rev (xs @ c # ys)) = rev ys" by (auto intro: takeWhile_append2 simp: takeWhile_tail)
  then show ?thesis by (simp add: strings_LastIndexByte_def)
qed

lemma Split_append: "strings_Split c (xs @ c # ys) = strings_Split c xs @ strings_Split c ys"
  by (induction xs) (auto split: list.splits)

lemma TrimSpace_id:
  assumes "ascii s" and "list_all (\<lambda>c. \<not> is_space c) s"
  shows "strings_TrimSpace s = s"
proof -
  have "dropWhile is_space xs = xs" if "list_all (\<lambda>c. \<not> is_space c) xs" for xs using that by (cases xs) auto
  from this [of s] this [of "rev s"] show ?thesis using assms by (simp add: TrimSpace_ascii list_all_iff)
qed

lemma ToLower_id: "ascii s \<Longrightarrow> list_all (\<lambda>c. lower_char c = c) s \<Longrightarrow> strings_ToLower s = s"
  by (induction s) (auto simp: ascii_def)

end
