(* ===== verification/DomainNames.thy ===== *)
theory DomainNames
  imports GoStrings
begin

text \<open>
  \<^verbatim>\<open>internal/dns/filter/domain.go\<close>: the syntax of domain names and the FNV-1a hash over a
  name's bytes from right to left, with which the matcher computes the hashes of a name and of
  all its parent domains in one pass.
\<close>

section \<open>Definitions\<close>

definition maxDomainLen :: nat where "maxDomainLen = 253"
definition maxLabels :: nat where "maxLabels = 128"

definition fnvOffset64 :: u64 where "fnvOffset64 = 14695981039346656037"
definition fnvPrime64 :: u64 where "fnvPrime64 = 1099511628211"

definition normalizeName :: "string \<Rightarrow> string" where
  "normalizeName s = strings_TrimSuffix (strings_ToLower (strings_TrimSpace s)) ''.''"

definition label_char :: "char \<Rightarrow> bool" where
  "label_char c \<longleftrightarrow> CHR ''a'' \<le> c \<and> c \<le> CHR ''z'' \<or> CHR ''0'' \<le> c \<and> c \<le> CHR ''9''
     \<or> c = CHR ''-'' \<or> c = CHR ''_''"

text \<open>The label loop: \<open>n\<close> is \<open>i - labelStart\<close>, the length of the current label so far.\<close>

fun valid_labels :: "string \<Rightarrow> nat \<Rightarrow> bool" where
  "valid_labels [] n \<longleftrightarrow> \<not> (n = 0 \<or> n > 63)"
| "valid_labels (c # cs) n =
     (if c \<noteq> CHR ''.'' then label_char c \<and> valid_labels cs (n + 1)
      else \<not> (n = 0 \<or> n > 63) \<and> valid_labels cs 0)"

definition top_label :: "string \<Rightarrow> string" where
  "top_label d = rev (takeWhile (\<lambda>c. c \<noteq> CHR ''.'') (rev d))"

definition validDomain :: "string \<Rightarrow> bool" where
  "validDomain d \<longleftrightarrow> d \<noteq> [] \<and> length d \<le> maxDomainLen \<and> valid_labels d 0 \<and>
     (let tld = top_label d in
      \<not> (hd tld = CHR ''-'' \<or> last tld = CHR ''-'') \<and>
      (\<exists>c \<in> set tld. c < CHR ''0'' \<or> c > CHR ''9''))"

definition fnv_step :: "u64 \<Rightarrow> char \<Rightarrow> u64" where
  "fnv_step h c = (h XOR of_nat (of_char c)) * fnvPrime64"

definition hashName :: "string \<Rightarrow> u64" where
  "hashName name = fold (\<lambda>c h. fnv_step h c) (rev name) fnvOffset64"

text \<open>
  \<^verbatim>\<open>suffixHashes\<close> is the list of the \<open>n\<close> hashes in use (the array's unused tail is never
  read): the top-level label first, the full name last. The loop runs the byte index down from
  the end of the name and stops when the array is full.
\<close>

type_synonym suffixHashes = "u64 list"

fun compute_loop :: "string \<Rightarrow> nat \<Rightarrow> u64 \<Rightarrow> suffixHashes \<Rightarrow> suffixHashes" where
  "compute_loop name 0 h acc = acc"
| "compute_loop name (Suc i) h acc =
     (if length acc < maxLabels then
        let h' = fnv_step h (name ! i) in
        compute_loop name i h' (if i = 0 \<or> name ! (i - 1) = CHR ''.'' then acc @ [h'] else acc)
      else acc)"

definition compute :: "string \<Rightarrow> suffixHashes" where
  "compute name = compute_loop name (length name) fnvOffset64 []"

definition subtreeMatch :: "string \<Rightarrow> string \<Rightarrow> bool" where
  "subtreeMatch name d \<longleftrightarrow> name = d \<or>
     length name > length d \<and> name ! (length name - length d - 1) = CHR ''.'' \<and>
     strings_HasSuffix name d"

section \<open>Reference notions\<close>

text \<open>
  The suffixes of a name that start at a label, shortest (the top-level label) first: what the
  array of hashes stands for.
\<close>

definition label_start :: "string \<Rightarrow> nat \<Rightarrow> bool" where
  "label_start name i \<longleftrightarrow> i = 0 \<or> name ! (i - 1) = CHR ''.''"

definition label_suffixes :: "string \<Rightarrow> string list" where
  "label_suffixes name = map (\<lambda>i. drop i name) (filter (label_start name) (rev [0..<length name]))"

section \<open>Hashing\<close>

lemma hashName_Nil [simp]: "hashName [] = fnvOffset64"
  by (simp add: hashName_def)

lemma hashName_Cons: "hashName (c # cs) = fnv_step (hashName cs) c"
  by (simp add: hashName_def)

lemma hashName_drop:
  "i < length name \<Longrightarrow> hashName (drop i name) = fnv_step (hashName (drop (Suc i) name)) (name ! i)"
  by (metis Cons_nth_drop_Suc hashName_Cons)

text \<open>The invariant of the loop: the running hash is the hash of the suffix read so far.\<close>

lemma compute_loop_spec:
  assumes "i \<le> length name" and "length acc \<le> maxLabels"
  shows "compute_loop name i (hashName (drop i name)) acc =
    take maxLabels (acc @ map (\<lambda>j. hashName (drop j name)) (filter (label_start name) (rev [0..<i])))"
  using assms
proof (induction i arbitrary: acc)
  case 0
  then show ?case by simp
next
  case (Suc i)
  have h: "hashName (drop i name) = fnv_step (hashName (drop (Suc i) name)) (name ! i)"
    using Suc.prems by (intro hashName_drop) simp
  show ?case
  proof (cases "length acc < maxLabels")
    case full: False
    then show ?thesis using Suc.prems by simp
  next
    case True
    define acc' where "acc' = (if label_start name i then acc @ [hashName (drop i name)] else acc)"
    have "compute_loop name (Suc i) (hashName (drop (Suc i) name)) acc =
        compute_loop name i (hashName (drop i name)) acc'"
      using True by (simp add: h acc'_def label_start_def Let_def)
    also have "\<dots> = take maxLabels
        (acc' @ map (\<lambda>j. hashName (drop j name)) (filter (label_start name) (rev [0..<i])))"
      using Suc.IH [of acc'] Suc.prems True by (simp add: acc'_def)
    finally show ?thesis by (simp add: acc'_def del: take_append compute_loop.simps)
  qed
qed

lemma compute_eq: "compute name = take maxLabels (map hashName (label_suffixes name))"
  using compute_loop_spec [of "length name" name "[]"]
  by (simp add: compute_def label_suffixes_def comp_def)

section \<open>Label suffixes and subtree matching\<close>

lemma mem_label_suffixes:
  "d \<in> set (label_suffixes name) \<longleftrightarrow> (\<exists>i < length name. label_start name i \<and> d = drop i name)"
  by (auto simp: label_suffixes_def)

lemma subtreeMatch_drop_iff:
  "d \<noteq> [] \<Longrightarrow> subtreeMatch name d \<longleftrightarrow> (\<exists>i < length name. label_start name i \<and> d = drop i name)"
proof
  assume d: "d \<noteq> []" and "subtreeMatch name d"
  then consider (eq) "name = d"
    | (below) "length name > length d" "name ! (length name - length d - 1) = CHR ''.''"
        "drop (length name - length d) name = d"
    by (auto simp: subtreeMatch_def strings_HasSuffix_def)
  then show "\<exists>i < length name. label_start name i \<and> d = drop i name"
  proof cases
    case eq
    with d show ?thesis by (intro exI [of _ 0]) (simp add: label_start_def)
  next
    case below
    moreover from d have "0 < length d" by simp
    ultimately have "length name - length d < length name"
      and "label_start name (length name - length d)" and "d = drop (length name - length d) name"
      by (simp_all add: label_start_def del: length_greater_0_conv)
    then show ?thesis by blast
  qed
next
  assume "d \<noteq> []" and "\<exists>i < length name. label_start name i \<and> d = drop i name"
  then obtain i where i: "i < length name" "label_start name i" "d = drop i name" by blast
  then show "subtreeMatch name d"
    by (cases "i = 0") (auto simp: subtreeMatch_def label_start_def strings_HasSuffix_def)
qed

lemma subtreeMatch_label_suffixes:
  "d \<noteq> [] \<Longrightarrow> subtreeMatch name d \<longleftrightarrow> d \<in> set (label_suffixes name)"
  by (simp add: subtreeMatch_drop_iff mem_label_suffixes)

lemma label_suffixes_nonempty: "[] \<notin> set (label_suffixes name)"
  by (auto simp: mem_label_suffixes)

lemma label_suffixes_last:
  "name \<noteq> [] \<Longrightarrow> label_suffixes name \<noteq> [] \<and> last (label_suffixes name) = name"
proof -
  assume "name \<noteq> []"
  then obtain n where n: "length name = Suc n" by (cases name) auto
  have "rev [0..<Suc n] = rev [1..<Suc n] @ [0]"
    by (simp add: upt_conv_Cons del: upt_Suc)
  then show ?thesis by (simp add: label_suffixes_def n label_start_def del: upt_Suc)
qed

lemma distinct_label_suffixes: "distinct (label_suffixes name)"
proof -
  have "inj_on (\<lambda>i. drop i name) {0..<length name}"
    by (rule inj_onI) (metis atLeastLessThan_iff diff_diff_cancel length_drop less_imp_le_nat)
  then show ?thesis
    by (auto simp: label_suffixes_def distinct_map intro: inj_on_subset)
qed

section \<open>The number of labels\<close>

lemma length_label_suffixes:
  "length (label_suffixes name) = length (filter (label_start name) [0..<length name])"
  by (simp add: label_suffixes_def rev_filter [symmetric])

text \<open>
  A name without empty labels has at most half as many labels as bytes (rounded up), so the
  array of 128 hashes holds every suffix of a name of 253 bytes.
\<close>

definition no_empty_label :: "string \<Rightarrow> bool" where
  "no_empty_label name \<longleftrightarrow> (\<forall>i. Suc i < length name \<longrightarrow> label_start name i \<longrightarrow> name ! i \<noteq> CHR ''.'')"

lemma count_label_starts:
  assumes "no_empty_label name" and "k \<le> length name"
  shows "2 * length (filter (label_start name) [0..<k]) \<le> k + 1"
  using assms(2)
proof (induction k rule: less_induct)
  case (less k)
  consider "k = 0" | "k = 1" | j where "k = Suc (Suc j)"
    by (metis One_nat_def not0_implies_Suc)
  then show ?case
  proof cases
    case 3
    have one: "\<not> (label_start name j \<and> label_start name (Suc j))"
    proof -
      have "label_start name j \<longrightarrow> name ! j \<noteq> CHR ''.''"
        using assms(1) less.prems 3 by (simp add: no_empty_label_def)
      then show ?thesis by (simp add: label_start_def [of name "Suc j"])
    qed
    have "2 * length (filter (label_start name) [0..<j]) \<le> j + 1"
      using less 3 by simp
    with one 3 show ?thesis by auto
  qed auto
qed

lemma compute_complete:
  assumes "no_empty_label name" and "length name \<le> maxDomainLen"
  shows "compute name = map hashName (label_suffixes name)"
proof -
  have "length (label_suffixes name) \<le> maxLabels"
    using count_label_starts [OF assms(1) le_refl] assms(2)
    by (simp add: length_label_suffixes maxLabels_def maxDomainLen_def)
  then show ?thesis by (simp add: compute_eq)
qed

lemma valid_labels_no_empty:
  "valid_labels cs n \<Longrightarrow> (\<forall>i < length cs. cs ! i = CHR ''.'' \<longrightarrow> (if i = 0 then n \<noteq> 0 else cs ! (i - 1) \<noteq> CHR ''.''))"
proof (induction cs n rule: valid_labels.induct)
  case (2 c cs n)
  show ?case
  proof (intro allI impI)
    fix i assume i: "i < length (c # cs)" "(c # cs) ! i = CHR ''.''"
    show "if i = 0 then n \<noteq> 0 else (c # cs) ! (i - 1) \<noteq> CHR ''.''"
    proof (cases i)
      case 0
      then show ?thesis using i "2.prems" by (auto split: if_splits)
    next
      case (Suc j)
      then have "j < length cs" "cs ! j = CHR ''.''" using i by auto
      then show ?thesis using 2 Suc by (cases j) (auto split: if_splits)
    qed
  qed
qed simp

lemma validDomain_no_empty: "validDomain d \<Longrightarrow> no_empty_label d"
  using valid_labels_no_empty [of d 0]
  by (auto simp: validDomain_def no_empty_label_def label_start_def split: if_splits)

lemma validDomain_length: "validDomain d \<Longrightarrow> length d \<le> maxDomainLen"
  by (simp add: validDomain_def)

lemma validDomain_nonempty: "validDomain d \<Longrightarrow> d \<noteq> []"
  by (simp add: validDomain_def)

lemma valid_labels_chars: "valid_labels cs n \<Longrightarrow> c \<in> set cs \<Longrightarrow> c = CHR ''.'' \<or> label_char c"
  by (induction cs n rule: valid_labels.induct) (auto split: if_splits)

section \<open>Properties\<close>

text \<open>
  C22. The one-pass computation is exact: for every name without empty labels and of at most
  253 bytes, entry by entry, \<^verbatim>\<open>compute\<close> stores \<^verbatim>\<open>hashName\<close> of the label suffixes of the name,
  from the top-level label to the full name, and none is cut off.
\<close>

theorem compute_exact:
  assumes "no_empty_label name" and "length name \<le> maxDomainLen"
  shows "compute name = map hashName (label_suffixes name)"
  by (rule compute_complete [OF assms])

theorem compute_exact_witness:
  "compute ''a.b'' = [hashName ''b'', hashName ''a.b'']"
proof -
  have "label_suffixes ''a.b'' = [''b'', ''a.b'']"
    by (simp add: label_suffixes_def label_start_def upt_rec)
  moreover have "no_empty_label ''a.b''"
    by (auto simp: no_empty_label_def label_start_def less_Suc_eq)
  ultimately show ?thesis
    using compute_exact [of "''a.b''"] by (simp add: maxDomainLen_def)
qed

end
