(* ===== verification/TypeSets.thy ===== *)
theory TypeSets
  imports DomainNames
begin

text \<open>
  \<^verbatim>\<open>internal/dns/filter/typeset.go\<close>: the set of query types a rule or list entry applies to
  (\<^verbatim>\<open>$dnstype\<close>), as a 64-bit mask for the types below 64 and a sorted slice for the others, and
  the sorted hashes of the domains a \<^verbatim>\<open>$denyallow\<close> set excepts.
\<close>

section \<open>Definitions\<close>

definition qtypeA :: u16 where "qtypeA = 1"
definition qtypeAAAA :: u16 where "qtypeAAAA = 28"
definition qtypeSVCB :: u16 where "qtypeSVCB = 64"
definition qtypeHTTPS :: u16 where "qtypeHTTPS = 65"
definition qtypeANY :: u16 where "qtypeANY = 255"

lemmas qtype_defs = qtypeA_def qtypeAAAA_def qtypeSVCB_def qtypeHTTPS_def qtypeANY_def

record typeSet =
  ts_mask :: u64
  ts_high :: "u16 list"
  ts_negate :: bool

text \<open>One iteration of the loop over the types: \<^verbatim>\<open>1 << q\<close> is \<open>push_bit\<close>.\<close>

definition add_type :: "u16 \<Rightarrow> typeSet \<Rightarrow> typeSet" where
  "add_type q t =
     (if q < 64 then t\<lparr>ts_mask := ts_mask t OR push_bit (unat q) 1\<rparr>
      else if q \<notin> set (ts_high t) then t\<lparr>ts_high := ts_high t @ [q]\<rparr>
      else t)"

definition newTypeSet :: "u16 list \<Rightarrow> bool \<Rightarrow> typeSet" where
  "newTypeSet types negate =
     (let t = fold add_type types \<lparr>ts_mask = 0, ts_high = [], ts_negate = negate \<and> types \<noteq> []\<rparr>
      in t\<lparr>ts_high := sort (ts_high t)\<rparr>)"

definition ts_empty :: "typeSet \<Rightarrow> bool" where
  "ts_empty t \<longleftrightarrow> ts_mask t = 0 \<and> length (ts_high t) = 0"

definition ts_has :: "typeSet \<Rightarrow> u16 \<Rightarrow> bool" where
  "ts_has t q =
     (if q < 64 then ts_mask t AND push_bit (unat q) 1 \<noteq> 0
      else slices_BinarySearch (ts_high t) q)"

definition admits :: "typeSet \<Rightarrow> u16 \<Rightarrow> bool" where
  "admits t q =
     (if ts_empty t \<or> q = qtypeANY then True
      else if ts_negate t then \<not> ts_has t q
      else if ts_has t q then True
      else (q = qtypeHTTPS \<or> q = qtypeSVCB) \<and> (ts_has t qtypeA \<or> ts_has t qtypeAAAA))"

definition types_of :: "typeSet \<Rightarrow> u16 list" where
  "types_of t =
     filter (\<lambda>q. ts_mask t AND push_bit (unat q) 1 \<noteq> 0) (map of_nat [0..<64]) @ ts_high t"

definition ts_equal :: "typeSet \<Rightarrow> typeSet \<Rightarrow> bool" where
  "ts_equal t o' \<longleftrightarrow> ts_mask t = ts_mask o' \<and> ts_negate t = ts_negate o' \<and> ts_high t = ts_high o'"

text \<open>
  \<^verbatim>\<open>denyHashes\<close> (a nil result for no domains is the empty list) and \<^verbatim>\<open>excepted\<close>, the loop over
  the suffix hashes of the name.
\<close>

definition denyHashes :: "string list \<Rightarrow> u64 list" where
  "denyHashes domains = (if domains = [] then [] else remdups_adj (sort (map hashName domains)))"

definition excepted :: "u64 list \<Rightarrow> suffixHashes \<Rightarrow> bool" where
  "excepted deny sf = (if length deny = 0 then False
     else list_ex (\<lambda>h. slices_BinarySearch deny h) sf)"

section \<open>The well-formedness of a type set\<close>

definition ts_wf :: "typeSet \<Rightarrow> bool" where
  "ts_wf t \<longleftrightarrow> sorted (ts_high t) \<and> distinct (ts_high t) \<and> (\<forall>q \<in> set (ts_high t). 64 \<le> q)"

text \<open>Reading one bit of the mask.\<close>

lemma and_shifted_1_iff: "(m :: u64) AND 2 ^ n = 0 \<longleftrightarrow> \<not> bit m n"
  by (rule and_exp_eq_0_iff_not_bit)

lemma bit_or_shifted_1: "n < 64 \<Longrightarrow> bit ((m :: u64) OR 2 ^ k) n \<longleftrightarrow> bit m n \<or> n = k"
  by (auto simp: bit_simps)

lemma unat_lt_64: "(q :: u16) < 64 \<longleftrightarrow> unat q < 64"
  by (simp add: word_less_nat_alt)

definition ts_members :: "typeSet \<Rightarrow> u16 set" where
  "ts_members t = {q. q < 64 \<and> bit (ts_mask t) (unat q)} \<union> set (ts_high t)"

lemma ts_members_add_type:
  "ts_members (add_type q t) = insert q (ts_members t)"
proof (cases "q < 64")
  case True
  have "{r. r < 64 \<and> bit (ts_mask t OR push_bit (unat q) 1) (unat r)} =
      insert q {r. r < 64 \<and> bit (ts_mask t) (unat r)}"
    using True by (auto simp: unat_lt_64 bit_or_shifted_1 word_unat_eq_iff)
  with True show ?thesis by (simp add: ts_members_def add_type_def)
qed (auto simp: ts_members_def add_type_def)

lemma ts_members_fold: "ts_members (fold add_type qs t) = set qs \<union> ts_members t"
  by (induction qs arbitrary: t) (auto simp: ts_members_add_type)

definition high_ok :: "typeSet \<Rightarrow> bool" where
  "high_ok t \<longleftrightarrow> distinct (ts_high t) \<and> (\<forall>q \<in> set (ts_high t). 64 \<le> q)"

lemma high_ok_add_type: "high_ok t \<Longrightarrow> high_ok (add_type q t)"
  by (auto simp: high_ok_def add_type_def)

lemma high_ok_fold: "high_ok t \<Longrightarrow> high_ok (fold add_type qs t)"
  by (induction qs arbitrary: t) (simp_all add: high_ok_add_type)

lemma fold_add_type_negate [simp]: "ts_negate (fold add_type qs t) = ts_negate t"
  by (induction qs arbitrary: t) (auto simp: add_type_def)

lemma newTypeSet_wf: "ts_wf (newTypeSet types negate)"
  using high_ok_fold [of "\<lparr>ts_mask = 0, ts_high = [], ts_negate = negate \<and> types \<noteq> []\<rparr>" types]
  by (simp add: ts_wf_def newTypeSet_def high_ok_def Let_def)

lemma newTypeSet_members [simp]: "ts_members (newTypeSet types negate) = set types"
  using ts_members_fold [of types "\<lparr>ts_mask = 0, ts_high = [], ts_negate = negate \<and> types \<noteq> []\<rparr>"]
  by (simp add: ts_members_def newTypeSet_def Let_def)

lemma newTypeSet_negate [simp]: "ts_negate (newTypeSet types negate) \<longleftrightarrow> negate \<and> types \<noteq> []"
  by (simp add: newTypeSet_def Let_def)

lemma ts_has_members: "ts_wf t \<Longrightarrow> ts_has t q \<longleftrightarrow> q \<in> ts_members t"
  by (auto simp: ts_has_def ts_members_def ts_wf_def and_shifted_1_iff dest: leD)

lemma ts_empty_members: "ts_wf t \<Longrightarrow> ts_empty t \<longleftrightarrow> ts_members t = {}"
proof
  assume "ts_empty t"
  then show "ts_members t = {}" by (simp add: ts_empty_def ts_members_def)
next
  assume m: "ts_members t = {}"
  have "\<not> bit (ts_mask t) n" if "n < 64" for n
  proof -
    have "of_nat n \<notin> ts_members t" using m by blast
    then show ?thesis using that by (simp add: ts_members_def word_less_nat_alt unat_of_nat take_bit_eq_mod)
  qed
  then have "ts_mask t = 0" by (intro bit_eqI) (simp add: bit_imp_le_length)
  with m show "ts_empty t" by (simp add: ts_empty_def ts_members_def)
qed

lemma set_types_of: "ts_wf t \<Longrightarrow> set (types_of t) = ts_members t"
proof -
  have "{q. q < 64} = (of_nat ` {0..<64} :: u16 set)"
  proof (intro set_eqI iffI)
    fix q :: u16 assume "q \<in> {q. q < 64}"
    then have "unat q \<in> {0..<64}" by (simp add: unat_lt_64)
    then show "q \<in> of_nat ` {0..<64}" by (metis image_eqI of_nat_unat ucast_id)
  qed (auto simp: word_less_nat_alt unat_of_nat take_bit_eq_mod)
  then show ?thesis by (auto simp: types_of_def ts_members_def and_shifted_1_iff)
qed

section \<open>Deny sets\<close>

lemma denyHashes_sorted [simp]: "sorted (denyHashes ds)"
  by (simp add: denyHashes_def sorted_remdups_adj)

lemma set_denyHashes [simp]: "set (denyHashes ds) = hashName ` set ds"
  by (simp add: denyHashes_def)

lemma excepted_iff: "sorted deny \<Longrightarrow> excepted deny sf \<longleftrightarrow> set deny \<inter> set sf \<noteq> {}"
  by (auto simp: excepted_def list_ex_iff)

section \<open>Properties\<close>

text \<open>
  The bit mask and the sorted slice together decide membership exactly: whatever the types
  and their order, the set built by \<^verbatim>\<open>newTypeSet\<close> admits a query type iff the list is empty,
  or the type is ANY, or (not negated) it is in the list, or it is HTTPS or SVCB and the list has
  A or AAAA, or (negated) it is not in the list.
\<close>

theorem admits_newTypeSet:
  "admits (newTypeSet types negate) q \<longleftrightarrow>
     types = [] \<or> q = qtypeANY \<or>
     (if negate then q \<notin> set types
      else q \<in> set types \<or> q \<in> {qtypeHTTPS, qtypeSVCB} \<and> {qtypeA, qtypeAAAA} \<inter> set types \<noteq> {})"
  using newTypeSet_wf [of types negate]
  by (auto simp: admits_def ts_has_members ts_empty_members)

text \<open>
  \<^verbatim>\<open>types\<close> lists the members of a type set in ascending order without duplicates, so the
  normal form of a rule's types does not depend on how they were written.
\<close>

theorem types_of_newTypeSet:
  "types_of (newTypeSet types negate) = sorted_list_of_set (set types)"
proof -
  let ?t = "newTypeSet types negate"
  let ?low = "filter (\<lambda>q. ts_mask ?t AND push_bit (unat q) 1 \<noteq> 0) (map of_nat [0..<64]) :: u16 list"
  have wf: "ts_wf ?t" by (rule newTypeSet_wf)
  have asc: "sorted (map of_nat [0..<64] :: u16 list)" "distinct (map of_nat [0..<64] :: u16 list)"
    by (simp_all add: upt_rec)
  have low: "sorted ?low" "distinct ?low" "\<forall>q \<in> set ?low. q < 64"
    using asc sorted_filter [of id] by (auto simp: word_less_nat_alt unat_of_nat take_bit_eq_mod)
  have "sorted (?low @ ts_high ?t)" and "distinct (?low @ ts_high ?t)"
    using low wf unfolding sorted_append distinct_append ts_wf_def by fastforce+
  then have "sorted (types_of ?t)" and "distinct (types_of ?t)" unfolding types_of_def .
  moreover have "set (types_of ?t) = set types" using set_types_of [OF wf] by simp
  ultimately show ?thesis by (metis sorted_list_of_set.idem_if_sorted_distinct)
qed

end
