(* ===== verification/HashSets.thy ===== *)
theory HashSets
  imports TypeSets
begin

text \<open>
  The hash sets of \<^verbatim>\<open>internal/dns/filter/matcher.go\<close>: a sorted array of name hashes with the
  parallel array of the sources (list or rule positions) that contain them, the probe by binary
  search, and the merge of the per-list hash arrays into one set. Sources are slice positions
  (at most a few ten thousand, far below the range of uint32), so they are natural numbers.
\<close>

section \<open>Definitions\<close>

record hashSet =
  hs_h :: "u64 list"
  hs_src :: "nat list"

definition hs_Len :: "hashSet \<Rightarrow> nat" where "hs_Len s = length (hs_h s)"

definition hs_Less :: "hashSet \<Rightarrow> nat \<Rightarrow> nat \<Rightarrow> bool" where
  "hs_Less s i j \<longleftrightarrow> hs_h s ! i < hs_h s ! j \<or> hs_h s ! i = hs_h s ! j \<and> hs_src s ! i < hs_src s ! j"

definition applies :: "int list list \<Rightarrow> nat \<Rightarrow> int list \<Rightarrow> bool" where
  "applies srcGroups src groups =
     (if src \<ge> length srcGroups then False
      else list_ex (\<lambda>g. list_ex (\<lambda>c. g = c) groups) (srcGroups ! src))"

text \<open>The optional callback \<^verbatim>\<open>accept\<close>: nil admits every source.\<close>

definition accepts :: "(nat \<Rightarrow> bool) option \<Rightarrow> nat \<Rightarrow> bool" where
  "accepts accept src = (case accept of None \<Rightarrow> True | Some f \<Rightarrow> f src)"

text \<open>The two loops of \<^verbatim>\<open>lookup\<close>, for a predicate on sources.\<close>

definition hs_find :: "hashSet \<Rightarrow> u64 \<Rightarrow> (nat \<Rightarrow> bool) \<Rightarrow> nat option" where
  "hs_find s h ok = map_option (\<lambda>i. hs_src s ! i) (probe_run (hs_h s) h (\<lambda>i. ok (hs_src s ! i)))"

definition hs_lookup ::
  "hashSet \<Rightarrow> u64 \<Rightarrow> int list \<Rightarrow> int list list \<Rightarrow> (nat \<Rightarrow> bool) option \<Rightarrow> nat option" where
  "hs_lookup s h groups srcGroups accept =
     hs_find s h (\<lambda>src. applies srcGroups src groups \<and> accepts accept src)"

definition hs_lookupSuffixes ::
  "hashSet \<Rightarrow> suffixHashes \<Rightarrow> int list \<Rightarrow> int list list \<Rightarrow> (nat \<Rightarrow> bool) option \<Rightarrow> nat option" where
  "hs_lookupSuffixes s sf groups srcGroups accept =
     (if length (hs_h s) = 0 then None
      else first_some (\<lambda>h. hs_lookup s h groups srcGroups accept) (rev sf))"

definition hs_lookupExact ::
  "hashSet \<Rightarrow> suffixHashes \<Rightarrow> int list \<Rightarrow> int list list \<Rightarrow> (nat \<Rightarrow> bool) option \<Rightarrow> nat option" where
  "hs_lookupExact s sf groups srcGroups accept =
     (if length (hs_h s) = 0 \<or> length sf = 0 then None
      else hs_lookup s (sf ! (length sf - 1)) groups srcGroups accept)"

text \<open>
  \<^verbatim>\<open>sort.Sort(&hs)\<close> permutes both arrays with the order of \<^verbatim>\<open>Less\<close>. Entries that are equal in
  that order are identical, so the result is the sorted list of pairs.
\<close>

definition sortHashSet :: "hashSet \<Rightarrow> hashSet" where
  "sortHashSet s =
     (let ps = sort (zip (hs_h s) (hs_src s)) in s\<lparr>hs_h := map fst ps, hs_src := map snd ps\<rparr>)"

definition mergeHashes :: "u64 list list \<Rightarrow> hashSet" where
  "mergeHashes parts =
     (let n = sum_list (map length parts) in
      if n = 0 then \<lparr>hs_h = [], hs_src = []\<rparr>
      else
        let hs = \<lparr>hs_h = concat parts,
                  hs_src = concat (map (\<lambda>(src, part). replicate (length part) src) (enumerate 0 parts))\<rparr>;
            nonEmpty = length (filter (\<lambda>part. length part > 0) parts)
        in if nonEmpty > 1 then sortHashSet hs else hs)"

section \<open>The contract of a source index\<close>

text \<open>
  What the matchers rely on: the index holds pairs of a hash and a source, and a lookup returns
  the first source in ascending order that has the hash and is accepted.
\<close>

locale source_index =
  fixes entries :: "'s \<Rightarrow> (u64 \<times> nat) list"
    and lookup :: "'s \<Rightarrow> u64 \<Rightarrow> (nat \<Rightarrow> bool) \<Rightarrow> nat option"
    and inv :: "'s \<Rightarrow> bool"
  assumes entries_sorted: "inv s \<Longrightarrow> sorted (entries s)"
    and lookup_find: "inv s \<Longrightarrow> lookup s h ok = find ok (map snd (filter (\<lambda>e. fst e = h) (entries s)))"
begin

lemma lookup_SomeD: "inv s \<Longrightarrow> lookup s h ok = Some src \<Longrightarrow> (h, src) \<in> set (entries s) \<and> ok src"
  by (auto simp: lookup_find dest!: find_SomeD)

lemma lookup_None_iff:
  "inv s \<Longrightarrow> lookup s h ok = None \<longleftrightarrow> (\<forall>src. (h, src) \<in> set (entries s) \<longrightarrow> \<not> ok src)"
  by (force simp: lookup_find find_None_all)

lemma sources_sorted: "inv s \<Longrightarrow> sorted (map snd (filter (\<lambda>e. fst e = h) (entries s)))"
proof -
  assume "inv s"
  then have "sorted (filter (\<lambda>e. fst e = h) (entries s))"
    using entries_sorted by (simp add: sorted_wrt_filter)
  then show ?thesis
    unfolding sorted_map by (rule sorted_wrt_mono_rel [rotated]) (auto simp: less_eq_prod_def)
qed

lemma lookup_cong:
  assumes "inv s" and "sorted xs" and "\<And>src. ok src \<Longrightarrow> src \<in> set xs \<longleftrightarrow> (h, src) \<in> set (entries s)"
  shows "lookup s h ok = find ok xs"
  unfolding lookup_find [OF assms(1)]
  using sources_sorted [OF assms(1)] assms(2) by (rule find_sorted_cong) (force simp: assms(3))

lemma lookup_least:
  "inv s \<Longrightarrow> lookup s h ok = Some src \<Longrightarrow> (h, src') \<in> set (entries s) \<Longrightarrow> ok src' \<Longrightarrow> src \<le> src'"
  using find_sorted_least [OF sources_sorted] by (force simp: lookup_find)

end

section \<open>Hash sets provide it\<close>

definition hs_entries :: "hashSet \<Rightarrow> (u64 \<times> nat) list" where
  "hs_entries s = zip (hs_h s) (hs_src s)"

definition hs_wf :: "hashSet \<Rightarrow> bool" where
  "hs_wf s \<longleftrightarrow> length (hs_h s) = length (hs_src s) \<and> sorted (hs_entries s)"

lemma sorted_map_fst: "sorted (ps :: ('a::linorder \<times> 'b::linorder) list) \<Longrightarrow> sorted (map fst ps)"
  unfolding sorted_map by (erule sorted_wrt_mono_rel [rotated]) (auto simp: less_eq_prod_def)

lemma hs_wf_sorted_h: "hs_wf s \<Longrightarrow> sorted (hs_h s)"
  using sorted_map_fst [of "hs_entries s"] by (simp add: hs_wf_def hs_entries_def)

lemma filter_zip_upt:
  "length hs = length ss \<Longrightarrow>
   map snd (filter (\<lambda>e. fst e = h) (zip hs ss)) = map ((!) ss) (filter (\<lambda>i. hs ! i = h) [0..<length hs])"
proof -
  assume len: "length hs = length ss"
  have "zip hs ss = map (\<lambda>i. (hs ! i, ss ! i)) [0..<length hs]"
    using len by (intro nth_equalityI) auto
  then show ?thesis by (simp add: filter_map comp_def)
qed

lemma hs_find_eq:
  assumes "hs_wf s"
  shows "hs_find s h ok = find ok (map snd (filter (\<lambda>e. fst e = h) (hs_entries s)))"
proof -
  have len: "length (hs_h s) = length (hs_src s)" using assms by (simp add: hs_wf_def)
  have "hs_find s h ok = map_option ((!) (hs_src s))
      (find (\<lambda>i. hs_h s ! i = h \<and> ok (hs_src s ! i)) [0..<length (hs_h s)])"
    by (simp add: hs_find_def probe_run_find [OF hs_wf_sorted_h [OF assms]])
  also have "\<dots> = find ok (map ((!) (hs_src s)) (filter (\<lambda>i. hs_h s ! i = h) [0..<length (hs_h s)]))"
    by (simp add: find_upt_filter_nth)
  finally show ?thesis by (simp add: hs_entries_def filter_zip_upt [OF len])
qed

interpretation hs: source_index hs_entries hs_find hs_wf
  by unfold_locales (auto simp: hs_wf_def hs_find_eq)

section \<open>Sorting and merging\<close>

lemma hs_entries_sortHashSet:
  "length (hs_h s) = length (hs_src s) \<Longrightarrow> hs_entries (sortHashSet s) = sort (hs_entries s)"
  by (simp add: sortHashSet_def hs_entries_def Let_def zip_map_fst_snd)

lemma sortHashSet_wf [inv_intros]: "length (hs_h s) = length (hs_src s) \<Longrightarrow> hs_wf (sortHashSet s)"
  using hs_entries_sortHashSet [of s] by (simp add: hs_wf_def sortHashSet_def Let_def)

lemma set_hs_entries_sort:
  "length (hs_h s) = length (hs_src s) \<Longrightarrow> set (hs_entries (sortHashSet s)) = set (hs_entries s)"
  by (simp add: hs_entries_sortHashSet)

text \<open>The pairs that the merge appends, source by source.\<close>

definition tagged :: "nat \<Rightarrow> u64 list list \<Rightarrow> (u64 \<times> nat) list" where
  "tagged n parts = concat (map (\<lambda>(src, part). map (\<lambda>h. (h, src)) part) (enumerate n parts))"

lemma tagged_simps [simp]:
  "tagged n [] = []"
  "tagged n (p # ps) = map (\<lambda>h. (h, n)) p @ tagged (Suc n) ps"
  by (simp_all add: tagged_def)

lemma zip_tagged:
  "zip (concat parts) (concat (map (\<lambda>(src, part). replicate (length part) src) (enumerate n parts)))
     = tagged n parts"
proof (induction parts arbitrary: n)
  case (Cons p ps)
  have "zip p (replicate (length p) n) = map (\<lambda>h. (h, n)) p"
    by (induction p) auto
  with Cons show ?case by (simp add: zip_append)
qed simp

lemma length_tags:
  "length (concat parts) =
     length (concat (map (\<lambda>(src, part). replicate (length part) src) (enumerate n parts)))"
  by (induction parts arbitrary: n) auto

lemma set_tagged: "set (tagged n parts) = {(h, n + i) | h i. i < length parts \<and> h \<in> set (parts ! i)}"
proof (induction parts arbitrary: n)
  case (Cons p ps)
  have "{(h, n + i) | h i. i < length (p # ps) \<and> h \<in> set ((p # ps) ! i)} =
      {(h, n) | h. h \<in> set p} \<union> {(h, Suc n + i) | h i. i < length ps \<and> h \<in> set (ps ! i)}"
    (is "?L = ?R")
  proof (intro set_eqI iffI)
    fix e assume "e \<in> ?L"
    then obtain h i where "e = (h, n + i)" "i < length (p # ps)" "h \<in> set ((p # ps) ! i)" by blast
    then show "e \<in> ?R" by (cases i) auto
  qed (force+)
  with Cons show ?case by auto
qed simp

lemma tagged_all_empty: "filter (\<lambda>part. length part > 0) parts = [] \<Longrightarrow> tagged n parts = []"
  by (induction parts arbitrary: n) (auto split: if_splits)

lemma tagged_single_sorted:
  "length (filter (\<lambda>part. length part > 0) parts) \<le> 1 \<Longrightarrow> \<forall>p \<in> set parts. sorted p \<Longrightarrow>
   sorted (tagged n parts)"
proof (induction parts arbitrary: n)
  case (Cons p ps)
  show ?case
  proof (cases "p = []")
    case True
    with Cons show ?thesis by simp
  next
    case False
    then have "tagged (Suc n) ps = []" using Cons.prems by (intro tagged_all_empty) auto
    moreover have "sorted (map (\<lambda>h. (h, n)) p)"
      using Cons.prems by (auto simp: sorted_map less_eq_prod_def elim!: sorted_wrt_mono_rel [rotated])
    ultimately show ?thesis by simp
  qed
qed simp

lemma mergeHashes_wf [inv_intros]:
  assumes "\<forall>p \<in> set parts. sorted p"
  shows "hs_wf (mergeHashes parts)"
proof -
  let ?hs = "\<lparr>hs_h = concat parts,
    hs_src = concat (map (\<lambda>(src, part). replicate (length part) src) (enumerate 0 parts))\<rparr>"
  have len: "length (hs_h ?hs) = length (hs_src ?hs)" by (simp only: hashSet.select_convs length_tags)
  have ent: "hs_entries ?hs = tagged 0 parts" by (simp add: hs_entries_def zip_tagged)
  have "hs_wf ?hs" if "\<not> length (filter (\<lambda>part. length part > 0) parts) > 1"
    using that assms len ent tagged_single_sorted [of parts 0] by (simp only: hs_wf_def)
  moreover have "hs_wf \<lparr>hs_h = [], hs_src = []\<rparr>" by (simp add: hs_wf_def hs_entries_def)
  ultimately show ?thesis
    using sortHashSet_wf [OF len] by (simp only: mergeHashes_def Let_def split: if_splits) auto
qed

lemma set_mergeHashes:
  "set (hs_entries (mergeHashes parts)) = {(h, i) | h i. i < length parts \<and> h \<in> set (parts ! i)}"
proof -
  let ?hs = "\<lparr>hs_h = concat parts,
    hs_src = concat (map (\<lambda>(src, part). replicate (length part) src) (enumerate 0 parts))\<rparr>"
  have len: "length (hs_h ?hs) = length (hs_src ?hs)" by (simp only: hashSet.select_convs length_tags)
  have ent: "set (hs_entries ?hs) = {(h, i) | h i. i < length parts \<and> h \<in> set (parts ! i)}"
    using set_tagged [of 0 parts] by (simp add: hs_entries_def zip_tagged)
  show ?thesis
  proof (cases "sum_list (map length parts) = 0")
    case True
    then have "\<forall>p \<in> set parts. p = []" by (auto simp: sum_list_eq_0_iff)
    then have none: "\<forall>i < length parts. parts ! i = []" by simp
    have "set (hs_entries (mergeHashes parts)) = {}"
      using True by (simp add: mergeHashes_def hs_entries_def)
    with none show ?thesis by auto
  next
    case False
    then show ?thesis
      using ent set_hs_entries_sort [OF len] by (simp only: mergeHashes_def Let_def if_False split: if_splits) auto
  qed
qed

section \<open>Groups\<close>

lemma applies_iff:
  "applies srcGroups src groups \<longleftrightarrow> src < length srcGroups \<and> set (srcGroups ! src) \<inter> set groups \<noteq> {}"
  by (auto simp: applies_def list_ex_iff)

section \<open>Properties\<close>

text \<open>
  Merging the sorted hash arrays of the lists and probing the merged set by binary search
  finds exactly what a search through the lists in order finds: the first list (lowest position)
  whose array contains the hash, that shares a group with the client and that the callback
  admits; nothing is found iff there is no such list.
\<close>

theorem mergeHashes_lookup:
  assumes "\<forall>p \<in> set parts. sorted p"
  shows "hs_lookup (mergeHashes parts) h groups srcGroups accept =
    find (\<lambda>i. h \<in> set (parts ! i) \<and> applies srcGroups i groups \<and> accepts accept i) [0..<length parts]"
proof -
  let ?ok = "\<lambda>i. applies srcGroups i groups \<and> accepts accept i"
  have "hs_lookup (mergeHashes parts) h groups srcGroups accept =
      find ?ok (filter (\<lambda>i. h \<in> set (parts ! i)) [0..<length parts])"
    unfolding hs_lookup_def
    by (rule hs.lookup_cong [OF mergeHashes_wf [OF assms]])
      (auto simp: set_mergeHashes sorted_filter [of id, simplified])
  then show ?thesis by (simp add: find_filter)
qed

theorem mergeHashes_lookup_witness:
  "hs_lookup (mergeHashes [[3, 7], [], [5, 7]]) 7 [2] [[1], [2], [2]] None = Some 2"
  using mergeHashes_lookup [of "[[3, 7], [], [5, 7]]" 7 "[2]" "[[1], [2], [2]]" None]
  by (simp add: applies_def accepts_def upt_rec)

end
