(* ===== verification/Regexes.thy ===== *)
theory Regexes
  imports GoStrings
begin

text \<open>
  The parse trees of Go's \<^verbatim>\<open>regexp/syntax\<close> and the three functions of
  \<^verbatim>\<open>internal/dns/filter/parse.go\<close> that walk them: the estimate of the compiled size
  (\<^verbatim>\<open>regexCost\<close>), the literal every match contains (\<^verbatim>\<open>requiredLiteral\<close>) and the search over the
  literals of a tree (\<^verbatim>\<open>anyLiteral\<close>). The meaning of a tree is the set of the spans it matches in
  a name, as documented for the package.
\<close>

section \<open>Parse trees\<close>

text \<open>
  A rune is its code point. A literal carries the flag \<^verbatim>\<open>FoldCase\<close>; the bounds of a repetition
  are Go ints with \<open>-1\<close> for no upper bound. A character class is the flattened list of the
  bounds of its ranges, as in the field \<^verbatim>\<open>Rune\<close>.
\<close>

datatype regexp =
    OpNoMatch
  | OpEmptyMatch
  | OpLiteral bool "nat list"
  | OpCharClass "nat list"
  | OpAnyCharNotNL
  | OpAnyChar
  | OpBeginLine
  | OpEndLine
  | OpBeginText
  | OpEndText
  | OpWordBoundary
  | OpNoWordBoundary
  | OpCapture regexp
  | OpStar regexp
  | OpPlus regexp
  | OpQuest regexp
  | OpRepeat regexp int int
  | OpConcat "regexp list"
  | OpAlternate "regexp list"

section \<open>The functions of the source\<close>

fun regexCost :: "regexp \<Rightarrow> int" where
  "regexCost (OpLiteral f rs) = max 1 (int (length rs))"
| "regexCost (OpCharClass rs) = max 1 (1 + int (length rs) div 8)"
| "regexCost (OpCapture r) = max 1 (2 + regexCost r)"
| "regexCost (OpStar r) = max 1 (2 + regexCost r)"
| "regexCost (OpPlus r) = max 1 (1 + regexCost r)"
| "regexCost (OpQuest r) = max 1 (1 + regexCost r)"
| "regexCost (OpConcat rs) = max 1 (sum_list (map regexCost rs))"
| "regexCost (OpAlternate rs) = max 1 (sum_list (map regexCost rs) + int (length rs) - 1)"
| "regexCost (OpRepeat r mn mx) =
     (let sub = regexCost r in
      max 1 (if mx = -1 \<and> mn = 0 then 2 + sub
             else if mx = -1 then 1 + mn * sub
             else mx * sub + (mx - mn)))"
| "regexCost _ = max 1 0"

text \<open>
  \<^verbatim>\<open>strings.ToLower(string(re.Rune))\<close>: the UTF-8 encoding of the lower-case runes. The case
  mapping of runes beyond ASCII is the Unicode table of the library, a parameter.
\<close>

definition lower_rune :: "(nat \<Rightarrow> nat) \<Rightarrow> nat \<Rightarrow> nat" where
  "lower_rune uni r = (if 65 \<le> r \<and> r \<le> 90 then r + 32 else if r < 128 then r else uni r)"

definition utf8 :: "nat \<Rightarrow> string" where
  "utf8 r =
     (if r < 128 then [char_of r]
      else if r < 2048 then [char_of (192 + r div 64), char_of (128 + r mod 64)]
      else if r < 65536 then
        [char_of (224 + r div 4096), char_of (128 + r div 64 mod 64), char_of (128 + r mod 64)]
      else [char_of (240 + r div 262144), char_of (128 + r div 4096 mod 64),
            char_of (128 + r div 64 mod 64), char_of (128 + r mod 64)])"

definition lower_text :: "(nat \<Rightarrow> nat) \<Rightarrow> nat list \<Rightarrow> string" where
  "lower_text uni rs = concat (map (\<lambda>r. utf8 (lower_rune uni r)) rs)"

text \<open>The loop over the parts of a concatenation keeps the first literal of the greatest length.\<close>

fun longer :: "string list \<Rightarrow> string \<Rightarrow> string" where
  "longer [] best = best"
| "longer (l # ls) best = longer ls (if length l > length best then l else best)"

fun requiredLiteral :: "(nat \<Rightarrow> nat) \<Rightarrow> regexp \<Rightarrow> string" where
  "requiredLiteral uni (OpLiteral f rs) = lower_text uni rs"
| "requiredLiteral uni (OpCapture r) = requiredLiteral uni r"
| "requiredLiteral uni (OpConcat rs) = longer (map (requiredLiteral uni) rs) []"
| "requiredLiteral uni (OpPlus r) = requiredLiteral uni r"
| "requiredLiteral uni (OpRepeat r mn mx) = (if mn < 1 then [] else requiredLiteral uni r)"
| "requiredLiteral uni _ = []"

fun anyLiteral :: "(nat \<Rightarrow> nat) \<Rightarrow> regexp \<Rightarrow> (string \<Rightarrow> bool) \<Rightarrow> bool" where
  "anyLiteral uni (OpLiteral f rs) fn = fn (lower_text uni rs)"
| "anyLiteral uni (OpCapture r) fn = anyLiteral uni r fn"
| "anyLiteral uni (OpStar r) fn = anyLiteral uni r fn"
| "anyLiteral uni (OpPlus r) fn = anyLiteral uni r fn"
| "anyLiteral uni (OpQuest r) fn = anyLiteral uni r fn"
| "anyLiteral uni (OpRepeat r mn mx) fn = anyLiteral uni r fn"
| "anyLiteral uni (OpConcat rs) fn = list_ex (\<lambda>r. anyLiteral uni r fn) rs"
| "anyLiteral uni (OpAlternate rs) fn = list_ex (\<lambda>r. anyLiteral uni r fn) rs"
| "anyLiteral uni _ fn = False"

section \<open>What a tree matches\<close>

text \<open>
  The spans \<open>(i, j)\<close> of a name that a tree matches. Names are ASCII, so a rune is a byte of the
  name. Under \<^verbatim>\<open>FoldCase\<close> a rune stands for all runes of the same lower case.
\<close>

definition rune_matches :: "(nat \<Rightarrow> nat) \<Rightarrow> bool \<Rightarrow> nat \<Rightarrow> char \<Rightarrow> bool" where
  "rune_matches uni f r c \<longleftrightarrow>
     (if f then lower_rune uni r = lower_rune uni (of_char c) else r = of_char c)"

fun in_class :: "nat list \<Rightarrow> nat \<Rightarrow> bool" where
  "in_class (lo # hi # rs) r \<longleftrightarrow> lo \<le> r \<and> r \<le> hi \<or> in_class rs r"
| "in_class _ r = False"

definition word_char :: "char \<Rightarrow> bool" where
  "word_char c \<longleftrightarrow> c = CHR ''_'' \<or> CHR ''0'' \<le> c \<and> c \<le> CHR ''9'' \<or> CHR ''A'' \<le> c \<and> c \<le> CHR ''Z''
     \<or> CHR ''a'' \<le> c \<and> c \<le> CHR ''z''"

definition boundary :: "string \<Rightarrow> nat \<Rightarrow> bool" where
  "boundary q i \<longleftrightarrow>
     (0 < i \<and> i \<le> length q \<and> word_char (q ! (i - 1))) \<noteq> (i < length q \<and> word_char (q ! i))"

fun spans :: "(nat \<Rightarrow> nat) \<Rightarrow> string \<Rightarrow> regexp \<Rightarrow> (nat \<times> nat) set" where
  "spans uni q OpNoMatch = {}"
| "spans uni q OpEmptyMatch = Id_on {..length q}"
| "spans uni q (OpLiteral f rs) =
     {(i, j). j = i + length rs \<and> j \<le> length q \<and>
        (\<forall>k < length rs. rune_matches uni f (rs ! k) (q ! (i + k)))}"
| "spans uni q (OpCharClass rs) = {(i, j). j = Suc i \<and> i < length q \<and> in_class rs (of_char (q ! i))}"
| "spans uni q OpAnyCharNotNL = {(i, j). j = Suc i \<and> i < length q \<and> q ! i \<noteq> CHR 0x0A}"
| "spans uni q OpAnyChar = {(i, j). j = Suc i \<and> i < length q}"
| "spans uni q OpBeginLine = Id_on {i. i \<le> length q \<and> (i = 0 \<or> q ! (i - 1) = CHR 0x0A)}"
| "spans uni q OpEndLine = Id_on {i. i \<le> length q \<and> (i = length q \<or> q ! i = CHR 0x0A)}"
| "spans uni q OpBeginText = {(0, 0)}"
| "spans uni q OpEndText = {(length q, length q)}"
| "spans uni q OpWordBoundary = Id_on {i. i \<le> length q \<and> boundary q i}"
| "spans uni q OpNoWordBoundary = Id_on {i. i \<le> length q \<and> \<not> boundary q i}"
| "spans uni q (OpCapture r) = spans uni q r"
| "spans uni q (OpStar r) = Id_on {..length q} \<union> (spans uni q r)\<^sup>+"
| "spans uni q (OpPlus r) = (spans uni q r)\<^sup>+"
| "spans uni q (OpQuest r) = Id_on {..length q} \<union> spans uni q r"
| "spans uni q (OpRepeat r mn mx) =
     {(i, j). \<exists>n. mn \<le> int n \<and> (mx = -1 \<or> int n \<le> mx) \<and> i \<le> length q \<and> (i, j) \<in> spans uni q r ^^ n}"
| "spans uni q (OpConcat rs) = foldr (\<lambda>r s. spans uni q r O s) rs (Id_on {..length q})"
| "spans uni q (OpAlternate rs) = (\<Union>r \<in> set rs. spans uni q r)"

definition MatchString :: "(nat \<Rightarrow> nat) \<Rightarrow> regexp \<Rightarrow> string \<Rightarrow> bool" where
  "MatchString uni re q \<longleftrightarrow> spans uni q re \<noteq> {}"

section \<open>Costs\<close>

lemma regexCost_pos: "1 \<le> regexCost r"
  by (cases r rule: regexCost.cases) (simp_all add: Let_def)

lemma regexCost_sub_concat: "r \<in> set rs \<Longrightarrow> regexCost r \<le> regexCost (OpConcat rs)"
proof -
  assume "r \<in> set rs"
  then have "regexCost r \<le> sum_list (map regexCost rs)"
    using regexCost_pos by (intro member_le_sum_list) (auto intro: order_trans [of _ 1])
  then show ?thesis by simp
qed

section \<open>Every match contains the required literal\<close>

text \<open>
  Names reach the matcher in lower case: no byte of them changes under \<^verbatim>\<open>ToLower\<close>, and all are
  ASCII.
\<close>

definition lower_ascii :: "string \<Rightarrow> bool" where
  "lower_ascii q \<longleftrightarrow> (\<forall>c \<in> set q. (of_char c :: nat) < 128 \<and> \<not> (CHR ''A'' \<le> c \<and> c \<le> CHR ''Z''))"

lemma rune_matches_lower:
  assumes "(of_char c :: nat) < 128" and "\<not> (CHR ''A'' \<le> c \<and> c \<le> CHR ''Z'')"
    and "rune_matches uni f r c"
  shows "utf8 (lower_rune uni r) = [c]"
proof -
  have "\<not> (65 \<le> (of_char c :: nat) \<and> (of_char c :: nat) \<le> 90)"
    using assms(2) by (simp add: less_eq_char_def)
  then have "lower_rune uni (of_char c) = of_char c"
    using assms(1) by (auto simp: lower_rune_def)
  then have "lower_rune uni r = of_char c"
    using assms(3) by (auto simp: rune_matches_def split: if_splits)
  then show ?thesis using assms(1) by (simp add: utf8_def)
qed

lemma literal_span_text:
  assumes "lower_ascii q" and "(i, j) \<in> spans uni q (OpLiteral f rs)"
  shows "lower_text uni rs = take (j - i) (drop i q)"
proof -
  have j: "j = i + length rs" "j \<le> length q"
    and m: "\<And>k. k < length rs \<Longrightarrow> rune_matches uni f (rs ! k) (q ! (i + k))"
    using assms(2) by auto
  have "utf8 (lower_rune uni (rs ! k)) = [q ! (i + k)]" if "k < length rs" for k
  proof (rule rune_matches_lower [OF _ _ m [OF that]])
    have "q ! (i + k) \<in> set q" using that j by simp
    then show "(of_char (q ! (i + k)) :: nat) < 128"
      and "\<not> (CHR ''A'' \<le> q ! (i + k) \<and> q ! (i + k) \<le> CHR ''Z'')"
      using assms(1) by (auto simp: lower_ascii_def)
  qed
  then have "map (\<lambda>r. utf8 (lower_rune uni r)) rs = map (\<lambda>c. [c]) (take (j - i) (drop i q))"
    using j by (intro nth_equalityI) auto
  then have "lower_text uni rs = concat (map (\<lambda>c. [c]) (take (j - i) (drop i q)))"
    by (simp add: lower_text_def)
  then show ?thesis by simp
qed

lemma sublist_take_drop: "sublist (take n (drop i q)) q"
  by (metis append_take_drop_id sublist_def)

lemma trancl_first: "(i, j) \<in> r\<^sup>+ \<Longrightarrow> r \<noteq> {}"
  by (auto elim: tranclE)

lemma relpow_nonempty: "0 < n \<Longrightarrow> (i, j) \<in> (r :: 'a rel) ^^ n \<Longrightarrow> r \<noteq> {}"
  by (cases n) auto

lemma foldr_relcomp_nonempty: "foldr (\<lambda>r s. f r O s) rs S \<noteq> {} \<Longrightarrow> r \<in> set rs \<Longrightarrow> f r \<noteq> {}"
  by (induction rs) auto

lemma longer_cases: "longer ls best = best \<or> longer ls best \<in> set ls"
  by (induction ls best rule: longer.induct) auto

text \<open>A tree that matches anywhere in a name has its required literal in that name.\<close>

lemma requiredLiteral_sublist:
  "lower_ascii q \<Longrightarrow> spans uni q re \<noteq> {} \<Longrightarrow> sublist (requiredLiteral uni re) q"
proof (induction re rule: regexp.induct)
  case (OpLiteral f rs)
  then obtain i j where "(i, j) \<in> spans uni q (OpLiteral f rs)" by fast
  then show ?case using literal_span_text [OF OpLiteral.prems(1)] sublist_take_drop by (metis requiredLiteral.simps(1))
next
  case (OpPlus r)
  then show ?case by (auto dest: trancl_first)
next
  case (OpRepeat r mn mx)
  then obtain i j n where n: "mn \<le> int n" "(i, j) \<in> spans uni q r ^^ n" by auto
  have "spans uni q r \<noteq> {}" if "1 \<le> mn"
    using relpow_nonempty [OF _ n(2)] n(1) that by simp
  then show ?case using OpRepeat by auto
next
  case (OpConcat rs)
  have ne: "spans uni q r \<noteq> {}" if "r \<in> set rs" for r
    using foldr_relcomp_nonempty [of "spans uni q"] OpConcat.prems(2) that by simp
  from longer_cases [of "map (requiredLiteral uni) rs" "[]"] show ?case
    using OpConcat.IH [OF _ OpConcat.prems(1) ne] by auto
qed auto

lemma anyLiteral_mono: "anyLiteral uni re f \<Longrightarrow> (\<And>l. f l \<Longrightarrow> g l) \<Longrightarrow> anyLiteral uni re g"
  by (induction re rule: regexp.induct) (auto simp: list_ex_iff)

section \<open>The contract of the literal index\<close>

text \<open>
  What the pattern index relies on: a matcher and a literal per pattern such that every name the
  pattern matches contains the literal. The names are those of a class (the lower-case ones).
\<close>

locale literal_law =
  fixes matches :: "'re \<Rightarrow> string \<Rightarrow> bool"
    and literal :: "'re \<Rightarrow> string"
    and name :: "string \<Rightarrow> bool"
  assumes match_contains: "name q \<Longrightarrow> matches re q \<Longrightarrow> strings_Contains q (literal re)"
begin

lemma no_literal_no_match: "name q \<Longrightarrow> \<not> strings_Contains q (literal re) \<Longrightarrow> \<not> matches re q"
  using match_contains by blast

end

interpretation re2: literal_law "MatchString uni" "requiredLiteral uni" lower_ascii
  for uni
  by unfold_locales (simp add: MatchString_def Contains_iff requiredLiteral_sublist)

section \<open>Properties\<close>

text \<open>
  The pre-check of the pattern matcher loses no match: whatever the regular expression, every
  lower-case ASCII name that it matches contains the literal \<^verbatim>\<open>requiredLiteral\<close> returns for it.
\<close>

theorem requiredLiteral_sound:
  assumes "lower_ascii q" and "MatchString uni re q"
  shows "strings_Contains q (requiredLiteral uni re)"
  using assms by (rule re2.match_contains)

theorem requiredLiteral_sound_witness:
  "strings_Contains ''ads.x'' (requiredLiteral id (OpConcat [OpLiteral True [65, 68], OpPlus OpAnyChar]))"
proof (rule requiredLiteral_sound)
  show "lower_ascii ''ads.x''" by (simp add: lower_ascii_def less_eq_char_def)
  have "(0, 2) \<in> spans id ''ads.x'' (OpLiteral True [65, 68])"
    by (auto simp: rune_matches_def lower_rune_def less_Suc_eq numeral_2_eq_2)
  moreover have "(2, 3) \<in> spans id ''ads.x'' (OpPlus OpAnyChar)"
    by (auto intro!: r_into_trancl)
  moreover have "(3, 3) \<in> Id_on {..length ''ads.x''}" by auto
  ultimately have "(0, 3) \<in> spans id ''ads.x'' (OpConcat [OpLiteral True [65, 68], OpPlus OpAnyChar])"
    by (simp only: spans.simps foldr.simps comp_def id_apply) (rule relcompI, assumption, rule relcompI)
  then show "MatchString id (OpConcat [OpLiteral True [65, 68], OpPlus OpAnyChar]) ''ads.x''"
    unfolding MatchString_def by blast
qed

end
