(* ===== verification/PatternSets.thy ===== *)
theory PatternSets
  imports HashSets Regexes
begin

text \<open>
  The pattern index of \<^verbatim>\<open>internal/dns/filter/matcher.go\<close>: compiled regular expressions and
  wildcards, indexed by the first four bytes of a literal that every match contains, so that a
  lookup evaluates only the expressions whose literal occurs in the name. The compiled expression
  is of any type; \<open>matches\<close> stands for \<^verbatim>\<open>MatchString\<close>.
\<close>

section \<open>Definitions\<close>

record 're pattern =
  pat_re :: 're
  pat_lit :: string
  pat_src :: nat

record 're patternSet =
  ps_pats :: "'re pattern list"
  ps_keys :: "u32 list"
  ps_kidx :: "nat list"
  ps_always :: "nat list"

definition key4 :: "string \<Rightarrow> u32" where
  "key4 s = of_nat (of_char (s ! 0)) OR push_bit 8 (of_nat (of_char (s ! 1)))
     OR push_bit 16 (of_nat (of_char (s ! 2))) OR push_bit 24 (of_nat (of_char (s ! 3)))"

text \<open>
  The loop over the patterns, then \<^verbatim>\<open>sort.Sort(byKey{&ps})\<close>: the parallel arrays are sorted by
  key, then by pattern index.
\<close>

definition newPatternSet :: "'re pattern list \<Rightarrow> 're patternSet" where
  "newPatternSet pats =
     (let short = filter (\<lambda>i. length (pat_lit (pats ! i)) < 4) [0..<length pats];
          long = filter (\<lambda>i. \<not> length (pat_lit (pats ! i)) < 4) [0..<length pats];
          ks = sort (map (\<lambda>i. (key4 (pat_lit (pats ! i)), i)) long)
      in \<lparr>ps_pats = pats, ps_keys = map fst ks, ps_kidx = map snd ks, ps_always = short\<rparr>)"

definition ps_lookup ::
  "('re \<Rightarrow> string \<Rightarrow> bool) \<Rightarrow> 're patternSet \<Rightarrow> string \<Rightarrow> int list \<Rightarrow> int list list \<Rightarrow>
   (nat \<Rightarrow> bool) option \<Rightarrow> nat option" where
  "ps_lookup matches ps q groups srcGroups accept =
     (if length (ps_pats ps) = 0 then None
      else
        case find (\<lambda>i. let p = ps_pats ps ! i in
              strings_Contains q (pat_lit p) \<and> applies srcGroups (pat_src p) groups \<and>
              accepts accept (pat_src p) \<and> matches (pat_re p) q) (ps_always ps) of
          Some i \<Rightarrow> Some i
        | None \<Rightarrow>
            if length (ps_keys ps) = 0 then None
            else first_some (\<lambda>off. map_option (\<lambda>j. ps_kidx ps ! j)
                (probe_run (ps_keys ps) (key4 (drop off q))
                  (\<lambda>j. let p = ps_pats ps ! (ps_kidx ps ! j) in
                     strings_HasPrefix (drop off q) (pat_lit p) \<and>
                     applies srcGroups (pat_src p) groups \<and>
                     accepts accept (pat_src p) \<and> matches (pat_re p) q)))
              [0..<length q - 3])"

section \<open>The index\<close>

definition ps_wf :: "'re patternSet \<Rightarrow> bool" where
  "ps_wf ps \<longleftrightarrow> length (ps_keys ps) = length (ps_kidx ps) \<and> sorted (ps_keys ps) \<and>
     (\<forall>i \<in> set (ps_always ps). i < length (ps_pats ps)) \<and>
     (\<forall>i \<in> set (ps_kidx ps). i < length (ps_pats ps)) \<and>
     (\<forall>i < length (ps_pats ps).
        if length (pat_lit (ps_pats ps ! i)) < 4 then i \<in> set (ps_always ps)
        else (key4 (pat_lit (ps_pats ps ! i)), i) \<in> set (zip (ps_keys ps) (ps_kidx ps)))"

lemma newPatternSet_wf [inv_intros]: "ps_wf (newPatternSet pats)"
  by (auto simp: ps_wf_def newPatternSet_def Let_def sorted_map_fst zip_map_fst_snd)

lemma newPatternSet_pats [simp]: "ps_pats (newPatternSet pats) = pats"
  by (simp add: newPatternSet_def Let_def)

lemma key4_take: "4 \<le> length l \<Longrightarrow> strings_HasPrefix s l \<Longrightarrow> key4 s = key4 l"
  by (auto simp: HasPrefix_iff prefix_def key4_def nth_append)

lemma Contains_offset:
  "strings_Contains s t \<Longrightarrow> \<exists>off. off + length t \<le> length s \<and> strings_HasPrefix (drop off s) t"
proof -
  assume "strings_Contains s t"
  then obtain u v where "s = u @ t @ v" by (auto simp: Contains_iff sublist_def)
  then show ?thesis
    by (intro exI [of _ "length u"]) (auto simp: HasPrefix_iff)
qed

section \<open>Soundness and completeness of the lookup\<close>

text \<open>What a hit means for a pattern of the set.\<close>

definition pat_applies ::
  "('re \<Rightarrow> string \<Rightarrow> bool) \<Rightarrow> string \<Rightarrow> int list \<Rightarrow> int list list \<Rightarrow> (nat \<Rightarrow> bool) option \<Rightarrow>
   're pattern \<Rightarrow> bool" where
  "pat_applies matches q groups srcGroups accept p \<longleftrightarrow>
     applies srcGroups (pat_src p) groups \<and> accepts accept (pat_src p) \<and> matches (pat_re p) q"

lemma probe_run_ex:
  "sorted ks \<Longrightarrow> j < length ks \<Longrightarrow> ks ! j = k \<Longrightarrow> ok j \<Longrightarrow> \<exists>j'. probe_run ks k ok = Some j'"
  by (simp add: probe_run_find flip: not_None_eq) (auto simp: find_None_all)

lemma probe_run_SomeD:
  "sorted ks \<Longrightarrow> probe_run ks k ok = Some j \<Longrightarrow> j < length ks \<and> ks ! j = k \<and> ok j"
  by (auto simp: probe_run_find dest!: find_SomeD)

lemma ps_lookup_SomeD:
  assumes "ps_wf ps" and "ps_lookup matches ps q groups srcGroups accept = Some i"
  shows "i < length (ps_pats ps) \<and> pat_applies matches q groups srcGroups accept (ps_pats ps ! i)"
proof -
  have sorted: "sorted (ps_keys ps)" and len: "length (ps_keys ps) = length (ps_kidx ps)"
    and al: "\<And>i. i \<in> set (ps_always ps) \<Longrightarrow> i < length (ps_pats ps)"
    and kx: "\<And>i. i \<in> set (ps_kidx ps) \<Longrightarrow> i < length (ps_pats ps)"
    using assms(1) by (auto simp: ps_wf_def)
  show ?thesis
    using assms(2) unfolding ps_lookup_def pat_applies_def
    by (auto simp: Let_def len split: if_splits option.splits
        dest!: find_SomeD first_some_SomeD probe_run_SomeD [OF sorted] intro: al kx)
qed

lemma ps_lookup_complete:
  assumes wf: "ps_wf ps" and i: "i < length (ps_pats ps)"
    and ok: "pat_applies matches q groups srcGroups accept (ps_pats ps ! i)"
    and lit: "strings_Contains q (pat_lit (ps_pats ps ! i))"
  shows "ps_lookup matches ps q groups srcGroups accept \<noteq> None"
proof (cases "length (pat_lit (ps_pats ps ! i)) < 4")
  case True
  then have "i \<in> set (ps_always ps)" using wf i by (auto simp: ps_wf_def)
  then show ?thesis
    using i ok lit unfolding ps_lookup_def pat_applies_def
    by (auto simp: Let_def find_None_all split: option.splits)
next
  case False
  let ?l = "pat_lit (ps_pats ps ! i)"
  obtain off where off: "off + length ?l \<le> length q" "strings_HasPrefix (drop off q) ?l"
    using Contains_offset [OF lit] by blast
  have "(key4 ?l, i) \<in> set (zip (ps_keys ps) (ps_kidx ps))"
    using wf i False by (simp add: ps_wf_def)
  then obtain j where j: "j < length (ps_keys ps)" "ps_keys ps ! j = key4 ?l" "ps_kidx ps ! j = i"
    by (auto simp: in_set_zip)
  define ok where "ok = (\<lambda>j. let p = ps_pats ps ! (ps_kidx ps ! j) in
     strings_HasPrefix (drop off q) (pat_lit p) \<and> applies srcGroups (pat_src p) groups \<and>
     accepts accept (pat_src p) \<and> matches (pat_re p) q)"
  have "ps_keys ps ! j = key4 (drop off q)" 
    using key4_take [of ?l "drop off q"] False off(2) j(2) by simp
  moreover have "ok j" using j(3) off(2) ok by (simp add: ok_def pat_applies_def)
  ultimately obtain j' where "probe_run (ps_keys ps) (key4 (drop off q)) ok = Some j'"
    using probe_run_ex [of "ps_keys ps" j "key4 (drop off q)" ok] wf j(1) unfolding ps_wf_def by blast
  moreover have "off \<in> set [0..<length q - 3]" using off(1) False by auto
  ultimately show ?thesis
    using i j(1) unfolding ps_lookup_def ok_def
    by (auto split: option.splits intro!: first_some_ex [where x = off and y = "ps_kidx ps ! j'"]
        simp del: set_upt)
qed

section \<open>Properties\<close>

text \<open>
  C23. The literal index is an optimisation only: if every match of a pattern contains its literal
  (which \<^verbatim>\<open>requiredLiteral\<close> guarantees), the indexed lookup finds a pattern exactly when one of
  the patterns matches the name, shares a group with the client and is admitted by the callback;
  and what it returns is such a pattern.
\<close>

theorem patternSet_lookup_exact:
  assumes literal: "\<And>p. p \<in> set pats \<Longrightarrow> matches (pat_re p) q \<Longrightarrow> strings_Contains q (pat_lit p)"
  shows "(case ps_lookup matches (newPatternSet pats) q groups srcGroups accept of
       None \<Rightarrow> \<forall>p \<in> set pats. \<not> pat_applies matches q groups srcGroups accept p
     | Some i \<Rightarrow> i < length pats \<and> pat_applies matches q groups srcGroups accept (pats ! i))"
proof (cases "ps_lookup matches (newPatternSet pats) q groups srcGroups accept")
  case None
  have "\<not> pat_applies matches q groups srcGroups accept (pats ! i)" if "i < length pats" for i
    using ps_lookup_complete [OF newPatternSet_wf [of pats], of i matches q groups srcGroups accept] that None
      literal [of "pats ! i"] by (auto simp: pat_applies_def)
  then show ?thesis using None by (auto simp: in_set_conv_nth)
next
  case (Some i)
  then show ?thesis using ps_lookup_SomeD [OF newPatternSet_wf [of pats] Some] by simp
qed

text \<open>The witness: two patterns matched as substrings, one below and one above four bytes.\<close>

theorem patternSet_lookup_exact_witness:
  "let pats = [\<lparr>pat_re = ''ad'', pat_lit = ''ad'', pat_src = 0\<rparr>, \<lparr>pat_re = ''track'', pat_lit = ''track'', pat_src = 1\<rparr>]
   in (case ps_lookup (\<lambda>re q. strings_Contains q re) (newPatternSet pats) ''a.tracker.x'' [1] [[1], [1]] None of
         None \<Rightarrow> \<forall>p \<in> set pats. \<not> pat_applies (\<lambda>re q. strings_Contains q re) ''a.tracker.x'' [1] [[1], [1]] None p
       | Some i \<Rightarrow> i < length pats \<and>
           pat_applies (\<lambda>re q. strings_Contains q re) ''a.tracker.x'' [1] [[1], [1]] None (pats ! i))"
  unfolding Let_def by (rule patternSet_lookup_exact) auto

end
