(* ===== verification/FilterEntries.thy ===== *)
theory FilterEntries
  imports PatternSets
begin

text \<open>
  The data that pass between the list parser (\<^verbatim>\<open>parse.go\<close>) and the matcher (\<^verbatim>\<open>matcher.go\<close>) of
  \<^verbatim>\<open>internal/dns/filter\<close>: precedence tiers, entries of a list line, rows of modified entries and
  the parse result of a list. Fixed-size Go arrays indexed by tier, kind or family are lists of
  that length.
\<close>

section \<open>Tiers and kinds\<close>

definition tierImpAllow :: nat where "tierImpAllow = 0"
definition tierImpBlock :: nat where "tierImpBlock = 1"
definition tierAllow :: nat where "tierAllow = 2"
definition tierBlock :: nat where "tierBlock = 3"
definition numTiers :: nat where "numTiers = 4"

definition ipTierAllow :: nat where "ipTierAllow = 0"
definition ipTierBlock :: nat where "ipTierBlock = 1"
definition numIPTiers :: nat where "numIPTiers = 2"

lemmas tier_defs = tierImpAllow_def tierImpBlock_def tierAllow_def tierBlock_def numTiers_def
  ipTierAllow_def ipTierBlock_def numIPTiers_def

datatype kind = kindExact | kindSubtree | kindPattern

fun kind_index :: "kind \<Rightarrow> nat" where
  "kind_index kindExact = 0" | "kind_index kindSubtree = 1" | "kind_index kindPattern = 2"

definition maxPatterns :: nat where "maxPatterns = 20000"
definition maxPatternCost :: int where "maxPatternCost = 1048576"
definition maxRegexCost :: int where "maxRegexCost = 4096"
definition maxRegexLen :: nat where "maxRegexLen = 1024"
definition maxModified :: nat where "maxModified = 20000"
definition maxModsPerName :: nat where "maxModsPerName = 8"
definition maxEntryTypes :: nat where "maxEntryTypes = 16"
definition maxDenyallow :: nat where "maxDenyallow = 32"
definition maxInverted :: nat where "maxInverted = 32"

lemmas limit_defs = maxPatterns_def maxPatternCost_def maxRegexCost_def maxRegexLen_def
  maxModified_def maxModsPerName_def maxEntryTypes_def maxDenyallow_def maxInverted_def

section \<open>Entries of a list line\<close>

record entry =
  e_kind :: kind
  e_allow :: bool
  e_important :: bool
  e_badfilter :: bool
  e_domain :: string
  e_re :: string
  e_lit :: string
  e_regex :: bool
  e_types :: typeSet
  e_deny :: "string list"

definition no_types :: typeSet where
  "no_types = \<lparr>ts_mask = 0, ts_high = [], ts_negate = False\<rparr>"

text \<open>The zero value of the struct.\<close>

definition no_entry :: entry where
  "no_entry = \<lparr>e_kind = kindExact, e_allow = False, e_important = False, e_badfilter = False,
     e_domain = [], e_re = [], e_lit = [], e_regex = False, e_types = no_types, e_deny = []\<rparr>"

definition e_modified :: "entry \<Rightarrow> bool" where
  "e_modified e \<longleftrightarrow> \<not> ts_empty (e_types e) \<or> length (e_deny e) > 0"

text \<open>
  The canonical text of a type set; \<open>QTypeName\<close> is the table of type names of the DNS library.
\<close>

definition ts_key :: "(u16 \<Rightarrow> string) \<Rightarrow> typeSet \<Rightarrow> string" where
  "ts_key QTypeName t =
     (if ts_empty t then []
      else let s = strings_Join ''|'' (map QTypeName (types_of t)) in
        if ts_negate t then ''~'' @ s else s)"

definition modKey :: "(u16 \<Rightarrow> string) \<Rightarrow> entry \<Rightarrow> string" where
  "modKey QTypeName e =
     (if \<not> e_modified e then []
      else ts_key QTypeName (e_types e) @ '';'' @ strings_Join ''|'' (e_deny e))"

definition e_tier :: "entry \<Rightarrow> bool \<Rightarrow> nat" where
  "e_tier e allowList =
     (let allow = e_allow e \<or> allowList in
      if e_important e \<and> allow then tierImpAllow
      else if e_important e then tierImpBlock
      else if allow then tierAllow
      else tierBlock)"

definition e_source :: "entry \<Rightarrow> string" where
  "e_source e = (if e_regex e then ''(?i)'' @ e_re e else e_re e)"

record badKey =
  bk_tier :: nat
  bk_kind :: kind
  bk_hash :: u64
  bk_re :: string
  bk_mods :: string

definition e_badKey :: "(u16 \<Rightarrow> string) \<Rightarrow> entry \<Rightarrow> nat \<Rightarrow> badKey" where
  "e_badKey QTypeName e tier =
     \<lparr>bk_tier = tier, bk_kind = e_kind e,
      bk_hash = (if e_kind e = kindPattern then 0 else hashName (e_domain e)),
      bk_re = (if e_kind e = kindPattern then e_source e else []),
      bk_mods = modKey QTypeName e\<rparr>"

section \<open>Rows of modified entries and parse results\<close>

record modRow =
  mr_hash :: u64
  mr_src :: nat
  mr_kind :: kind
  mr_types :: "typeSet option"
  mr_deny :: "u64 list"

record 're parsedPattern =
  pp_re :: 're
  pp_lit :: string
  pp_cost :: int
  pp_tier :: nat

record listFormat =
  lf_kind :: string
  lf_plain :: string
  lf_tldGuard :: bool
  lf_ips :: bool

text \<open>\<open>CategoryAbusedTLDs\<close> and \<open>FormatIPs\<close> of \<^verbatim>\<open>filter.go\<close> and \<^verbatim>\<open>catalog.go\<close>.\<close>

definition formatOf :: "string \<Rightarrow> string \<Rightarrow> string \<Rightarrow> string \<Rightarrow> listFormat" where
  "formatOf kind plain category format =
     \<lparr>lf_kind = kind, lf_plain = plain, lf_tldGuard = (category \<noteq> ''abused-tlds''), lf_ips = (format = ''ips'')\<rparr>"

record 're parsed =
  p_format :: listFormat
  p_sets :: "u64 list list list"
  p_mods :: "modRow list list"
  p_pats :: "'re parsedPattern list"
  p_ips :: "u64 list list list"
  p_ipBits :: "nat list list list"
  p_entries :: nat
  p_modified :: nat
  p_ipEntries :: nat
  p_invalid :: nat
  p_broad :: nat
  p_unsupported :: nat

definition new_parsed :: "listFormat \<Rightarrow> 're parsed" where
  "new_parsed f = \<lparr>p_format = f, p_sets = replicate numTiers [[], []], p_mods = replicate numTiers [],
     p_pats = [], p_ips = replicate numIPTiers [[], []], p_ipBits = replicate numIPTiers [[], []],
     p_entries = 0, p_modified = 0, p_ipEntries = 0, p_invalid = 0, p_broad = 0, p_unsupported = 0\<rparr>"

datatype lineStatus = lineSkip | lineOK | lineInvalid | lineUnsupported | lineBroad

text \<open>Appending to one cell of a two-dimensional array.\<close>

definition append_cell :: "nat \<Rightarrow> nat \<Rightarrow> 'a \<Rightarrow> 'a list list list \<Rightarrow> 'a list list list" where
  "append_cell t k x m = m[t := (m ! t)[k := m ! t ! k @ [x]]]"

lemma append_cell_length [simp]: "length (append_cell t k x m) = length m"
  by (simp add: append_cell_def)

lemma append_cell_inner [simp]: "length (append_cell t k x m ! t') = length (m ! t')"
  by (cases "t' = t"; cases "t < length m") (auto simp: append_cell_def list_update_beyond)

lemma append_cell_nth:
  "t < length m \<Longrightarrow> k < length (m ! t) \<Longrightarrow>
   append_cell t k x m ! t' ! k' = (if t' = t \<and> k' = k then m ! t ! k @ [x] else m ! t' ! k')"
  by (cases "t' = t"; cases "k' = k") (auto simp: append_cell_def)

text \<open>\<^verbatim>\<open>slices.Sort\<close> followed by \<^verbatim>\<open>slices.Compact\<close>.\<close>

definition sort_compact :: "'a::linorder list \<Rightarrow> 'a list" where
  "sort_compact xs = remdups_adj (sort xs)"

lemma sort_compact_sorted [simp]: "sorted (sort_compact xs)"
  by (simp add: sort_compact_def sorted_remdups_adj)

lemma set_sort_compact [simp]: "set (sort_compact xs) = set xs"
  by (simp add: sort_compact_def)

lemma distinct_remdups_adj_sorted: "sorted xs \<Longrightarrow> distinct (remdups_adj (xs :: 'a::linorder list))"
  by (induction xs rule: remdups_adj.induct) auto

lemma distinct_sort_compact [simp]: "distinct (sort_compact xs)"
  by (simp add: sort_compact_def distinct_remdups_adj_sorted)

end
