(* ===== verification/NetAddr.thy ===== *)
theory NetAddr
  imports Prelude
begin

text \<open>
  The part of Go's package \<^verbatim>\<open>net/netip\<close> that the code uses: addresses with their family and zone,
  and prefixes. The zero \<^verbatim>\<open>Addr\<close> is \<open>NoAddr\<close>; an invalid \<^verbatim>\<open>Prefix\<close> has \<open>-1\<close> bits.
\<close>

section \<open>Addresses\<close>

datatype addr = NoAddr | V4 u32 | V6 "128 word" string

fun Is4 :: "addr \<Rightarrow> bool" where
  "Is4 (V4 _) = True" | "Is4 _ = False"

fun Is6 :: "addr \<Rightarrow> bool" where
  "Is6 (V6 _ _) = True" | "Is6 _ = False"

definition addr_IsValid :: "addr \<Rightarrow> bool" where
  "addr_IsValid ip \<longleftrightarrow> ip \<noteq> NoAddr"

fun BitLen :: "addr \<Rightarrow> int" where
  "BitLen NoAddr = 0" | "BitLen (V4 _) = 32" | "BitLen (V6 _ _) = 128"

fun Zone :: "addr \<Rightarrow> string" where
  "Zone (V6 _ z) = z" | "Zone _ = []"

fun Is4In6 :: "addr \<Rightarrow> bool" where
  "Is4In6 (V6 a _) \<longleftrightarrow> drop_bit 32 a = 0xFFFF" | "Is4In6 _ = False"

definition Unmap :: "addr \<Rightarrow> addr" where
  "Unmap ip = (case ip of V6 a z \<Rightarrow> if Is4In6 ip then V4 (ucast a) else ip | _ \<Rightarrow> ip)"

fun WithZone :: "addr \<Rightarrow> string \<Rightarrow> addr" where
  "WithZone (V6 a _) z = V6 a z" | "WithZone ip _ = ip"

fun IsLoopback :: "addr \<Rightarrow> bool" where
  "IsLoopback (V4 a) \<longleftrightarrow> drop_bit 24 a = 127"
| "IsLoopback (V6 a z) \<longleftrightarrow> (if Is4In6 (V6 a z) then drop_bit 24 (ucast a :: u32) = 127 else a = 1)"
| "IsLoopback NoAddr = False"

fun IsLinkLocalUnicast :: "addr \<Rightarrow> bool" where
  "IsLinkLocalUnicast (V4 a) \<longleftrightarrow> drop_bit 16 a = 0xA9FE"
| "IsLinkLocalUnicast (V6 a z) \<longleftrightarrow>
     (if Is4In6 (V6 a z) then drop_bit 16 (ucast a :: u32) = 0xA9FE else drop_bit 118 a = 0x3FA)"
| "IsLinkLocalUnicast NoAddr = False"

fun IsUnspecified :: "addr \<Rightarrow> bool" where
  "IsUnspecified (V4 a) \<longleftrightarrow> a = 0"
| "IsUnspecified (V6 a z) \<longleftrightarrow> a = 0 \<and> z = []"
| "IsUnspecified NoAddr = False"

fun IsMulticast :: "addr \<Rightarrow> bool" where
  "IsMulticast (V4 a) \<longleftrightarrow> drop_bit 28 a = 0xE"
| "IsMulticast (V6 a z) \<longleftrightarrow> (if Is4In6 (V6 a z) then drop_bit 28 (ucast a :: u32) = 0xE else drop_bit 120 a = 0xFF)"
| "IsMulticast NoAddr = False"

text \<open>The order of \<^verbatim>\<open>Less\<close>: by bit length, then by value, then by zone (only IPv4 is compared here).\<close>

fun addr_Less4 :: "addr \<Rightarrow> addr \<Rightarrow> bool" where
  "addr_Less4 (V4 a) (V4 b) \<longleftrightarrow> a < b"
| "addr_Less4 a b \<longleftrightarrow> BitLen a < BitLen b"

text \<open>\<^verbatim>\<open>Next\<close>: the zero \<^verbatim>\<open>Addr\<close> after the last address of the family.\<close>

fun Next :: "addr \<Rightarrow> addr" where
  "Next (V4 a) = (if a + 1 = 0 then NoAddr else V4 (a + 1))"
| "Next (V6 a z) = (if a + 1 = 0 then NoAddr else V6 (a + 1) z)"
| "Next NoAddr = NoAddr"

section \<open>Prefixes\<close>

datatype pfx = Pfx (pfx_Addr: addr) (pfx_Bits: int)

definition PrefixFrom :: "addr \<Rightarrow> int \<Rightarrow> pfx" where
  "PrefixFrom ip bits =
     Pfx (WithZone ip []) (if ip \<noteq> NoAddr \<and> 0 \<le> bits \<and> bits \<le> BitLen ip then bits else -1)"

definition pfx_IsValid :: "pfx \<Rightarrow> bool" where
  "pfx_IsValid p \<longleftrightarrow> 0 \<le> pfx_Bits p"

definition no_pfx :: pfx where "no_pfx = Pfx NoAddr (-1)"

text \<open>The value with all but its first \<open>n\<close> bits cleared.\<close>

definition mask_top :: "nat \<Rightarrow> 'a::len word \<Rightarrow> 'a word" where
  "mask_top n w = push_bit (LENGTH('a) - n) (drop_bit (LENGTH('a) - n) w)"

text \<open>
  \<^verbatim>\<open>Addr.Prefix\<close>: the masked network of an address without its zone. Where the library returns an
  error the code ignores it and goes on with the zero \<^verbatim>\<open>Prefix\<close>.
\<close>

fun addr_Prefix :: "addr \<Rightarrow> int \<Rightarrow> pfx" where
  "addr_Prefix (V4 a) b = (if 0 \<le> b \<and> b \<le> 32 then Pfx (V4 (mask_top (nat b) a)) b else no_pfx)"
| "addr_Prefix (V6 a z) b = (if 0 \<le> b \<and> b \<le> 128 then Pfx (V6 (mask_top (nat b) a) []) b else no_pfx)"
| "addr_Prefix NoAddr b = no_pfx"

definition Masked :: "pfx \<Rightarrow> pfx" where
  "Masked p = (if pfx_IsValid p then addr_Prefix (pfx_Addr p) (pfx_Bits p) else no_pfx)"

definition IsSingleIP :: "pfx \<Rightarrow> bool" where
  "IsSingleIP p \<longleftrightarrow> pfx_IsValid p \<and> pfx_Bits p = BitLen (pfx_Addr p)"

fun same_net :: "nat \<Rightarrow> addr \<Rightarrow> addr \<Rightarrow> bool" where
  "same_net b (V4 a) (V4 c) \<longleftrightarrow> drop_bit (32 - b) a = drop_bit (32 - b) c"
| "same_net b (V6 a _) (V6 c _) \<longleftrightarrow> drop_bit (128 - b) a = drop_bit (128 - b) c"
| "same_net b _ _ = False"

definition Contains :: "pfx \<Rightarrow> addr \<Rightarrow> bool" where
  "Contains p ip \<longleftrightarrow> pfx_IsValid p \<and> Zone ip = [] \<and> same_net (nat (pfx_Bits p)) (pfx_Addr p) ip"

definition Overlaps :: "pfx \<Rightarrow> pfx \<Rightarrow> bool" where
  "Overlaps p q =
     (if \<not> pfx_IsValid p \<or> \<not> pfx_IsValid q then False
      else if p = q then True
      else if Is4 (pfx_Addr p) \<noteq> Is4 (pfx_Addr q) then False
      else let minBits = min (pfx_Bits p) (pfx_Bits q) in
        if minBits = 0 then True
        else addr_Prefix (pfx_Addr p) minBits \<noteq> no_pfx \<and> addr_Prefix (pfx_Addr q) minBits \<noteq> no_pfx \<and>
          pfx_Addr (addr_Prefix (pfx_Addr p) minBits) = pfx_Addr (addr_Prefix (pfx_Addr q) minBits))"

section \<open>Laws of masks and networks\<close>

lemma drop_bit_mono_eq:
  "n \<le> m \<Longrightarrow> drop_bit n (a :: 'a::len word) = drop_bit n c \<Longrightarrow> drop_bit m a = drop_bit m c"
  by (metis drop_bit_drop_bit le_add_diff_inverse2)

lemma mask_top_eq_iff: "mask_top n a = mask_top n c \<longleftrightarrow> drop_bit (LENGTH('a) - n) a = drop_bit (LENGTH('a) - n) (c :: 'a::len word)"
proof -
  have "drop_bit k (push_bit k (drop_bit k w)) = drop_bit k w" for k and w :: "'a word"
    by (rule bit_word_eqI) (auto simp: bit_simps dest: bit_imp_le_length)
  then show ?thesis by (metis mask_top_def)
qed

lemma drop_mask_top: "drop_bit (LENGTH('a) - n) (mask_top n w) = drop_bit (LENGTH('a) - n) (w :: 'a::len word)"
  unfolding mask_top_def by (rule bit_word_eqI) (auto simp: bit_simps dest: bit_imp_le_length)

lemma mask_top_idem [simp]: "mask_top n (mask_top n w) = mask_top n w"
  using drop_mask_top [of n w] by (simp add: mask_top_def)

lemma mask_top_full [simp]: "LENGTH('a) \<le> n \<Longrightarrow> mask_top n (w :: 'a::len word) = w"
  by (simp add: mask_top_def)

lemma same_net_refl_iff [simp]: "same_net b ip ip \<longleftrightarrow> ip \<noteq> NoAddr"
  by (cases ip) auto

lemma same_net_sym: "same_net b x y \<Longrightarrow> same_net b y x"
  by (cases x; cases y) auto

lemma same_net_trans: "same_net b x y \<Longrightarrow> same_net b y z \<Longrightarrow> same_net b x z"
  by (cases x; cases y; cases z) auto

lemma same_net_mono: "b' \<le> b \<Longrightarrow> same_net b x y \<Longrightarrow> same_net b' x y"
  by (cases x; cases y) (auto elim!: drop_bit_mono_eq [rotated])

lemma same_net_family: "same_net b x y \<Longrightarrow> Is4 x = Is4 y \<and> Is6 x = Is6 y"
  by (cases x; cases y) auto

lemma Contains_trans:
  "pfx_Bits q \<le> pfx_Bits p \<Longrightarrow> Contains q (pfx_Addr p) \<Longrightarrow> Contains p ip \<Longrightarrow> Contains q ip"
  unfolding Contains_def by (meson nat_mono same_net_mono same_net_trans)

lemma Contains_PrefixFrom:
  "Contains (PrefixFrom ip b) x \<longleftrightarrow> ip \<noteq> NoAddr \<and> 0 \<le> b \<and> b \<le> BitLen ip \<and> Zone x = [] \<and> same_net (nat b) ip x"
  by (cases ip; cases x) (auto simp: Contains_def PrefixFrom_def pfx_IsValid_def)

lemma Contains_addr_Prefix:
  "0 \<le> b \<Longrightarrow> b \<le> BitLen ip \<Longrightarrow> Contains (addr_Prefix ip b) x \<longleftrightarrow> Zone x = [] \<and> same_net (nat b) ip x"
  using drop_mask_top [where 'a = 32] drop_mask_top [where 'a = 128]
  by (cases ip; cases x) (auto simp: Contains_def pfx_IsValid_def no_pfx_def)

text \<open>Two valid prefixes of a family overlap iff they have an address in common.\<close>

lemma same_net_addr_Prefix:
  "0 \<le> b \<Longrightarrow> b \<le> BitLen x \<Longrightarrow> b \<le> BitLen y \<Longrightarrow> Zone x = [] \<Longrightarrow> Zone y = [] \<Longrightarrow> x \<noteq> NoAddr \<Longrightarrow> y \<noteq> NoAddr \<Longrightarrow>
   pfx_Addr (addr_Prefix x b) = pfx_Addr (addr_Prefix y b) \<longleftrightarrow> same_net (nat b) x y"
  by (cases x; cases y) (auto simp: mask_top_eq_iff)

definition pfx_wf :: "pfx \<Rightarrow> bool" where
  "pfx_wf p \<longleftrightarrow> pfx_Addr p \<noteq> NoAddr \<and> Zone (pfx_Addr p) = [] \<and> 0 \<le> pfx_Bits p \<and> pfx_Bits p \<le> BitLen (pfx_Addr p)"

lemma not_Overlaps_disjoint:
  assumes "pfx_wf p" and "pfx_wf q" and "\<not> Overlaps p q" and "Contains p ip"
  shows "\<not> Contains q ip"
proof
  assume "Contains q ip"
  let ?m = "min (pfx_Bits p) (pfx_Bits q)"
  have net: "same_net (nat (pfx_Bits p)) (pfx_Addr p) ip" "same_net (nat (pfx_Bits q)) (pfx_Addr q) ip"
    using assms(4) \<open>Contains q ip\<close> by (simp_all add: Contains_def)
  then have common: "same_net (nat ?m) (pfx_Addr p) (pfx_Addr q)"
    by (meson min.cobounded1 min.cobounded2 nat_mono same_net_mono same_net_sym same_net_trans)
  have fam: "Is4 (pfx_Addr p) = Is4 (pfx_Addr q)" "Is6 (pfx_Addr p) = Is6 (pfx_Addr q)"
    using same_net_family [OF common] by auto
  then have "BitLen (pfx_Addr p) = BitLen (pfx_Addr q)"
    by (cases "pfx_Addr p"; cases "pfx_Addr q") auto
  then have b: "0 \<le> ?m" "?m \<le> BitLen (pfx_Addr p)" "?m \<le> BitLen (pfx_Addr q)"
    using assms(1,2) by (auto simp: pfx_wf_def)
  have "addr_Prefix (pfx_Addr p) ?m \<noteq> no_pfx" and "addr_Prefix (pfx_Addr q) ?m \<noteq> no_pfx"
    using b assms(1,2) by (cases "pfx_Addr p"; cases "pfx_Addr q"; auto simp: no_pfx_def pfx_wf_def)+
  moreover have "pfx_Addr (addr_Prefix (pfx_Addr p) ?m) = pfx_Addr (addr_Prefix (pfx_Addr q) ?m)"
    using same_net_addr_Prefix [OF b] common assms(1,2) by (simp add: pfx_wf_def)
  ultimately have "Overlaps p q"
    using assms(1,2) fam by (simp add: Overlaps_def pfx_IsValid_def pfx_wf_def Let_def)
  with assms(3) show False by simp
qed

lemma Is4In6_Unmap: "Is4In6 ip \<Longrightarrow> Is4 (Unmap ip)"
  by (cases ip) (auto simp: Unmap_def)

lemma Unmap_Is4 [simp]: "Is4 ip \<Longrightarrow> Unmap ip = ip"
  by (cases ip) (auto simp: Unmap_def)

lemma not_Is4In6_Unmap [simp]: "\<not> Is4In6 (Unmap ip)"
  by (cases ip) (auto simp: Unmap_def)

end
