(* ===== verification/NetUtil.thy ===== *)
theory NetUtil
  imports NetAddr GoStrings
begin

text \<open>
  \<^verbatim>\<open>internal/netutil\<close>: classification of addresses (\<^verbatim>\<open>ip.go\<close>), the networks this machine is
  connected to (\<^verbatim>\<open>ip.go\<close>, \<^verbatim>\<open>hostaddr.go\<close>), the client ACLs (\<^verbatim>\<open>acl.go\<close>, \<^verbatim>\<open>webaccess.go\<close>) and the
  SSRF guard of outgoing connections (\<^verbatim>\<open>dialer.go\<close>). What the kernel reports about the
  interfaces is an argument of the definitions that read it.
\<close>

section \<open>Prefix tables\<close>

definition PrivateLANPrefixes :: "pfx list" where
  "PrivateLANPrefixes =
     [Pfx (V4 0x7F000000) 8, Pfx (V6 1 []) 128,
      Pfx (V4 0x0A000000) 8, Pfx (V4 0xAC100000) 12, Pfx (V4 0xC0A80000) 16,
      Pfx (V4 0x64400000) 10,
      Pfx (V4 0xA9FE0000) 16,
      Pfx (V6 0xFC000000000000000000000000000000 []) 7,
      Pfx (V6 0xFE800000000000000000000000000000 []) 10]"

definition nonPublicPrefixes :: "pfx list" where
  "nonPublicPrefixes =
     [Pfx (V4 0) 8, Pfx (V4 0x0A000000) 8, Pfx (V4 0x64400000) 10, Pfx (V4 0x7F000000) 8, Pfx (V4 0xA9FE0000) 16,
      Pfx (V4 0xAC100000) 12, Pfx (V4 0xC0000000) 24, Pfx (V4 0xC0000200) 24, Pfx (V4 0xC0586300) 24,
      Pfx (V4 0xC0A80000) 16,
      Pfx (V4 0xC6120000) 15, Pfx (V4 0xC6336400) 24, Pfx (V4 0xCB007100) 24, Pfx (V4 0xE0000000) 4,
      Pfx (V4 0xF0000000) 4, Pfx (V4 0xFFFFFFFF) 32,
      Pfx (V6 0 []) 128, Pfx (V6 1 []) 128, Pfx (V6 0xFFFF00000000 []) 96,
      Pfx (V6 0x0064FF9B000100000000000000000000 []) 48, Pfx (V6 0x01000000000000000000000000000000 []) 64,
      Pfx (V6 0x20010000000000000000000000000000 []) 23,
      Pfx (V6 0x20010DB8000000000000000000000000 []) 32, Pfx (V6 0xFC000000000000000000000000000000 []) 7,
      Pfx (V6 0xFE800000000000000000000000000000 []) 10, Pfx (V6 0xFEC00000000000000000000000000000 []) 10,
      Pfx (V6 0xFF000000000000000000000000000000 []) 8]"

definition nat64WKP :: pfx where "nat64WKP = Pfx (V6 0x0064FF9B000000000000000000000000 []) 96"
definition sixToFour :: pfx where "sixToFour = Pfx (V6 0x20020000000000000000000000000000 []) 16"
definition v4Compatible :: pfx where "v4Compatible = Pfx (V6 0 []) 96"

definition alwaysForbidden :: "pfx list" where
  "alwaysForbidden =
     [Pfx (V4 0xA9FE0000) 16, Pfx (V6 0xFE800000000000000000000000000000 []) 10, Pfx (V4 0) 8,
      Pfx (V4 0xE0000000) 4, Pfx (V6 0xFF000000000000000000000000000000 []) 8]"

definition rfc1918 :: "pfx list" where
  "rfc1918 = [Pfx (V4 0x0A000000) 8, Pfx (V4 0xAC100000) 12, Pfx (V4 0xC0A80000) 16]"

definition ula :: "pfx list" where "ula = [Pfx (V6 0xFC000000000000000000000000000000 []) 7]"

definition cgnatV4 :: "pfx list" where "cgnatV4 = [Pfx (V4 0x64400000) 10]"

definition rebindV4 :: "pfx list" where
  "rebindV4 =
     [Pfx (V4 0) 8, Pfx (V4 0x0A000000) 8, Pfx (V4 0x64400000) 10, Pfx (V4 0x7F000000) 8, Pfx (V4 0xA9FE0000) 16,
      Pfx (V4 0xAC100000) 12, Pfx (V4 0xC0A80000) 16]"

definition rebindV6 :: "pfx list" where
  "rebindV6 =
     [Pfx (V6 0 []) 128, Pfx (V6 1 []) 128, Pfx (V6 0xFC000000000000000000000000000000 []) 7,
      Pfx (V6 0xFE800000000000000000000000000000 []) 10,
      Pfx (V6 0x0064FF9B000100000000000000000000 []) 48]"

lemmas prefix_tables = PrivateLANPrefixes_def nonPublicPrefixes_def nat64WKP_def sixToFour_def
  v4Compatible_def alwaysForbidden_def rfc1918_def ula_def cgnatV4_def rebindV4_def rebindV6_def

section \<open>Classification of addresses\<close>

definition Canon :: "addr \<Rightarrow> addr" where
  "Canon ip = WithZone (Unmap ip) []"

definition inAny :: "addr \<Rightarrow> pfx list \<Rightarrow> bool" where
  "inAny ip ps \<longleftrightarrow> list_ex (\<lambda>p. Contains p (Canon ip)) ps"

definition EmbeddedIPv4 :: "addr \<Rightarrow> addr option" where
  "EmbeddedIPv4 ip0 = (let ip = Canon ip0 in
     case ip of
       V6 b _ \<Rightarrow>
         if Contains nat64WKP ip \<or> Contains v4Compatible ip then Some (V4 (ucast b))
         else if Contains sixToFour ip then Some (V4 (ucast (drop_bit 80 b)))
         else None
     | _ \<Rightarrow> None)"

lemma EmbeddedIPv4_V4: "EmbeddedIPv4 ip = Some v \<Longrightarrow> \<exists>a. v = V4 a"
  by (auto simp: EmbeddedIPv4_def Let_def split: addr.splits if_splits)

lemma Canon_V4 [simp]: "Canon (V4 a) = V4 a"
  by (simp add: Canon_def Unmap_def)

lemma EmbeddedIPv4_of_V4 [simp]: "EmbeddedIPv4 (V4 a) = None"
  by (simp add: EmbeddedIPv4_def)

function IsPublicUnicast :: "addr \<Rightarrow> bool" where
  "IsPublicUnicast ip0 = (let ip = Canon ip0 in
     if \<not> addr_IsValid ip \<or> inAny ip nonPublicPrefixes then False
     else case EmbeddedIPv4 ip of Some v4 \<Rightarrow> IsPublicUnicast v4 | None \<Rightarrow> True)"
  by pat_completeness auto
termination
proof (relation "measure (\<lambda>ip. if Is4 ip then 0 else 1)")
  fix ip0 ip v4
  assume "ip = Canon ip0" and "EmbeddedIPv4 ip = Some v4"
  then show "(v4, ip0) \<in> measure (\<lambda>ip. if Is4 ip then 0 else 1)"
    using EmbeddedIPv4_V4 by (cases ip0) fastforce+
qed simp

declare IsPublicUnicast.simps [simp del]

definition IsPrivateLAN :: "addr \<Rightarrow> bool" where "IsPrivateLAN ip = inAny ip PrivateLANPrefixes"
definition IsRFC1918 :: "addr \<Rightarrow> bool" where "IsRFC1918 ip = inAny ip rfc1918"
definition IsULA :: "addr \<Rightarrow> bool" where "IsULA ip = inAny ip ula"
definition IsValidCacheIP :: "addr \<Rightarrow> bool" where "IsValidCacheIP ip \<longleftrightarrow> IsRFC1918 ip \<or> IsULA ip"

text \<open>
  The keys clients are limited by. The cached directly connected subnets (\<^verbatim>\<open>onLinkV4Cache\<close>,
  \<^verbatim>\<open>onLinkV6Cache\<close>) are the arguments \<open>on4\<close> and \<open>on6\<close>.
\<close>

definition ClientKey :: "pfx list \<Rightarrow> addr \<Rightarrow> pfx" where
  "ClientKey on6 ip0 = (let ip = Canon ip0 in
     if Is4 ip then PrefixFrom ip 32
     else if IsLoopback ip \<or> IsLinkLocalUnicast ip \<or> IsULA ip \<or> inAny ip on6 then PrefixFrom ip 128
     else addr_Prefix ip 64)"

definition RateKey :: "pfx list \<Rightarrow> pfx list \<Rightarrow> addr \<Rightarrow> int \<Rightarrow> int \<Rightarrow> pfx" where
  "RateKey on4 on6 ip0 v4Bits v6Bits = (let ip = Canon ip0 in
     if Is4 ip then
       if v4Bits \<le> 0 \<or> v4Bits \<ge> 32 \<or> IsLoopback ip \<or> IsRFC1918 ip \<or> inAny ip cgnatV4 \<or>
          IsLinkLocalUnicast ip \<or> inAny ip on4
       then PrefixFrom ip 32
       else addr_Prefix ip v4Bits
     else if IsLoopback ip \<or> IsLinkLocalUnicast ip \<or> IsULA ip \<or> inAny ip on6 then PrefixFrom ip 128
     else addr_Prefix ip (if v6Bits \<le> 0 \<or> v6Bits > 128 then 64 else v6Bits))"

definition RebindTarget :: "addr \<Rightarrow> pfx \<Rightarrow> bool" where
  "RebindTarget ip0 dns64Prefix = (let ip = Canon ip0 in
     if Is4 ip then inAny ip rebindV4
     else if inAny ip rebindV6 then True
     else if (case EmbeddedIPv4 ip of Some v4 \<Rightarrow> inAny v4 rebindV4 | None \<Rightarrow> False) then True
     else if pfx_IsValid dns64Prefix \<and> pfx_Bits dns64Prefix = 96 \<and> Is6 (pfx_Addr dns64Prefix) \<and>
             Contains dns64Prefix ip
     then (case ip of V6 b _ \<Rightarrow> inAny (V4 (ucast b)) rebindV4 | _ \<Rightarrow> False)
     else False)"

definition LinkLocalZone :: "addr \<Rightarrow> string" where
  "LinkLocalZone ip = (if Is6 ip \<and> \<not> Is4In6 ip \<and> IsLinkLocalUnicast ip then Zone ip else [])"

section \<open>The networks of this machine\<close>

text \<open>
  What \<^verbatim>\<open>net.InterfaceAddrs\<close> lists: networks with the result of \<^verbatim>\<open>netip.AddrFromSlice\<close> on their
  address and the two results of \<^verbatim>\<open>Mask.Size\<close>, and addresses of other types.
\<close>

datatype net_addr = IPNet "addr option" int int | OtherNetAddr

fun interfacePrefix :: "net_addr \<Rightarrow> pfx option" where
  "interfacePrefix (IPNet (Some a) ones0 bits) = (let ip = Canon a;
     ones = (if Is4 ip \<and> bits = 128 then ones0 - 96 else ones0) in
     if ones < 0 \<or> ones > BitLen ip then None else Some (Masked (PrefixFrom ip ones)))"
| "interfacePrefix (IPNet None _ _) = None"
| "interfacePrefix OtherNetAddr = None"

definition interfacePrefixes :: "net_addr list option \<Rightarrow> pfx list" where
  "interfacePrefixes ifaddrs = (case ifaddrs of None \<Rightarrow> [] | Some as \<Rightarrow> List.map_filter interfacePrefix as)"

definition connectedV4Subnets :: "net_addr list option \<Rightarrow> pfx list" where
  "connectedV4Subnets ifaddrs =
     filter (\<lambda>p. Is4 (pfx_Addr p) \<and> pfx_Bits p \<ge> 8 \<and> \<not> IsLoopback (pfx_Addr p)) (interfacePrefixes ifaddrs)"

definition connectedV6Subnets :: "net_addr list option \<Rightarrow> pfx list" where
  "connectedV6Subnets ifaddrs =
     filter (\<lambda>p. Is6 (pfx_Addr p) \<and> pfx_Bits p \<ge> 48 \<and> \<not> IsLinkLocalUnicast (pfx_Addr p) \<and>
       \<not> IsLoopback (pfx_Addr p)) (interfacePrefixes ifaddrs)"

definition LocalAddrs :: "net_addr list option \<Rightarrow> addr list" where
  "LocalAddrs ifaddrs = (case ifaddrs of None \<Rightarrow> []
     | Some as \<Rightarrow> List.map_filter (\<lambda>a. case a of IPNet (Some ip) _ _ \<Rightarrow> Some (Canon ip) | _ \<Rightarrow> None) as)"

definition prefixWithin :: "pfx \<Rightarrow> pfx list \<Rightarrow> bool" where
  "prefixWithin p ps \<longleftrightarrow> list_ex (\<lambda>q. pfx_Bits q \<le> pfx_Bits p \<and> Contains q (pfx_Addr p)) ps"

definition privateSubnets :: "pfx list \<Rightarrow> pfx list" where
  "privateSubnets ps =
     filter (\<lambda>p. pfx_Bits p \<ge> (if Is6 (pfx_Addr p) then 48 else 8) \<and> prefixWithin p PrivateLANPrefixes) ps"

definition LocalSubnets :: "net_addr list option \<Rightarrow> pfx list" where
  "LocalSubnets ifaddrs = privateSubnets (interfacePrefixes ifaddrs)"

record HostAddr =
  ha_Iface :: string
  ha_Prefix :: pfx
  ha_Up :: bool
  ha_Loopback :: bool

definition virtualIfacePrefixes :: "string list" where
  "virtualIfacePrefixes = [''docker'', ''br-'', ''veth'', ''virbr'', ''cni'', ''podman'', ''flannel'', ''cali'',
     ''vnet'', ''lxcbr'', ''lxdbr'', ''tun'', ''tap'', ''wg'', ''zt'']"

definition VirtualInterface :: "string \<Rightarrow> bool" where
  "VirtualInterface name \<longleftrightarrow> list_ex (\<lambda>p. strings_HasPrefix name p) virtualIfacePrefixes"

definition ConnectedPrefix :: "pfx \<Rightarrow> pfx option" where
  "ConnectedPrefix p = (let a = Canon (pfx_Addr p) in
     if \<not> pfx_IsValid p \<or> \<not> addr_IsValid a \<or> IsLoopback a \<or> IsMulticast a \<or> IsUnspecified a then None
     else if pfx_Bits p < (if Is6 a then 48 else 8) then None
     else Some (Masked (PrefixFrom a (pfx_Bits p))))"

definition connectedSubnets :: "HostAddr list \<Rightarrow> pfx list" where
  "connectedSubnets addrs = foldl (\<lambda>out a.
     if \<not> ha_Up a \<or> ha_Loopback a \<or> VirtualInterface (ha_Iface a) then out
     else case ConnectedPrefix (ha_Prefix a) of
       None \<Rightarrow> out
     | Some p \<Rightarrow> if p \<in> set out then out else out @ [p]) [] addrs"

section \<open>Access control lists\<close>

record ACL =
  acl_allowAll :: bool
  acl_prefixes :: "pfx list"

definition NewACL :: "net_addr list option \<Rightarrow> HostAddr list \<Rightarrow> pfx list \<Rightarrow> bool \<Rightarrow> bool \<Rightarrow> ACL" where
  "NewACL ifaddrs hostAddrs extra allowAll trustConnected =
     \<lparr>acl_allowAll = allowAll,
      acl_prefixes = PrivateLANPrefixes @ LocalSubnets ifaddrs @
        (if trustConnected \<and> \<not> allowAll then connectedSubnets hostAddrs else []) @ extra\<rparr>"

definition Allowed :: "ACL option \<Rightarrow> addr \<Rightarrow> bool" where
  "Allowed acl ip = (case acl of None \<Rightarrow> False | Some a \<Rightarrow> acl_allowAll a \<or> inAny ip (acl_prefixes a))"

record WebACL =
  wa_restrict :: bool
  wa_own :: "addr list"
  wa_allowed :: "pfx list"
  wa_proxies :: "pfx list"

text \<open>
  The settings enter as \<^verbatim>\<open>web.restrictToNetworks\<close> and the parsed prefixes of
  \<^verbatim>\<open>dns.allowedNetworks\<close>, \<^verbatim>\<open>web.allowedNetworks\<close> and \<^verbatim>\<open>web.trustedProxies\<close>.
\<close>

definition webACL_own :: "addr list \<Rightarrow> addr list" where
  "webACL_own own = foldl (\<lambda>acc ip0. let ip = Canon ip0 in
     if addr_IsValid ip \<and> ip \<notin> set acc then acc @ [ip] else acc) [] own"

definition newWebACL :: "bool \<Rightarrow> pfx list \<Rightarrow> pfx list \<Rightarrow> pfx list \<Rightarrow> addr list \<Rightarrow> pfx list \<Rightarrow> WebACL" where
  "newWebACL restrict dnsAllowed webAllowed proxies own connected =
     \<lparr>wa_restrict = restrict,
      wa_own = webACL_own own,
      wa_allowed = (if restrict then PrivateLANPrefixes @ connected @ dnsAllowed @ webAllowed @ proxies else []),
      wa_proxies = proxies\<rparr>"

definition WebAllowed :: "WebACL option \<Rightarrow> addr \<Rightarrow> bool" where
  "WebAllowed acl ip0 = (case acl of None \<Rightarrow> False | Some a \<Rightarrow>
     if \<not> wa_restrict a then True
     else let ip = Canon ip0 in
       if \<not> addr_IsValid ip then False
       else IsLoopback ip \<or> ip \<in> set (wa_own a) \<or> inAny ip (wa_allowed a))"

definition TrustedProxy :: "WebACL option \<Rightarrow> addr \<Rightarrow> bool" where
  "TrustedProxy acl ip = (case acl of None \<Rightarrow> False | Some a \<Rightarrow> inAny ip (wa_proxies a))"

section \<open>The SSRF guard of outgoing connections\<close>

datatype dial_error = ErrForbiddenDestination | ErrOwnDestination

text \<open>
  The dialer's \<^verbatim>\<open>AllowPrivate\<close> (nil is \<open>None\<close>) as a function of the context, of which the code
  reads the mark set by \<^verbatim>\<open>WithAllowPrivate\<close>, and \<^verbatim>\<open>OwnAddrs\<close>.
\<close>

record 'c SafeDialer =
  sd_AllowPrivate :: "('c \<Rightarrow> bool) option"
  sd_OwnAddrs :: "addr list option"

definition sd_self :: "addr list \<Rightarrow> addr \<Rightarrow> bool" where
  "sd_self mine ip \<longleftrightarrow> IsLoopback ip \<or> ip \<in> set mine"

definition sd_forbidden :: "addr list \<Rightarrow> addr \<Rightarrow> bool" where
  "sd_forbidden mine ip \<longleftrightarrow> \<not> addr_IsValid ip \<or> IsUnspecified ip \<or> sd_self mine ip \<or> inAny ip alwaysForbidden"

fun Filter_loop :: "addr list \<Rightarrow> bool \<Rightarrow> addr list \<Rightarrow> addr list \<Rightarrow> bool \<Rightarrow> addr list \<times> bool" where
  "Filter_loop mine allowPrivate [] out onlySelf = (out, onlySelf)"
| "Filter_loop mine allowPrivate (ip0 # addrs) out onlySelf =
     (let ip = Canon ip0;
          v4 = EmbeddedIPv4 ip;
          onlySelf' = (if \<not> sd_self mine ip \<and> \<not> (case v4 of Some a \<Rightarrow> sd_self mine a | None \<Rightarrow> False)
                       then False else onlySelf) in
      if sd_forbidden mine ip \<or> (case v4 of Some a \<Rightarrow> sd_forbidden mine a | None \<Rightarrow> False)
      then Filter_loop mine allowPrivate addrs out onlySelf'
      else if \<not> allowPrivate \<and> \<not> IsPublicUnicast ip
      then Filter_loop mine allowPrivate addrs out onlySelf'
      else Filter_loop mine allowPrivate addrs (out @ [ip]) onlySelf')"

definition sd_allowPrivate :: "('c \<Rightarrow> bool) \<Rightarrow> 'c SafeDialer \<Rightarrow> 'c \<Rightarrow> bool" where
  "sd_allowPrivate privateAllowedByCtx d ctx =
     (case sd_AllowPrivate d of Some f \<Rightarrow> f ctx | None \<Rightarrow> privateAllowedByCtx ctx)"

definition Filter ::
  "('c \<Rightarrow> bool) \<Rightarrow> net_addr list option \<Rightarrow> 'c SafeDialer \<Rightarrow> 'c \<Rightarrow> addr list \<Rightarrow> dial_error + addr list" where
  "Filter privateAllowedByCtx ifaddrs d ctx addrs =
     (let mine = (case sd_OwnAddrs d of Some own \<Rightarrow> own | None \<Rightarrow> LocalAddrs ifaddrs);
          (out, onlySelf) = Filter_loop mine (sd_allowPrivate privateAllowedByCtx d ctx) addrs [] (addrs \<noteq> []) in
      if out \<noteq> [] then Inr out
      else if onlySelf then Inl ErrOwnDestination
      else Inl ErrForbiddenDestination)"

section \<open>Laws of the classification\<close>

lemma Canon_idem [simp]: "Canon (Canon ip) = Canon ip"
  by (cases ip) (auto simp: Canon_def Unmap_def)

lemma Zone_Canon [simp]: "Zone (Canon ip) = []"
  by (cases ip) (auto simp: Canon_def Unmap_def)

lemma Canon_NoAddr_iff [simp]: "Canon ip = NoAddr \<longleftrightarrow> ip = NoAddr"
  by (cases ip) (auto simp: Canon_def Unmap_def)

lemma Canon_NoAddr [simp]: "Canon NoAddr = NoAddr"
  by (simp add: Canon_def Unmap_def)

lemma inAny_NoAddr [simp]: "\<not> inAny NoAddr ps"
  by (auto simp: inAny_def list_ex_iff Contains_def)

lemma inAny_Canon [simp]: "inAny (Canon ip) ps = inAny ip ps"
  by (simp add: inAny_def)

lemma inAny_append [simp]: "inAny ip (ps @ qs) \<longleftrightarrow> inAny ip ps \<or> inAny ip qs"
  by (simp add: inAny_def)

lemma inAny_Nil [simp]: "\<not> inAny ip []"
  by (simp add: inAny_def)

lemma inAny_iff: "inAny ip ps \<longleftrightarrow> (\<exists>p \<in> set ps. Contains p (Canon ip))"
  by (auto simp: inAny_def list_ex_iff)

lemma EmbeddedIPv4_Canon [simp]: "EmbeddedIPv4 (Canon ip) = EmbeddedIPv4 ip"
  by (simp add: EmbeddedIPv4_def)

text \<open>A prefix that passes \<open>prefixWithin\<close> adds no address to the list it lies in.\<close>

lemma prefixWithin_sound: "prefixWithin p ps \<Longrightarrow> Contains p ip \<Longrightarrow> \<exists>q \<in> set ps. Contains q ip"
  by (auto simp: prefixWithin_def list_ex_iff intro: Contains_trans)

lemma inAny_within: "list_all (\<lambda>p. prefixWithin p qs) ps \<Longrightarrow> inAny ip ps \<Longrightarrow> inAny ip qs"
  by (auto simp: inAny_iff list_all_iff dest: prefixWithin_sound)

lemma private_within_nonPublic: "list_all (\<lambda>p. prefixWithin p nonPublicPrefixes) PrivateLANPrefixes"
  by code_simp

lemma private_within_rebind: "list_all (\<lambda>p. prefixWithin p (rebindV4 @ rebindV6)) PrivateLANPrefixes"
  by code_simp

lemma forbidden_within_nonPublic: "list_all (\<lambda>p. prefixWithin p nonPublicPrefixes) alwaysForbidden"
  by code_simp

lemma inAny_LocalSubnets: "inAny ip (LocalSubnets ifaddrs) \<Longrightarrow> IsPrivateLAN ip"
  unfolding IsPrivateLAN_def
  by (erule inAny_within [rotated]) (auto simp: LocalSubnets_def privateSubnets_def list_all_iff)

lemma public_not_private: "IsPublicUnicast ip \<Longrightarrow> ip \<noteq> NoAddr \<and> \<not> inAny ip nonPublicPrefixes"
  by (subst (asm) IsPublicUnicast.simps) (auto simp: Let_def addr_IsValid_def split: if_splits)

lemma public_embedded: "IsPublicUnicast ip \<Longrightarrow> EmbeddedIPv4 ip = Some v4 \<Longrightarrow> IsPublicUnicast v4"
  by (subst (asm) IsPublicUnicast.simps) (auto simp: Let_def split: if_splits)

lemma public_not_LAN: "IsPublicUnicast ip \<Longrightarrow> \<not> IsPrivateLAN ip"
  using public_not_private inAny_within [OF private_within_nonPublic] by (auto simp: IsPrivateLAN_def)

section \<open>The guard of outgoing connections\<close>

definition dialable :: "addr list \<Rightarrow> bool \<Rightarrow> addr \<Rightarrow> bool" where
  "dialable mine allowPrivate ip \<longleftrightarrow>
     \<not> sd_forbidden mine ip \<and> (\<forall>v4. EmbeddedIPv4 ip = Some v4 \<longrightarrow> \<not> sd_forbidden mine v4) \<and>
     (\<not> allowPrivate \<longrightarrow> IsPublicUnicast ip)"

lemma Filter_loop_out:
  "fst (Filter_loop mine allowPrivate addrs out onlySelf) = out @ filter (dialable mine allowPrivate) (map Canon addrs)"
proof (induction addrs arbitrary: out onlySelf)
  case (Cons ip addrs)
  then show ?case by (cases "EmbeddedIPv4 ip") (auto simp: Let_def dialable_def)
qed simp

definition reaches_self :: "addr list \<Rightarrow> addr \<Rightarrow> bool" where
  "reaches_self mine ip \<longleftrightarrow> sd_self mine (Canon ip) \<or> (\<exists>v4. EmbeddedIPv4 ip = Some v4 \<and> sd_self mine v4)"

lemma Filter_loop_onlySelf:
  "snd (Filter_loop mine allowPrivate addrs out onlySelf) \<longleftrightarrow> onlySelf \<and> list_all (reaches_self mine) addrs"
proof (induction addrs arbitrary: allowPrivate out onlySelf)
  case (Cons ip addrs)
  show ?case
    by (cases "EmbeddedIPv4 ip") (simp_all add: Let_def Cons.IH reaches_self_def [of mine ip])
qed simp

lemma Filter_Inr:
  assumes "Filter pctx ifaddrs d ctx addrs = Inr out"
  shows "out = filter (dialable (case sd_OwnAddrs d of Some own \<Rightarrow> own | None \<Rightarrow> LocalAddrs ifaddrs)
    (sd_allowPrivate pctx d ctx)) (map Canon addrs)"
  using assms Filter_loop_out [of "case sd_OwnAddrs d of Some own \<Rightarrow> own | None \<Rightarrow> LocalAddrs ifaddrs"
      "sd_allowPrivate pctx d ctx" addrs "[]" "addrs \<noteq> []"]
  by (auto simp: Filter_def Let_def split: prod.splits if_splits)

lemma Filter_guard:
  assumes "Filter pctx ifaddrs d ctx addrs = Inr out" and "ip \<in> set out"
    and "sd_OwnAddrs d = Some own"
  shows "\<forall>a. a = ip \<or> EmbeddedIPv4 ip = Some a \<longrightarrow>
     a \<noteq> NoAddr \<and> \<not> IsUnspecified a \<and> \<not> IsLoopback a \<and> a \<notin> set own \<and> \<not> inAny a alwaysForbidden \<and>
     (\<not> sd_allowPrivate pctx d ctx \<longrightarrow> IsPublicUnicast a \<and> \<not> IsPrivateLAN a)"
proof -
  have "dialable own (sd_allowPrivate pctx d ctx) ip"
    using Filter_Inr [OF assms(1)] assms(2,3) by simp
  then show ?thesis
    using public_not_LAN public_embedded
    by (auto simp: dialable_def sd_forbidden_def sd_self_def addr_IsValid_def)
qed

text \<open>
  No address the SSRF guard hands to the dialer is this machine's (loopback or one of its
  own addresses), link-local, multicast, of 0.0.0.0/8 or unspecified, nor does it carry such an
  IPv4 address in a NAT64, 6to4 or IPv4-compatible form; and unless private destinations are
  allowed, neither the address nor the IPv4 address it carries is in a private LAN range.
\<close>

theorem Filter_safe:
  assumes "Filter pctx ifaddrs d ctx addrs = Inr out" and "ip \<in> set out"
    and "sd_OwnAddrs d = Some own"
  shows "\<forall>a. a = ip \<or> EmbeddedIPv4 ip = Some a \<longrightarrow>
     a \<noteq> NoAddr \<and> \<not> IsUnspecified a \<and> \<not> IsLoopback a \<and> a \<notin> set own \<and> \<not> inAny a alwaysForbidden \<and>
     (\<not> sd_allowPrivate pctx d ctx \<longrightarrow> IsPublicUnicast a \<and> \<not> IsPrivateLAN a)"
  using assms by (rule Filter_guard)

theorem Filter_safe_witness:
  "Filter (\<lambda>c. c) None \<lparr>sd_AllowPrivate = None, sd_OwnAddrs = Some [V4 0xC0A80002]\<rparr> False
     [V4 0xC0A80002, V4 0x0A000001, V4 0x08080808] = Inr [V4 0x08080808] \<and>
   \<not> IsLoopback (V4 0x08080808) \<and> \<not> inAny (V4 0x08080808) alwaysForbidden \<and>
   IsPublicUnicast (V4 0x08080808) \<and> \<not> IsPrivateLAN (V4 0x08080808)"
proof -
  have "Filter (\<lambda>c. c) None \<lparr>sd_AllowPrivate = None, sd_OwnAddrs = Some [V4 0xC0A80002]\<rparr> False
     [V4 0xC0A80002, V4 0x0A000001, V4 0x08080808] = Inr [V4 0x08080808]"
    by code_simp
  with Filter_safe [OF this, of "V4 0x08080808" "[V4 0xC0A80002]"] show ?thesis by (simp add: sd_allowPrivate_def)
qed

text \<open>
  The guard loses nothing and reorders nothing: it returns exactly the canonical forms of the
  dialable addresses in their order, and when there is none its error is \<^verbatim>\<open>ErrOwnDestination\<close>
  iff there was an address and every address is, or carries, one of this machine.
\<close>

theorem Filter_exact:
  "Filter pctx ifaddrs d ctx addrs =
     (let own = (case sd_OwnAddrs d of Some own \<Rightarrow> own | None \<Rightarrow> LocalAddrs ifaddrs);
          out = filter (dialable own (sd_allowPrivate pctx d ctx)) (map Canon addrs) in
      if out \<noteq> [] then Inr out
      else if addrs \<noteq> [] \<and> list_all (reaches_self own) addrs
      then Inl ErrOwnDestination else Inl ErrForbiddenDestination)"
  by (simp add: Filter_def Let_def case_prod_beta Filter_loop_out Filter_loop_onlySelf)

section \<open>Access control\<close>

text \<open>
  Without \<^verbatim>\<open>dns.allowAllNetworks\<close> and \<^verbatim>\<open>dns.trustConnectedNetworks\<close> the client ACL admits
  exactly the private LAN ranges and the configured networks, whatever the interfaces of this
  machine are: a directly connected public subnet is never trusted automatically.
\<close>

theorem Allowed_default:
  "Allowed (Some (NewACL ifaddrs hostAddrs extra False False)) ip \<longleftrightarrow> IsPrivateLAN ip \<or> inAny ip extra"
  using inAny_LocalSubnets by (auto simp: Allowed_def NewACL_def IsPrivateLAN_def)

text \<open>
  A restricted web ACL keeps the private ranges and this machine reachable and otherwise admits
  only the connected, the configured and the proxy networks; the invalid address is refused.
\<close>

lemma set_own_fold:
  "set (foldl (\<lambda>acc ip0. let ip = Canon ip0 in if addr_IsValid ip \<and> ip \<notin> set acc then acc @ [ip] else acc) acc own)
   = set acc \<union> {Canon ip | ip. ip \<in> set own \<and> ip \<noteq> NoAddr}"
  by (induction own arbitrary: acc) (auto simp: Let_def addr_IsValid_def)

lemma set_webACL_own: "set (webACL_own own) = {Canon ip | ip. ip \<in> set own \<and> ip \<noteq> NoAddr}"
  by (simp add: webACL_own_def set_own_fold)

lemma WebAllowed_restricted:
  "WebAllowed (Some (newWebACL True dnsAllowed webAllowed proxies own connected)) ip \<longleftrightarrow>
   ip \<noteq> NoAddr \<and> (IsLoopback (Canon ip) \<or> Canon ip \<in> Canon ` set own \<or> IsPrivateLAN ip \<or>
     inAny ip connected \<or> inAny ip dnsAllowed \<or> inAny ip webAllowed \<or> inAny ip proxies)"
proof (cases "ip = NoAddr")
  case False
  then have "Canon ip \<in> {Canon o' | o'. o' \<in> set own \<and> o' \<noteq> NoAddr} \<longleftrightarrow> Canon ip \<in> Canon ` set own"
    by (auto simp: image_iff)
  with False show ?thesis
    by (simp add: WebAllowed_def newWebACL_def Let_def addr_IsValid_def IsPrivateLAN_def set_webACL_own)
qed (simp add: WebAllowed_def newWebACL_def addr_IsValid_def)

section \<open>Keys of clients\<close>

definition lan_source :: "pfx list \<Rightarrow> pfx list \<Rightarrow> addr \<Rightarrow> bool" where
  "lan_source on4 on6 ip \<longleftrightarrow> (let c = Canon ip in IsLoopback c \<or> IsLinkLocalUnicast c \<or>
     (if Is4 c then IsRFC1918 c \<or> inAny c cgnatV4 \<or> inAny c on4 else IsULA c \<or> inAny c on6))"

lemma lan_source_valid: "lan_source on4 on6 ip \<Longrightarrow> Canon ip \<noteq> NoAddr"
  by (auto simp: lan_source_def Let_def IsULA_def)

lemma PrefixFrom_host: "Zone c = [] \<Longrightarrow> c \<noteq> NoAddr \<Longrightarrow> PrefixFrom c (BitLen c) = Pfx c (BitLen c)"
  by (cases c) (auto simp: PrefixFrom_def)

lemma RateKey_lan:
  assumes "lan_source on4 on6 ip"
  shows "RateKey on4 on6 ip v4Bits v6Bits = Pfx (Canon ip) (BitLen (Canon ip))"
proof -
  have "RateKey on4 on6 ip v4Bits v6Bits = PrefixFrom (Canon ip) (if Is4 (Canon ip) then 32 else 128)"
    using assms by (auto simp: RateKey_def lan_source_def Let_def)
  also have "(if Is4 (Canon ip) then 32 else 128) = BitLen (Canon ip)"
    using lan_source_valid [OF assms] by (cases "Canon ip") auto
  finally show ?thesis using PrefixFrom_host [of "Canon ip"] lan_source_valid [OF assms] by simp
qed

lemma addr_Prefix_full:
  "addr_Prefix c b = Pfx a (BitLen a) \<Longrightarrow> a \<noteq> NoAddr \<Longrightarrow> Zone c = [] \<Longrightarrow> a = c"
  by (cases c) (auto simp: no_pfx_def split: if_splits)

lemma PrefixFrom_full: "Zone c = [] \<Longrightarrow> PrefixFrom c b = Pfx a m \<Longrightarrow> a = c"
  by (cases c) (auto simp: PrefixFrom_def)

lemma RateKey_full:
  assumes "RateKey on4 on6 ip v4Bits v6Bits = Pfx a (BitLen a)" and "a \<noteq> NoAddr"
  shows "a = Canon ip"
proof -
  have "(\<exists>n. RateKey on4 on6 ip v4Bits v6Bits = PrefixFrom (Canon ip) n) \<or>
      (\<exists>n. RateKey on4 on6 ip v4Bits v6Bits = addr_Prefix (Canon ip) n)"
    unfolding RateKey_def Let_def by (auto split: if_splits)
  then consider n where "RateKey on4 on6 ip v4Bits v6Bits = PrefixFrom (Canon ip) n"
    | n where "RateKey on4 on6 ip v4Bits v6Bits = addr_Prefix (Canon ip) n"
    by blast
  then show ?thesis
    using assms addr_Prefix_full PrefixFrom_full Zone_Canon by cases metis+
qed

text \<open>
  A rate-limit key of the DNS server isolates the sources of the LAN: two sources one of
  which is a LAN source (loopback, link-local, private, carrier-grade NAT, or on-link) share a
  key only if they are the same address. With the prefix lengths 32 and 64 the keys are those
  of \<^verbatim>\<open>ClientKey\<close>, as documented.
\<close>

theorem RateKey_isolates:
  "(lan_source on4 on6 x \<and> RateKey on4 on6 x v4Bits v6Bits = RateKey on4 on6 y v4Bits v6Bits \<longrightarrow> Canon x = Canon y) \<and>
   RateKey on4 on6 x 32 64 = ClientKey on6 x"
proof
  show "lan_source on4 on6 x \<and> RateKey on4 on6 x v4Bits v6Bits = RateKey on4 on6 y v4Bits v6Bits \<longrightarrow> Canon x = Canon y"
  proof
    assume h: "lan_source on4 on6 x \<and> RateKey on4 on6 x v4Bits v6Bits = RateKey on4 on6 y v4Bits v6Bits"
    then have "Canon x \<noteq> NoAddr" using lan_source_valid by blast
    moreover have "RateKey on4 on6 y v4Bits v6Bits = Pfx (Canon x) (BitLen (Canon x))"
      using h RateKey_lan by metis
    ultimately show "Canon x = Canon y" using RateKey_full by metis
  qed
  show "RateKey on4 on6 x 32 64 = ClientKey on6 x" by (simp add: RateKey_def ClientKey_def Let_def)
qed

theorem RateKey_isolates_witness:
  "lan_source [] [] (V4 0xC0A80105) \<and> RateKey [] [] (V4 0xC0A80105) 24 56 = Pfx (V4 0xC0A80105) 32 \<and>
   RateKey [] [] (V4 0x08080808) 24 56 = RateKey [] [] (V4 0x08080809) 24 56 \<and>
   RateKey [] [] (V4 0xC0A80105) 24 56 \<noteq> RateKey [] [] (V4 0xC0A80106) 24 56"
proof -
  have "lan_source [] [] (V4 0xC0A80105)" and "RateKey [] [] (V4 0xC0A80105) 24 56 = Pfx (V4 0xC0A80105) 32"
    and "RateKey [] [] (V4 0x08080808) 24 56 = RateKey [] [] (V4 0x08080809) 24 56"
    by code_simp+
  with RateKey_isolates [of "[]" "[]" "V4 0xC0A80105" 24 56 "V4 0xC0A80106"] show ?thesis by auto
qed

section \<open>Rebind protection\<close>

lemma RebindTarget_private:
  assumes "IsPrivateLAN ip"
  shows "RebindTarget ip p"
proof -
  have "inAny ip (rebindV4 @ rebindV6)"
    using assms inAny_within [OF private_within_rebind] by (simp add: IsPrivateLAN_def)
  moreover have "\<not> inAny ip rebindV6" if "Is4 (Canon ip)"
    using that by (cases "Canon ip") (auto simp: inAny_iff rebindV6_def Contains_def)
  moreover have "\<not> inAny ip rebindV4" if "\<not> Is4 (Canon ip)"
    using that by (cases "Canon ip") (auto simp: inAny_iff rebindV4_def Contains_def)
  ultimately show ?thesis by (auto simp: RebindTarget_def Let_def)
qed

lemma RebindTarget_V4 [simp]: "RebindTarget (V4 a) p = inAny (V4 a) rebindV4"
  by (simp add: RebindTarget_def)

text \<open>
  C24: rebind targets contain every private LAN address, and no way of writing an IPv4 target as
  an IPv6 address escapes: the IPv4-mapped, NAT64, 6to4 and IPv4-compatible forms and the forms
  under the configured DNS64 prefix of a target are targets.
\<close>

theorem RebindTarget_closed:
  "(IsPrivateLAN ip \<longrightarrow> RebindTarget ip p) \<and>
   (Is4In6 (V6 b z) \<longrightarrow> RebindTarget (V6 b z) p = RebindTarget (V4 (ucast b)) p) \<and>
   (EmbeddedIPv4 ip = Some v4 \<and> RebindTarget v4 p \<longrightarrow> RebindTarget ip p) \<and>
   (p = PrefixFrom (V6 n []) 96 \<and> \<not> Is4In6 (V6 b z) \<and> Contains p (V6 b []) \<and> RebindTarget (V4 (ucast b)) p \<longrightarrow>
      RebindTarget (V6 b z) p)"
proof (intro conjI impI)
  assume "IsPrivateLAN ip" then show "RebindTarget ip p" by (rule RebindTarget_private)
next
  assume "Is4In6 (V6 b z)" then show "RebindTarget (V6 b z) p = RebindTarget (V4 (ucast b)) p"
    by (simp add: RebindTarget_def Canon_def Unmap_def)
next
  assume h: "EmbeddedIPv4 ip = Some v4 \<and> RebindTarget v4 p"
  then obtain a where "v4 = V4 a" using EmbeddedIPv4_V4 by blast
  moreover from h have "\<not> Is4 (Canon ip)" by (auto simp: EmbeddedIPv4_def Let_def split: addr.splits)
  ultimately show "RebindTarget ip p" using h by (simp add: RebindTarget_def)
next
  assume "p = PrefixFrom (V6 n []) 96 \<and> \<not> Is4In6 (V6 b z) \<and> Contains p (V6 b []) \<and> RebindTarget (V4 (ucast b)) p"
  moreover from this have "Canon (V6 b z) = V6 b []" by (simp add: Canon_def Unmap_def)
  ultimately show "RebindTarget (V6 b z) p"
    by (auto simp: RebindTarget_def Let_def PrefixFrom_def pfx_IsValid_def)
qed

theorem RebindTarget_closed_witness:
  "EmbeddedIPv4 (V6 0x0064FF9B00000000000000000A000001 []) = Some (V4 0x0A000001) \<and>
   RebindTarget (V6 0x0064FF9B00000000000000000A000001 []) no_pfx \<and>
   RebindTarget (V6 0xFFFF7F000001 []) no_pfx \<and> RebindTarget (V4 0xC0A80101) no_pfx \<and>
   RebindTarget (V6 0x20010DB80064000000000000C0A80101 []) (PrefixFrom (V6 0x20010DB8006400000000000000000000 []) 96) \<and>
   \<not> RebindTarget (V4 0x08080808) no_pfx"
proof -
  let ?d = "PrefixFrom (V6 0x20010DB8006400000000000000000000 []) 96"
  have e: "EmbeddedIPv4 (V6 0x0064FF9B00000000000000000A000001 []) = Some (V4 0x0A000001)" by code_simp
  have t: "RebindTarget (V4 0x0A000001) no_pfx" by code_simp
  have m: "Is4In6 (V6 0xFFFF7F000001 [])" "RebindTarget (V4 (ucast (0xFFFF7F000001 :: 128 word))) no_pfx" by code_simp+
  have l: "IsPrivateLAN (V4 0xC0A80101)" by code_simp
  have d: "\<not> Is4In6 (V6 0x20010DB80064000000000000C0A80101 [])" "Contains ?d (V6 0x20010DB80064000000000000C0A80101 [])"
    "RebindTarget (V4 (ucast (0x20010DB80064000000000000C0A80101 :: 128 word))) ?d"
    by code_simp+
  have n: "\<not> RebindTarget (V4 0x08080808) no_pfx" by code_simp
  show ?thesis
    using RebindTarget_closed [of "V6 0x0064FF9B00000000000000000A000001 []" no_pfx "0xFFFF7F000001" "[]" "V4 0x0A000001"]
      RebindTarget_closed [of "V4 0xC0A80101" no_pfx]
      RebindTarget_closed [of NoAddr ?d "0x20010DB80064000000000000C0A80101" "[]" NoAddr "0x20010DB8006400000000000000000000"]
      e t m l d n by blast
qed

end
