(* ===== verification/IpSets.thy ===== *)
theory IpSets
  imports FilterEntries NetUtil
begin

text \<open>
  \<^verbatim>\<open>internal/dns/filter/iplist.go\<close>: lists of answer addresses and user IP rules. Networks are
  kept as 64-bit keys in hash sets, and an address is looked up under every prefix length that
  occurs, longest first. The parsers of \<^verbatim>\<open>net/netip\<close> are arguments of the definitions that call
  them.
\<close>

section \<open>Definitions\<close>

datatype Action = ActionNone | ActionAllow | ActionBlock

definition ipGuardV4 :: "pfx list" where
  "ipGuardV4 =
     [Pfx (V4 0) 8, Pfx (V4 0x0A000000) 8, Pfx (V4 0x64400000) 10,
      Pfx (V4 0x7F000000) 8, Pfx (V4 0xA9FE0000) 16, Pfx (V4 0xAC100000) 12,
      Pfx (V4 0xC0A80000) 16, Pfx (V4 0xE0000000) 4, Pfx (V4 0xF0000000) 4]"

definition ipGuardV6 :: "pfx list" where
  "ipGuardV6 =
     [Pfx (V6 0 []) 128, Pfx (V6 1 []) 128, Pfx (V6 0xFC000000000000000000000000000000 []) 7,
      Pfx (V6 0xFE800000000000000000000000000000 []) 10, Pfx (V6 0xFF000000000000000000000000000000 []) 8]"

definition ipEmbedV6 :: "pfx list" where
  "ipEmbedV6 =
     [Pfx (V6 0xFFFF00000000 []) 96, Pfx (V6 0 []) 96, Pfx (V6 0x0064FF9B000000000000000000000000 []) 96,
      Pfx (V6 0x0064FF9B000100000000000000000000 []) 48, Pfx (V6 0x20020000000000000000000000000000 []) 16]"

definition minListBitsV4 :: int where "minListBitsV4 = 16"
definition minListBitsV6 :: int where "minListBitsV6 = 32"

definition canonicalPrefix :: "(string \<Rightarrow> pfx option) \<Rightarrow> (string \<Rightarrow> addr option) \<Rightarrow> string \<Rightarrow> pfx option" where
  "canonicalPrefix ParsePrefix ParseAddr s =
     (if strings_Contains s ''/'' then
        case ParsePrefix s of
          None \<Rightarrow> None
        | Some p \<Rightarrow>
            if Zone (pfx_Addr p) \<noteq> [] then None
            else let (addr, bits) =
              (if Is4In6 (pfx_Addr p) \<and> pfx_Bits p \<ge> 96 then (Unmap (pfx_Addr p), pfx_Bits p - 96)
               else (pfx_Addr p, pfx_Bits p)) in Some (Masked (PrefixFrom addr bits))
      else
        case ParseAddr s of
          None \<Rightarrow> None
        | Some ip \<Rightarrow> if Zone ip \<noteq> [] then None else Some (PrefixFrom (Unmap ip) (BitLen (Unmap ip))))"

definition ipGuarded :: "pfx \<Rightarrow> bool" where
  "ipGuarded p =
     (if Is4 (pfx_Addr p) then
        if pfx_Bits p < minListBitsV4 then True else list_ex (Overlaps p) ipGuardV4
      else if pfx_Bits p < minListBitsV6 \<or> list_ex (Overlaps p) ipGuardV6 then True
      else list_ex (Overlaps p) ipEmbedV6)"

record ipEntry =
  ie_prefix :: pfx
  ie_allow :: bool

fun inlineComment_from :: "char \<Rightarrow> string \<Rightarrow> nat \<Rightarrow> nat option" where
  "inlineComment_from prev [] i = None"
| "inlineComment_from prev (c # cs) i =
     (if c = CHR ''#'' \<and> (prev = CHR '' '' \<or> prev = CHR 0x09) then Some i else inlineComment_from c cs (Suc i))"

definition inlineComment :: "string \<Rightarrow> nat option" where
  "inlineComment s = (case s of [] \<Rightarrow> None | c # cs \<Rightarrow> inlineComment_from c cs 1)"

text \<open>The text of a line before an inline comment; \<open>None\<close> when nothing is left.\<close>

definition strip_comment :: "string \<Rightarrow> string option" where
  "strip_comment s = (case inlineComment s of
     None \<Rightarrow> Some s
   | Some i \<Rightarrow> let t = strings_TrimSpace (take i s) in if t = [] then None else Some t)"

definition parseIPLine ::
  "(string \<Rightarrow> pfx option) \<Rightarrow> (string \<Rightarrow> addr option) \<Rightarrow> string \<Rightarrow> ipEntry option \<times> lineStatus" where
  "parseIPLine ParsePrefix ParseAddr line = (let s = strings_TrimSpace line in
     if s = [] then (None, lineSkip)
     else if hd s \<in> {CHR ''!'', CHR ''#'', CHR '';'', CHR ''[''} then (None, lineSkip)
     else case strip_comment s of None \<Rightarrow> (None, lineSkip) | Some s1 \<Rightarrow>
       let (allow, s2) = (case strings_CutPrefix s1 ''@@'' of Some rest \<Rightarrow> (True, rest) | None \<Rightarrow> (False, s1)) in
       case (case strings_CutPrefix s2 ''||'' of
               None \<Rightarrow> Some (s2, False)
             | Some rest \<Rightarrow> (case strings_CutSuffix rest ''^'' of
                 None \<Rightarrow> None
               | Some body \<Rightarrow> if strings_Contains body ''/'' then None else Some (body, True))) of
         None \<Rightarrow> (None, lineInvalid)
       | Some (s3, abp) \<Rightarrow>
           if s3 = [] \<or> list_ex (\<lambda>c. c \<in> {CHR '' '', CHR 0x09, CHR ''$'', CHR ''|'', CHR ''^''}) s3 then (None, lineInvalid)
           else case canonicalPrefix ParsePrefix ParseAddr s3 of
             None \<Rightarrow> (None, lineInvalid)
           | Some p \<Rightarrow> if abp \<and> \<not> IsSingleIP p then (None, lineInvalid)
               else (Some \<lparr>ie_prefix = p, ie_allow = allow\<rparr>, lineOK))"

section \<open>Keys and tiers\<close>

text \<open>\<^verbatim>\<open>As16\<close> of an address that is not IPv4 (the zero \<^verbatim>\<open>Addr\<close> gives zeros), and byte \<open>i\<close> of it.\<close>

fun as16 :: "addr \<Rightarrow> 128 word" where
  "as16 (V6 a _) = a" | "as16 (V4 a) = push_bit 32 0xFFFF OR ucast a" | "as16 NoAddr = 0"

definition byte16 :: "128 word \<Rightarrow> nat \<Rightarrow> u8" where
  "byte16 a i = ucast (drop_bit (8 * (15 - i)) a)"

definition masked_byte :: "u8 \<Rightarrow> int \<Rightarrow> u8" where
  "masked_byte b rem = (if rem \<le> 0 then 0 else if rem < 8 then b AND push_bit (nat (8 - rem)) (-1) else b)"

definition ipKey :: "addr \<Rightarrow> int \<Rightarrow> u64" where
  "ipKey ip bits = (case ip of
     V4 a \<Rightarrow>
       let v = (if bits < 32 then a AND push_bit (nat (32 - bits)) (-1) else a)
       in push_bit 8 (ucast v) OR of_int bits
   | _ \<Rightarrow>
       let h = fold (\<lambda>i h. (h XOR ucast (masked_byte (byte16 (as16 ip) i) (bits - int i * 8))) * fnvPrime64)
             [0..<16] fnvOffset64
       in (h XOR of_int bits) * fnvPrime64)"

record ipTier =
  it_v4 :: hashSet
  it_v6 :: hashSet
  it_v4Bits :: "nat list"
  it_v6Bits :: "nat list"

definition no_hashSet :: hashSet where "no_hashSet = \<lparr>hs_h = [], hs_src = []\<rparr>"

definition it_lookup :: "ipTier \<Rightarrow> addr \<Rightarrow> int list \<Rightarrow> int list list \<Rightarrow> nat option" where
  "it_lookup t ip groups srcGroups =
     (let (s, bits) = (if Is4 ip then (it_v4 t, it_v4Bits t) else (it_v6 t, it_v6Bits t)) in
      if hs_Len s = 0 then None
      else first_some (\<lambda>b. hs_lookup s (ipKey ip (int b)) groups srcGroups None) bits)"

definition ipBitsOf :: "nat list \<Rightarrow> nat list" where
  "ipBitsOf bits = rev (remdups_adj (sort bits))"

definition mergeIPTier :: "'re parsed list \<Rightarrow> nat \<Rightarrow> ipTier" where
  "mergeIPTier results tier =
     \<lparr>it_v4 = mergeHashes (map (\<lambda>r. p_ips r ! tier ! 0) results),
      it_v6 = mergeHashes (map (\<lambda>r. p_ips r ! tier ! 1) results),
      it_v4Bits = ipBitsOf (concat (map (\<lambda>r. p_ipBits r ! tier ! 0) results)),
      it_v6Bits = ipBitsOf (concat (map (\<lambda>r. p_ipBits r ! tier ! 1) results))\<rparr>"

text \<open>
  \<^verbatim>\<open>parseIPList\<close> on the lines \<^verbatim>\<open>scanLines\<close> delivers (\<open>None\<close> is an overlong line). The table
  \<^verbatim>\<open>lens\<close> of the prefix lengths seen is the list of the entries \<open>p_ipBits\<close> collects.
\<close>

definition ip_family :: "pfx \<Rightarrow> nat" where
  "ip_family p = (if Is4 (pfx_Addr p) then 0 else 1)"

definition parseIPList_line ::
  "(string \<Rightarrow> pfx option) \<Rightarrow> (string \<Rightarrow> addr option) \<Rightarrow> listFormat \<Rightarrow> string option \<Rightarrow> 're parsed \<Rightarrow> 're parsed" where
  "parseIPList_line ParsePrefix ParseAddr f line res = (case line of
     None \<Rightarrow> res\<lparr>p_invalid := p_invalid res + 1\<rparr>
   | Some l \<Rightarrow> (case parseIPLine ParsePrefix ParseAddr l of
       (_, lineSkip) \<Rightarrow> res
     | (Some e, lineOK) \<Rightarrow>
         let tier = (if ie_allow e \<or> lf_kind f = ''allow'' then ipTierAllow else ipTierBlock) in
         if tier = ipTierBlock \<and> ipGuarded (ie_prefix e)
         then res\<lparr>p_invalid := p_invalid res + 1, p_broad := p_broad res + 1\<rparr>
         else let p = ie_prefix e; fam = ip_family p in
           res\<lparr>p_ips := append_cell tier fam (ipKey (pfx_Addr p) (pfx_Bits p)) (p_ips res),
               p_ipBits := append_cell tier fam (nat (pfx_Bits p)) (p_ipBits res)\<rparr>
     | _ \<Rightarrow> res\<lparr>p_invalid := p_invalid res + 1\<rparr>))"

definition parseIPList ::
  "(string \<Rightarrow> pfx option) \<Rightarrow> (string \<Rightarrow> addr option) \<Rightarrow> listFormat \<Rightarrow> string option list \<Rightarrow> 're parsed" where
  "parseIPList ParsePrefix ParseAddr f lines =
     (let res = fold (parseIPList_line ParsePrefix ParseAddr f) lines (new_parsed f);
          ips = map (map sort_compact) (p_ips res);
          n = sum_list (map (\<lambda>row. sum_list (map length row)) ips)
      in res\<lparr>p_ips := ips,
             p_ipBits := map (map (\<lambda>lens. filter (\<lambda>b. b \<in> set lens) (rev [0..<129]))) (p_ipBits res),
             p_ipEntries := n, p_entries := n\<rparr>)"

section \<open>User IP rules\<close>

record ipRuleEntry =
  ir_id :: int
  ir_action :: Action
  ir_pattern :: string
  ir_groups :: "int list"

record ipRuleMatcher =
  im_tiers :: "ipTier list"
  im_rules :: "ipRuleEntry list"
  im_groups :: "int list list"

definition ipRule_tier :: "ipRuleEntry \<Rightarrow> nat" where
  "ipRule_tier r = (if ir_action r = ActionAllow then ipTierAllow else ipTierBlock)"

text \<open>The rules of one tier and family, with their index: what the loop appends to that set.\<close>

definition ipRule_nets ::
  "(string \<Rightarrow> pfx option) \<Rightarrow> ipRuleEntry list \<Rightarrow> nat \<Rightarrow> nat \<Rightarrow> (nat \<times> pfx) list" where
  "ipRule_nets canon rules tier fam =
     List.map_filter (\<lambda>(i, r). case canon (ir_pattern r) of
        None \<Rightarrow> None
      | Some p \<Rightarrow> if ipRule_tier r = tier \<and> ip_family p = fam then Some (i, p) else None) (enumerate 0 rules)"

definition nets_set :: "(nat \<times> pfx) list \<Rightarrow> hashSet" where
  "nets_set ns = sortHashSet \<lparr>hs_h = map (\<lambda>(i, p). ipKey (pfx_Addr p) (pfx_Bits p)) ns, hs_src = map fst ns\<rparr>"

definition nets_bits :: "(nat \<times> pfx) list \<Rightarrow> nat list" where
  "nets_bits ns = ipBitsOf (map (\<lambda>(i, p). nat (pfx_Bits p)) ns)"

definition buildIPRuleMatcher ::
  "(string \<Rightarrow> pfx option) \<Rightarrow> (string \<Rightarrow> addr option) \<Rightarrow> ipRuleEntry list \<Rightarrow> ipRuleMatcher" where
  "buildIPRuleMatcher ParsePrefix ParseAddr rules =
     (let nets = ipRule_nets (canonicalPrefix ParsePrefix ParseAddr) rules in
      \<lparr>im_tiers = map (\<lambda>tier. \<lparr>it_v4 = nets_set (nets tier 0), it_v6 = nets_set (nets tier 1),
          it_v4Bits = nets_bits (nets tier 0), it_v6Bits = nets_bits (nets tier 1)\<rparr>) [0..<numIPTiers],
       im_rules = rules, im_groups = map ir_groups rules\<rparr>)"

section \<open>The guard\<close>

lemma guard_tables_wf: "list_all pfx_wf (ipGuardV4 @ ipGuardV6 @ ipEmbedV6)"
  by code_simp

lemma private_within_guard: "list_all (\<lambda>p. prefixWithin p (ipGuardV4 @ ipGuardV6)) PrivateLANPrefixes"
  by code_simp

lemma Contains_family: "Contains p ip \<Longrightarrow> Is4 (pfx_Addr p) = Is4 ip"
  using same_net_family by (auto simp: Contains_def)

lemma guard_families:
  "q \<in> set ipGuardV4 \<Longrightarrow> Is4 (pfx_Addr q)" "q \<in> set (ipGuardV6 @ ipEmbedV6) \<Longrightarrow> \<not> Is4 (pfx_Addr q)"
  by (auto simp: ipGuardV4_def ipGuardV6_def ipEmbedV6_def)

lemma ipGuarded_disjoint:
  assumes "\<not> ipGuarded p" and "pfx_wf p" and "Contains p ip" and "q \<in> set (ipGuardV4 @ ipGuardV6 @ ipEmbedV6)"
  shows "\<not> Contains q ip"
proof
  assume q: "Contains q ip"
  have "pfx_wf q" using guard_tables_wf assms(4) by (auto simp: list_all_iff)
  moreover have "\<not> Overlaps p q"
  proof (cases "Is4 ip")
    case True
    then have "q \<in> set ipGuardV4" using Contains_family [OF q] assms(4) guard_families(2) [of q] by auto
    then show ?thesis
      using assms(1) True Contains_family [OF assms(3)] by (auto simp: ipGuarded_def list_ex_iff split: if_splits)
  next
    case False
    then have "q \<in> set (ipGuardV6 @ ipEmbedV6)"
      using Contains_family [OF q] assms(4) guard_families(1) [of q] by auto
    then show ?thesis
      using assms(1) False Contains_family [OF assms(3)] by (auto simp: ipGuarded_def list_ex_iff split: if_splits)
  qed
  ultimately show False using not_Overlaps_disjoint assms(2,3) q by blast
qed

lemma EmbeddedIPv4_embed:
  assumes "EmbeddedIPv4 ip = Some v4" and "Zone ip = []" and "\<not> Is4In6 ip"
  shows "\<exists>q \<in> set ipEmbedV6. Contains q ip"
proof -
  have "Canon ip = ip" using assms(2,3) by (cases ip) (auto simp: Canon_def Unmap_def)
  then have "Contains nat64WKP ip \<or> Contains v4Compatible ip \<or> Contains sixToFour ip"
    using assms(1) by (auto simp: EmbeddedIPv4_def Let_def split: addr.splits if_splits)
  then show ?thesis by (auto simp: ipEmbedV6_def nat64WKP_def v4Compatible_def sixToFour_def)
qed

text \<open>
  The IP guard. A block of a list that passes it is at least a /16 (IPv4) or /32 (IPv6) and
  contains no private LAN address, no address of the guarded networks and no IPv6 address that
  carries an IPv4 address, so one broken or hostile list cannot block the answers of a LAN.
\<close>

theorem ipGuarded_safe:
  assumes "\<not> ipGuarded p" and "pfx_wf p" and "Contains p ip"
  shows "pfx_Bits p \<ge> (if Is4 ip then 16 else 32) \<and> \<not> inAny ip (ipGuardV4 @ ipGuardV6) \<and> \<not> IsPrivateLAN ip \<and>
    \<not> Is4In6 ip \<and> EmbeddedIPv4 ip = None"
proof -
  have zone: "Zone ip = []" using assms(3) by (simp add: Contains_def)
  have mapped: "\<not> Is4In6 ip"
  proof
    assume "Is4In6 ip"
    then have "Contains (Pfx (V6 0xFFFF00000000 []) 96) ip"
      using zone by (cases ip) (auto simp: Contains_def pfx_IsValid_def)
    then show False using ipGuarded_disjoint [OF assms] by (auto simp: ipEmbedV6_def)
  qed
  then have canon: "Canon ip = ip" using zone by (cases ip) (auto simp: Canon_def Unmap_def)
  have guard: "\<not> inAny ip (ipGuardV4 @ ipGuardV6)"
    using ipGuarded_disjoint [OF assms] by (auto simp: inAny_iff canon)
  moreover have "\<not> IsPrivateLAN ip"
    using guard inAny_within [OF private_within_guard] by (auto simp: IsPrivateLAN_def)
  moreover have "EmbeddedIPv4 ip = None"
    using EmbeddedIPv4_embed [OF _ zone mapped] ipGuarded_disjoint [OF assms] by (cases "EmbeddedIPv4 ip") auto
  moreover have "pfx_Bits p \<ge> (if Is4 ip then 16 else 32)"
    using assms(1) Contains_family [OF assms(3)]
    by (auto simp: ipGuarded_def minListBitsV4_def minListBitsV6_def split: if_splits)
  ultimately show ?thesis using mapped by blast
qed

theorem ipGuarded_safe_witness:
  "\<not> ipGuarded (Pfx (V4 0x5DB80000) 16) \<and> Contains (Pfx (V4 0x5DB80000) 16) (V4 0x5DB8D822) \<and>
   \<not> IsPrivateLAN (V4 0x5DB8D822) \<and> ipGuarded (Pfx (V4 0xC0000000) 8)"
proof -
  have "\<not> ipGuarded (Pfx (V4 0x5DB80000) 16)" "pfx_wf (Pfx (V4 0x5DB80000) 16)"
    "Contains (Pfx (V4 0x5DB80000) 16) (V4 0x5DB8D822)" "ipGuarded (Pfx (V4 0xC0000000) 8)"
    by code_simp+
  with ipGuarded_safe [of "Pfx (V4 0x5DB80000) 16" "V4 0x5DB8D822"] show ?thesis by blast
qed

section \<open>Keys of IPv4 networks\<close>

lemma mask_and: "nat b \<le> 32 \<Longrightarrow> 0 \<le> b \<Longrightarrow> (if b < 32 then a AND push_bit (nat (32 - b)) (-1) else a) = mask_top (nat b) (a :: u32)"
  by (rule bit_word_eqI) (auto simp: mask_top_def bit_simps nat_diff_distrib)

lemma small_no_high_bit: "0 \<le> b \<Longrightarrow> b < 256 \<Longrightarrow> 8 \<le> n \<Longrightarrow> \<not> bit (b :: int) n"
proof -
  assume "0 \<le> b" "b < 256" "8 \<le> n"
  then have "(256 :: int) \<le> 2 ^ n" using power_increasing [of 8 n "2 :: int"] by simp
  then have "b div 2 ^ n = 0" using \<open>0 \<le> b\<close> \<open>b < 256\<close> by (simp add: div_pos_pos_trivial)
  then show ?thesis by (simp add: bit_iff_odd)
qed

definition pack8 :: "u32 \<Rightarrow> int \<Rightarrow> u64" where
  "pack8 v b = push_bit 8 (ucast v) OR of_int b"

lemma bit_pack8:
  "0 \<le> b \<Longrightarrow> b < 256 \<Longrightarrow> n < 64 \<Longrightarrow> bit (pack8 v b) n \<longleftrightarrow> (if n < 8 then bit b n else bit v (n - 8))"
  using small_no_high_bit [of b n] by (auto simp: pack8_def bit_simps)

lemma pack8_inject:
  assumes "0 \<le> b" "b < 256" "0 \<le> b'" "b' < 256"
  shows "pack8 v b = pack8 v' b' \<longleftrightarrow> v = v' \<and> b = b'"
proof
  assume eq: "pack8 v b = pack8 v' b'"
  have "v = v'"
  proof (rule bit_word_eqI)
    fix n assume "n < LENGTH(32)"
    then show "bit v n = bit v' n"
      using bit_pack8 [OF assms(1,2), of "n + 8" v] bit_pack8 [OF assms(3,4), of "n + 8" v'] eq by simp
  qed
  moreover have "b = b'"
  proof (rule bit_eqI)
    fix n
    show "bit b n = bit b' n"
      using bit_pack8 [OF assms(1,2), of n v] bit_pack8 [OF assms(3,4), of n v'] eq
        small_no_high_bit [OF assms(1,2), of n] small_no_high_bit [OF assms(3,4), of n]
      by (cases "n < 8") auto
  qed
  ultimately show "v = v' \<and> b = b'" by simp
qed simp

lemma ipKey_V4: "0 \<le> b \<Longrightarrow> b \<le> 32 \<Longrightarrow> ipKey (V4 a) b = pack8 (mask_top (nat b) a) b"
  using mask_and [of b a] by (simp add: ipKey_def pack8_def Let_def)

text \<open>An IPv4 key is exact: it is the network and its length.\<close>

lemma ipKey_V4_iff:
  assumes "0 \<le> b" "b \<le> 32" "0 \<le> b'" "b' \<le> 32"
  shows "ipKey (V4 a) b = ipKey (V4 c) b' \<longleftrightarrow> b = b' \<and> same_net (nat b) (V4 a) (V4 c)"
  using assms by (auto simp: ipKey_V4 pack8_inject mask_top_eq_iff)

section \<open>Longest prefix first\<close>

lemma set_ipBitsOf [simp]: "set (ipBitsOf bs) = set bs"
  by (simp add: ipBitsOf_def)

lemma ipBitsOf_desc: "sorted_wrt (>) (ipBitsOf bs)"
  using distinct_remdups_adj_sorted [of "sort bs"]
  by (simp add: ipBitsOf_def sorted_wrt_rev strict_sorted_iff)

lemma first_some_desc:
  assumes "sorted_wrt (>) bs" and "first_some f bs = Some y"
  shows "\<exists>b \<in> set bs. f b = Some y \<and> (\<forall>b' \<in> set bs. f b' \<noteq> None \<longrightarrow> b' \<le> (b :: nat))"
  using assms
proof (induction bs)
  case (Cons b bs)
  show ?case
  proof (cases "f b")
    case None
    with Cons show ?thesis by auto
  next
    case (Some z)
    with Cons.prems show ?thesis by (auto intro: less_imp_le)
  qed
qed simp

text \<open>
  What a tier promises for an address, given the networks with their sources it was built from:
  the answer is a source that shares a group with the client and has a longest containing
  network, and there is none iff no such network contains the address.
\<close>

definition longest_match :: "(nat \<times> pfx) list \<Rightarrow> (nat \<Rightarrow> bool) \<Rightarrow> addr \<Rightarrow> nat option \<Rightarrow> bool" where
  "longest_match nets ok ip res = (case res of
     None \<Rightarrow> \<forall>(i, p) \<in> set nets. \<not> (ok i \<and> Contains p ip)
   | Some src \<Rightarrow> \<exists>p. (src, p) \<in> set nets \<and> ok src \<and> Contains p ip \<and>
       (\<forall>(i, q) \<in> set nets. ok i \<and> Contains q ip \<longrightarrow> pfx_Bits q \<le> pfx_Bits p))"

lemma longest_match_lookup:
  assumes wf: "hs_wf s"
    and entries: "set (hs_entries s) = {(ipKey (pfx_Addr p) (pfx_Bits p), i) | i p. (i, p) \<in> set nets}"
    and bits: "sorted_wrt (>) bs" "set bs = {nat (pfx_Bits p) | i p. (i, p) \<in> set nets}"
    and nets: "\<And>i p. (i, p) \<in> set nets \<Longrightarrow> 0 \<le> pfx_Bits p"
    and key: "\<And>i p b. (i, p) \<in> set nets \<Longrightarrow> b \<in> set bs \<Longrightarrow>
      ipKey ip (int b) = ipKey (pfx_Addr p) (pfx_Bits p) \<longleftrightarrow> int b = pfx_Bits p \<and> Contains p ip"
  shows "longest_match nets (\<lambda>i. applies srcGroups i groups) ip
    (first_some (\<lambda>b. hs_lookup s (ipKey ip (int b)) groups srcGroups None) bs)"
proof -
  let ?f = "\<lambda>b. hs_lookup s (ipKey ip (int b)) groups srcGroups None"
  have some: "\<exists>p. (src, p) \<in> set nets \<and> applies srcGroups src groups \<and> int b = pfx_Bits p \<and> Contains p ip"
    if "b \<in> set bs" "?f b = Some src" for b src
  proof -
    have "(ipKey ip (int b), src) \<in> set (hs_entries s)" "applies srcGroups src groups"
      using hs.lookup_SomeD [OF wf] that(2) by (auto simp: hs_lookup_def accepts_def)
    then show ?thesis using key that(1) unfolding entries by blast
  qed
  have none: "?f b \<noteq> None"
    if "b \<in> set bs" "(i, p) \<in> set nets" "int b = pfx_Bits p" "Contains p ip" "applies srcGroups i groups" for b i p
  proof -
    have "(ipKey ip (int b), i) \<in> set (hs_entries s)" using key that unfolding entries by blast
    then show ?thesis
      using hs.lookup_None_iff [OF wf] that(5) by (auto simp: hs_lookup_def accepts_def)
  qed
  have len: "nat (pfx_Bits p) \<in> set bs" "int (nat (pfx_Bits p)) = pfx_Bits p" if "(i, p) \<in> set nets" for i p
    using that bits(2) nets by auto
  show ?thesis
  proof (cases "first_some ?f bs")
    case None
    then have "?f b = None" if "b \<in> set bs" for b using that by (simp add: first_some_None)
    then have "\<not> (applies srcGroups i groups \<and> Contains p ip)" if "(i, p) \<in> set nets" for i p
      using none [OF len(1) [OF that] that len(2) [OF that]] len(1) [OF that] by metis
    with None show ?thesis by (auto simp: longest_match_def)
  next
    case (Some src)
    then obtain b where b: "b \<in> set bs" "?f b = Some src" "\<And>b'. b' \<in> set bs \<Longrightarrow> ?f b' \<noteq> None \<Longrightarrow> b' \<le> b"
      using first_some_desc [OF bits(1) Some] by blast
    obtain p where p: "(src, p) \<in> set nets" "applies srcGroups src groups" "int b = pfx_Bits p" "Contains p ip"
      using some [OF b(1,2)] by blast
    have "pfx_Bits q \<le> pfx_Bits p" if "(i, q) \<in> set nets" "applies srcGroups i groups" "Contains q ip" for i q
      using b(3) [OF len(1) [OF that(1)]] none [OF len(1) [OF that(1)] that(1) len(2) [OF that(1)] that(3,2)]
        len(2) [OF that(1)] p(3) by linarith
    with Some p show ?thesis by (auto simp: longest_match_def)
  qed
qed

lemma key_V4_Contains:
  assumes "pfx_wf p" and "Is4 (pfx_Addr p)" and "int b \<le> 32"
  shows "ipKey (V4 a) (int b) = ipKey (pfx_Addr p) (pfx_Bits p) \<longleftrightarrow> int b = pfx_Bits p \<and> Contains p (V4 a)"
proof -
  obtain c where c: "pfx_Addr p = V4 c" using assms(2) by (cases "pfx_Addr p") auto
  have r: "0 \<le> pfx_Bits p" "pfx_Bits p \<le> 32" using assms(1) c by (auto simp: pfx_wf_def)
  have "Contains p (V4 a) \<longleftrightarrow> same_net (nat (pfx_Bits p)) (V4 a) (V4 c)"
    using r c same_net_sym by (auto simp: Contains_def pfx_IsValid_def)
  then show ?thesis
    using ipKey_V4_iff [of "int b" "pfx_Bits p" a c] r assms(3) c by (cases "int b = pfx_Bits p") simp_all
qed

lemma zip_keys_fst:
  "zip (map (\<lambda>(i, p). k p) ns) (map fst ns) = map (\<lambda>(i, p). (k p, i)) ns"
  by (induction ns) auto

lemma nets_set_wf: "hs_wf (nets_set ns)"
  unfolding nets_set_def by (rule sortHashSet_wf) simp

lemma nets_set_entries:
  "set (hs_entries (nets_set ns)) = {(ipKey (pfx_Addr p) (pfx_Bits p), i) | i p. (i, p) \<in> set ns}"
  by (auto simp: nets_set_def set_hs_entries_sort) (auto simp: hs_entries_def zip_keys_fst)

lemma hs_Len_entries: "hs_wf s \<Longrightarrow> hs_Len s = 0 \<longleftrightarrow> hs_entries s = []"
  by (auto simp: hs_wf_def hs_Len_def hs_entries_def)

lemma map_filter_SomeD: "y \<in> set (List.map_filter f xs) \<longleftrightarrow> (\<exists>x \<in> set xs. f x = Some y)"
  by (induction xs) (auto simp: map_filter_simps split: option.splits)

section \<open>User rules and lists\<close>

text \<open>The networks the parsers deliver are canonical: masked, without a zone, of a valid length.\<close>

lemma Masked_wf: "pfx_wf p \<Longrightarrow> pfx_wf (Masked p)"
  by (cases p; cases "pfx_Addr p") (auto simp: Masked_def pfx_wf_def pfx_IsValid_def)

lemma PrefixFrom_wf: "ip \<noteq> NoAddr \<Longrightarrow> 0 \<le> b \<Longrightarrow> b \<le> BitLen ip \<Longrightarrow> pfx_wf (PrefixFrom ip b)"
  by (cases ip) (auto simp: PrefixFrom_def pfx_wf_def)

lemma canonicalPrefix_wf:
  assumes "canonicalPrefix PP PA s = Some p"
    and "\<And>q. PP s = Some q \<Longrightarrow> pfx_Addr q \<noteq> NoAddr \<and> 0 \<le> pfx_Bits q \<and> pfx_Bits q \<le> BitLen (pfx_Addr q)"
    and "\<And>ip. PA s = Some ip \<Longrightarrow> ip \<noteq> NoAddr"
  shows "pfx_wf p"
proof (cases "strings_Contains s ''/''")
  case True
  then obtain q where q: "PP s = Some q" using assms(1) by (auto simp: canonicalPrefix_def split: option.splits)
  have v: "pfx_Addr q \<noteq> NoAddr" "0 \<le> pfx_Bits q" "pfx_Bits q \<le> BitLen (pfx_Addr q)" using assms(2) [OF q] by auto
  have "pfx_wf (Masked (PrefixFrom (pfx_Addr q) (pfx_Bits q)))" using v by (intro Masked_wf PrefixFrom_wf)
  moreover have "pfx_wf (Masked (PrefixFrom (Unmap (pfx_Addr q)) (pfx_Bits q - 96)))"
    if "Is4In6 (pfx_Addr q)" "96 \<le> pfx_Bits q"
    using that v by (cases "pfx_Addr q") (auto simp: Unmap_def intro!: Masked_wf PrefixFrom_wf)
  ultimately show ?thesis
    using assms(1) True q by (auto simp: canonicalPrefix_def Let_def split: if_splits)
next
  case False
  then obtain ip where ip: "PA s = Some ip" "p = PrefixFrom (Unmap ip) (BitLen (Unmap ip))"
    using assms(1) by (auto simp: canonicalPrefix_def split: option.splits if_splits)
  then have "Unmap ip \<noteq> NoAddr" using assms(3) by (cases ip) (auto simp: Unmap_def)
  with ip show ?thesis by (cases "Unmap ip") (auto intro!: PrefixFrom_wf)
qed

lemma longest_match_V4_tier:
  assumes "hs_wf s" and "set (hs_entries s) = {(ipKey (pfx_Addr p) (pfx_Bits p), i) | i p. (i, p) \<in> set nets}"
    and "sorted_wrt (>) bs" and "set bs = {nat (pfx_Bits p) | i p. (i, p) \<in> set nets}"
    and nets: "\<And>i p. (i, p) \<in> set nets \<Longrightarrow> pfx_wf p \<and> Is4 (pfx_Addr p)"
    and t: "it_v4 t = s" "it_v4Bits t = bs"
  shows "longest_match nets (\<lambda>i. applies srcGroups i groups) (V4 a) (it_lookup t (V4 a) groups srcGroups)"
proof (cases "hs_Len s = 0")
  case True
  then have "set (hs_entries s) = {}" using hs_Len_entries [OF assms(1)] by simp
  then have "nets = []" using assms(2) by (cases nets) auto
  with True t show ?thesis by (simp add: it_lookup_def longest_match_def)
next
  case False
  have range: "0 \<le> pfx_Bits p \<and> pfx_Bits p \<le> 32" if "(i, p) \<in> set nets" for i p
    using nets [OF that] by (cases "pfx_Addr p") (auto simp: pfx_wf_def)
  have b32: "int b \<le> 32" if "b \<in> set bs" for b
    using that range unfolding assms(4) by (auto simp: nat_le_iff)
  have "longest_match nets (\<lambda>i. applies srcGroups i groups) (V4 a)
      (first_some (\<lambda>b. hs_lookup s (ipKey (V4 a) (int b)) groups srcGroups None) bs)"
    using nets b32 by (intro longest_match_lookup [OF assms(1-4)] key_V4_Contains) (auto dest: range)
  with False t show ?thesis by (simp add: it_lookup_def)
qed

text \<open>
  User IP rules on IPv4 answer addresses. A tier of the compiled rules answers with a rule
  of that action whose network is a longest one containing the address among the rules that
  share a group with the client, and with nothing iff there is no such rule; the hash keys
  introduce no false match.
\<close>

theorem ip_rules_longest_match:
  assumes "tier < numIPTiers"
    and PP: "\<And>s q. ParsePrefix s = Some q \<Longrightarrow> pfx_Addr q \<noteq> NoAddr \<and> 0 \<le> pfx_Bits q \<and> pfx_Bits q \<le> BitLen (pfx_Addr q)"
    and PA: "\<And>s ip. ParseAddr s = Some ip \<Longrightarrow> ip \<noteq> NoAddr"
  shows "let m = buildIPRuleMatcher ParsePrefix ParseAddr rules in
    longest_match (ipRule_nets (canonicalPrefix ParsePrefix ParseAddr) rules tier 0)
      (\<lambda>i. applies (im_groups m) i groups) (V4 a) (it_lookup (im_tiers m ! tier) (V4 a) groups (im_groups m))"
proof -
  let ?ns = "ipRule_nets (canonicalPrefix ParsePrefix ParseAddr) rules tier 0"
  have "pfx_wf p \<and> Is4 (pfx_Addr p)" if "(i, p) \<in> set ?ns" for i p
    using that canonicalPrefix_wf PP PA
    by (auto simp: ipRule_nets_def map_filter_SomeD ip_family_def split: option.splits if_splits)
  moreover have "set (nets_bits ?ns) = {nat (pfx_Bits p) | i p. (i, p) \<in> set ?ns}"
    by (auto simp: nets_bits_def)
  ultimately show ?thesis
    unfolding Let_def
    by (intro longest_match_V4_tier [where s = "nets_set ?ns" and bs = "nets_bits ?ns"])
      (use assms(1) in \<open>auto simp: nets_set_wf nets_set_entries nets_bits_def ipBitsOf_desc buildIPRuleMatcher_def Let_def\<close>)
qed

definition ex_ParsePrefix :: "string \<Rightarrow> pfx option" where
  "ex_ParsePrefix s = (if s = ''93.0.0.0/8'' then Some (Pfx (V4 0x5D000000) 8)
     else if s = ''93.184.0.0/16'' then Some (Pfx (V4 0x5DB80000) 16) else None)"

definition ex_ip_rules :: "ipRuleEntry list" where
  "ex_ip_rules = [\<lparr>ir_id = 7, ir_action = ActionBlock, ir_pattern = ''93.0.0.0/8'', ir_groups = [1]\<rparr>,
     \<lparr>ir_id = 9, ir_action = ActionBlock, ir_pattern = ''93.184.0.0/16'', ir_groups = [1]\<rparr>]"

theorem ip_rules_longest_match_witness:
  "let m = buildIPRuleMatcher ex_ParsePrefix (\<lambda>s. None) ex_ip_rules in
    longest_match (ipRule_nets (canonicalPrefix ex_ParsePrefix (\<lambda>s. None)) ex_ip_rules 1 0)
      (\<lambda>i. applies (im_groups m) i [1]) (V4 0x5DB8D822) (it_lookup (im_tiers m ! 1) (V4 0x5DB8D822) [1] (im_groups m)) \<and>
    it_lookup (im_tiers m ! 1) (V4 0x5DB8D822) [1] (im_groups m) = Some 1"
proof -
  have "it_lookup (im_tiers (buildIPRuleMatcher ex_ParsePrefix (\<lambda>s. None) ex_ip_rules) ! 1) (V4 0x5DB8D822) [1]
      (im_groups (buildIPRuleMatcher ex_ParsePrefix (\<lambda>s. None) ex_ip_rules)) = Some 1"
    by code_simp
  moreover have "pfx_Addr q \<noteq> NoAddr \<and> 0 \<le> pfx_Bits q \<and> pfx_Bits q \<le> BitLen (pfx_Addr q)"
    if "ex_ParsePrefix s = Some q" for s q
    using that by (auto simp: ex_ParsePrefix_def split: if_splits)
  ultimately show ?thesis
    using ip_rules_longest_match [of 1 ex_ParsePrefix "\<lambda>s. None" ex_ip_rules "[1]" "0x5DB8D822"]
    by (simp add: numIPTiers_def Let_def)
qed

section \<open>Address lists, from the lines to the lookup\<close>

text \<open>The tier and network a line contributes, and the networks of the lines of a list.\<close>

definition ip_line_net ::
  "(string \<Rightarrow> pfx option) \<Rightarrow> (string \<Rightarrow> addr option) \<Rightarrow> listFormat \<Rightarrow> string option \<Rightarrow> (nat \<times> pfx) option" where
  "ip_line_net PP PA f line = (case line of None \<Rightarrow> None | Some l \<Rightarrow>
     (case parseIPLine PP PA l of
        (Some e, lineOK) \<Rightarrow>
          let tier = (if ie_allow e \<or> lf_kind f = ''allow'' then ipTierAllow else ipTierBlock) in
          if tier = ipTierBlock \<and> ipGuarded (ie_prefix e) then None else Some (tier, ie_prefix e)
      | _ \<Rightarrow> None))"

definition ip_list_nets ::
  "(string \<Rightarrow> pfx option) \<Rightarrow> (string \<Rightarrow> addr option) \<Rightarrow> nat \<Rightarrow> nat \<Rightarrow> listFormat \<times> string option list \<Rightarrow> pfx list" where
  "ip_list_nets PP PA tier fam l =
     map snd (filter (\<lambda>(t, p). t = tier \<and> ip_family p = fam) (List.map_filter (ip_line_net PP PA (fst l)) (snd l)))"

definition ips_shape :: "'re parsed \<Rightarrow> bool" where
  "ips_shape res \<longleftrightarrow> length (p_ips res) = numIPTiers \<and> length (p_ipBits res) = numIPTiers \<and>
     (\<forall>t < numIPTiers. length (p_ips res ! t) = 2 \<and> length (p_ipBits res ! t) = 2)"

lemma ip_family_lt [simp]: "ip_family p < 2"
  by (simp add: ip_family_def)

lemma ip_line_net_tier: "ip_line_net PP PA f line = Some (t, p) \<Longrightarrow> t < numIPTiers"
  by (auto simp: ip_line_net_def Let_def tier_defs split: option.splits prod.splits lineStatus.splits if_splits)

lemma parseIPList_line_ips:
  "p_ips (parseIPList_line PP PA f line res) = (case ip_line_net PP PA f line of
      None \<Rightarrow> p_ips res
    | Some (t, p) \<Rightarrow> append_cell t (ip_family p) (ipKey (pfx_Addr p) (pfx_Bits p)) (p_ips res))"
  "p_ipBits (parseIPList_line PP PA f line res) = (case ip_line_net PP PA f line of
      None \<Rightarrow> p_ipBits res
    | Some (t, p) \<Rightarrow> append_cell t (ip_family p) (nat (pfx_Bits p)) (p_ipBits res))"
  by (auto simp: parseIPList_line_def ip_line_net_def Let_def split: option.splits prod.splits lineStatus.splits)

lemma parseIPList_line_shape [inv_intros]: "ips_shape res \<Longrightarrow> ips_shape (parseIPList_line PP PA f line res)"
  by (auto simp: ips_shape_def parseIPList_line_ips split: option.splits)

lemma fold_parseIPList_line:
  assumes "ips_shape res" and "t < numIPTiers" and "fam < 2"
  shows "ips_shape (fold (parseIPList_line PP PA f) ls res) \<and>
     p_ips (fold (parseIPList_line PP PA f) ls res) ! t ! fam =
       p_ips res ! t ! fam @ map (\<lambda>p. ipKey (pfx_Addr p) (pfx_Bits p)) (ip_list_nets PP PA t fam (f, ls)) \<and>
     p_ipBits (fold (parseIPList_line PP PA f) ls res) ! t ! fam =
       p_ipBits res ! t ! fam @ map (\<lambda>p. nat (pfx_Bits p)) (ip_list_nets PP PA t fam (f, ls))"
  using assms(1)
proof (induction ls arbitrary: res)
  case Nil
  then show ?case by (simp add: ip_list_nets_def map_filter_simps)
next
  case (Cons l ls)
  show ?case
  proof (cases "ip_line_net PP PA f l")
    case None
    then show ?thesis
      using Cons.IH [OF parseIPList_line_shape [OF Cons.prems]]
      by (simp add: parseIPList_line_ips ip_list_nets_def map_filter_simps)
  next
    case (Some tp)
    obtain t' p where tp: "tp = (t', p)" by (cases tp)
    have "t' < numIPTiers" using ip_line_net_tier Some tp by blast
    then show ?thesis
      using Cons.IH [OF parseIPList_line_shape [OF Cons.prems]] Some tp Cons.prems
      by (auto simp: parseIPList_line_ips ip_list_nets_def map_filter_simps append_cell_nth ips_shape_def)
  qed
qed

lemma ips_shape_new: "ips_shape (new_parsed f)"
  by (simp add: ips_shape_def new_parsed_def)

lemma new_parsed_cells: "t < numIPTiers \<Longrightarrow> fam < 2 \<Longrightarrow> p_ips (new_parsed f) ! t ! fam = [] \<and> p_ipBits (new_parsed f) ! t ! fam = []"
  by (auto simp: new_parsed_def less_2_cases_iff)

lemma parseIPList_cells:
  assumes "t < numIPTiers" and "fam < 2"
  shows "p_ips (parseIPList PP PA f ls :: 're parsed) ! t ! fam =
      sort_compact (map (\<lambda>p. ipKey (pfx_Addr p) (pfx_Bits p)) (ip_list_nets PP PA t fam (f, ls)))"
    and "p_ipBits (parseIPList PP PA f ls :: 're parsed) ! t ! fam =
      filter (\<lambda>b. b \<in> set (map (\<lambda>p. nat (pfx_Bits p)) (ip_list_nets PP PA t fam (f, ls)))) (rev [0..<129])"
proof -
  define res where "res = fold (parseIPList_line PP PA f) ls (new_parsed f :: 're parsed)"
  have r: "ips_shape res"
    "p_ips res ! t ! fam = map (\<lambda>p. ipKey (pfx_Addr p) (pfx_Bits p)) (ip_list_nets PP PA t fam (f, ls))"
    "p_ipBits res ! t ! fam = map (\<lambda>p. nat (pfx_Bits p)) (ip_list_nets PP PA t fam (f, ls))"
    using fold_parseIPList_line [OF ips_shape_new [of f] assms, where 'a = 're, of PP PA f ls] new_parsed_cells [OF assms, of f]
    by (auto simp: res_def)
  have shape: "t < length (p_ips res)" "fam < length (p_ips res ! t)" "t < length (p_ipBits res)" "fam < length (p_ipBits res ! t)"
    using r(1) assms by (auto simp: ips_shape_def)
  show "p_ips (parseIPList PP PA f ls :: 're parsed) ! t ! fam =
      sort_compact (map (\<lambda>p. ipKey (pfx_Addr p) (pfx_Bits p)) (ip_list_nets PP PA t fam (f, ls)))"
    using r shape by (simp add: parseIPList_def Let_def flip: res_def)
  show "p_ipBits (parseIPList PP PA f ls :: 're parsed) ! t ! fam =
      filter (\<lambda>b. b \<in> set (map (\<lambda>p. nat (pfx_Bits p)) (ip_list_nets PP PA t fam (f, ls)))) (rev [0..<129])"
    using r shape by (simp add: parseIPList_def Let_def flip: res_def)
qed

lemma ip_line_net_wf:
  assumes "ip_line_net PP PA f line = Some (t, p)"
    and "\<And>s q. PP s = Some q \<Longrightarrow> pfx_Addr q \<noteq> NoAddr \<and> 0 \<le> pfx_Bits q \<and> pfx_Bits q \<le> BitLen (pfx_Addr q)"
    and "\<And>s ip. PA s = Some ip \<Longrightarrow> ip \<noteq> NoAddr"
  shows "pfx_wf p"
proof -
  obtain l e where "parseIPLine PP PA l = (Some e, lineOK)" "p = ie_prefix e"
    using assms(1) by (auto simp: ip_line_net_def Let_def split: option.splits prod.splits lineStatus.splits if_splits)
  then obtain s where "canonicalPrefix PP PA s = Some p"
    by (auto simp: parseIPLine_def Let_def split: option.splits prod.splits if_splits)
  then show ?thesis using canonicalPrefix_wf assms(2,3) by blast
qed

text \<open>The networks of a tier over all lists, each with the position of its list.\<close>

definition ip_lists_nets ::
  "(string \<Rightarrow> pfx option) \<Rightarrow> (string \<Rightarrow> addr option) \<Rightarrow> nat \<Rightarrow> nat \<Rightarrow> (listFormat \<times> string option list) list \<Rightarrow>
   (nat \<times> pfx) list" where
  "ip_lists_nets PP PA tier fam als =
     concat (map (\<lambda>(i, l). map (Pair i) (ip_list_nets PP PA tier fam l)) (enumerate 0 als))"

lemma set_ip_lists_nets:
  "(i, p) \<in> set (ip_lists_nets PP PA tier fam als) \<longleftrightarrow>
   i < length als \<and> p \<in> set (ip_list_nets PP PA tier fam (als ! i))"
proof
  assume "(i, p) \<in> set (ip_lists_nets PP PA tier fam als)"
  then show "i < length als \<and> p \<in> set (ip_list_nets PP PA tier fam (als ! i))"
    by (auto simp: ip_lists_nets_def in_set_enumerate_eq)
next
  assume h: "i < length als \<and> p \<in> set (ip_list_nets PP PA tier fam (als ! i))"
  then have "(i, als ! i) \<in> set (enumerate 0 als)" by (simp add: in_set_enumerate_eq)
  with h show "(i, p) \<in> set (ip_lists_nets PP PA tier fam als)"
    unfolding ip_lists_nets_def set_concat set_map by (intro UN_I [of "map (Pair i) (ip_list_nets PP PA tier fam (als ! i))"]) force+
qed


definition ex_ip_list :: "listFormat \<times> string option list" where
  "ex_ip_list = (formatOf ''block'' ''exact'' ''other'' ''ips'', [Some ''# addresses'', Some ''93.184.0.0/16 # x'', None])"


end
