(* ===== verification/ListParser.thy ===== *)
theory ListParser
  imports IpSets "HOL-Library.List_Lexorder"
begin

text \<open>
  The line parser of filter lists, \<^verbatim>\<open>internal/dns/filter/parse.go\<close>: hosts lines, plain domains,
  Adblock-style rules and regular expressions with their modifiers, and the guard against rules
  that would block a whole top-level domain or public suffix. Code outside the repository is a
  record of arguments: the public suffix list, the record types of the DNS library, the address
  parser and the regular-expression engine.
\<close>

section \<open>The libraries the parser calls\<close>

record 're libs =
  ParseAddr :: "string \<Rightarrow> addr option"
  ParsePrefix :: "string \<Rightarrow> pfx option"
  PublicSuffix :: "string \<Rightarrow> string \<times> bool"
  StringToType :: "string \<Rightarrow> u16 option"
  QTypeName :: "u16 \<Rightarrow> string"
  syntax_Parse :: "string \<Rightarrow> regexp option"
  Simplify :: "regexp \<Rightarrow> regexp"
  regexp_Compile :: "string \<Rightarrow> 're option"
  re_String :: "'re \<Rightarrow> string"
  re_MatchString :: "'re \<Rightarrow> string \<Rightarrow> bool"
  unicode_lower :: "nat \<Rightarrow> nat"

text \<open>\<^verbatim>\<open>utf8.ValidString\<close>: the well-formed byte sequences of Unicode.\<close>

definition cont :: "nat \<Rightarrow> nat \<Rightarrow> char \<Rightarrow> bool" where
  "cont lo hi c \<longleftrightarrow> lo \<le> of_char c \<and> of_char c \<le> hi"

fun utf8_ValidString :: "string \<Rightarrow> bool" where
  "utf8_ValidString [] = True"
| "utf8_ValidString (a # s) =
     (let n = (of_char a :: nat); tail = cont 128 191 in
      if n < 128 then utf8_ValidString s
      else case s of
          b # s1 \<Rightarrow>
            if 194 \<le> n \<and> n \<le> 223 then tail b \<and> utf8_ValidString s1
            else (case s1 of
                c # s2 \<Rightarrow>
                  if 224 \<le> n \<and> n \<le> 239 then
                    cont (if n = 224 then 160 else 128) (if n = 237 then 159 else 191) b \<and> tail c \<and> utf8_ValidString s2
                  else (case s2 of
                      d # s3 \<Rightarrow>
                        240 \<le> n \<and> n \<le> 244 \<and>
                        cont (if n = 240 then 144 else 128) (if n = 244 then 143 else 191) b \<and> tail c \<and> tail d \<and> utf8_ValidString s3
                    | [] \<Rightarrow> False)
              | [] \<Rightarrow> False)
        | [] \<Rightarrow> False)"

definition hasNonASCII :: "string \<Rightarrow> bool" where
  "hasNonASCII s \<longleftrightarrow> list_ex (\<lambda>c. 128 \<le> (of_char c :: nat)) s"

section \<open>Regular expressions\<close>

datatype regex_error = errParse | errTooComplex

definition compileRegex :: "'re libs \<Rightarrow> string \<Rightarrow> int \<Rightarrow> regex_error + 're \<times> int" where
  "compileRegex L src maxCost =
     (case syntax_Parse L src of
        None \<Rightarrow> Inl errParse
      | Some re \<Rightarrow>
          let cost = regexCost re in
          if cost > min maxCost maxRegexCost then Inl errTooComplex
          else case regexp_Compile L src of None \<Rightarrow> Inl errParse | Some rx \<Rightarrow> Inr (rx, cost))"

section \<open>The guard of top-level domains\<close>

definition junkHosts :: "string list" where
  "junkHosts = [''localhost'', ''localhost.localdomain'', ''local'', ''broadcasthost'', ''ip6-localhost'', ''ip6-loopback'',
     ''ip6-localnet'', ''ip6-mcastprefix'', ''ip6-allnodes'', ''ip6-allrouters'', ''ip6-allhosts'', ''0.0.0.0'']"

record lineParser =
  lp_plainSubtree :: bool
  lp_tldGuard :: bool
  lp_allowList :: bool

definition newLineParser :: "listFormat \<Rightarrow> lineParser" where
  "newLineParser f = \<lparr>lp_plainSubtree = (lf_plain f = ''subtree''), lp_tldGuard = lf_tldGuard f, lp_allowList = (lf_kind f = ''allow'')\<rparr>"

definition broadDomain :: "'re libs \<Rightarrow> string \<Rightarrow> bool" where
  "broadDomain L d =
     (if \<not> strings_Contains d ''.'' then True
      else let (ps, icann) = PublicSuffix L d in icann \<and> ps = d)"

definition probeLabel :: string where "probeLabel = ''zz9probe''"

definition probeSuffixes :: "string list" where
  "probeSuffixes = [''com'', ''net'', ''org'', ''de'', ''co.uk'']"

definition icannSuffix :: "'re libs \<Rightarrow> string \<Rightarrow> string" where
  "icannSuffix L lit =
     (let d = rev (dropWhile (\<lambda>c. c = CHR ''.'') (rev (dropWhile (\<lambda>c. c = CHR ''.'') lit))) in
      if d = [] then []
      else let (ps, icann) = PublicSuffix L d in if icann then ps else [])"

text \<open>The expression is compiled at most once; compiling it again gives the same result.\<close>

definition matches_probe :: "'re libs \<Rightarrow> entry \<Rightarrow> string \<Rightarrow> bool" where
  "matches_probe L e sfx =
     list_ex (\<lambda>name. strings_Contains name (e_lit e) \<and>
         (case regexp_Compile L (e_source e) of None \<Rightarrow> False | Some re \<Rightarrow> re_MatchString L re name))
       [probeLabel @ ''.'' @ sfx, ''www.'' @ probeLabel @ ''.'' @ sfx]"

definition broadPattern :: "'re libs \<Rightarrow> entry \<Rightarrow> bool" where
  "broadPattern L e =
     (case syntax_Parse L (e_source e) of
        None \<Rightarrow> False
      | Some tree \<Rightarrow>
          if regexCost tree > maxRegexCost then False
          else if list_ex (matches_probe L e) probeSuffixes then True
          else anyLiteral (unicode_lower L) tree (\<lambda>lit. let s = icannSuffix L lit in s \<noteq> [] \<and> matches_probe L e s))"

section \<open>Modifiers\<close>

definition parse_uint16 :: "string \<Rightarrow> nat option" where
  "parse_uint16 n =
     (if n \<noteq> [] \<and> list_all (\<lambda>c. CHR ''0'' \<le> c \<and> c \<le> CHR ''9'') n
      then let v = foldl (\<lambda>v c. 10 * v + (of_char c - 48)) 0 n in if v < 65536 then Some v else None
      else None)"

text \<open>\<^verbatim>\<open>settings.ParseQType\<close>.\<close>

definition ParseQType :: "'re libs \<Rightarrow> string \<Rightarrow> u16 option" where
  "ParseQType L s =
     (let typ = strings_ToUpper (strings_TrimSpace s) in
      case strings_CutPrefix typ ''TYPE'' of
        Some n \<Rightarrow>
          if n \<noteq> [] then
            (case parse_uint16 n of
               None \<Rightarrow> None
             | Some v \<Rightarrow> if v = 0 \<or> (length n > 1 \<and> hd n = CHR ''0'') then None else Some (of_nat v))
          else (case StringToType L typ of None \<Rightarrow> None | Some t \<Rightarrow> if t = 0 then None else Some t)
      | None \<Rightarrow> (case StringToType L typ of None \<Rightarrow> None | Some t \<Rightarrow> if t = 0 then None else Some t))"

text \<open>The loop of \<^verbatim>\<open>parseDNSType\<close> over the parts: the types in order and the number of negations.\<close>

fun dnstype_parts :: "'re libs \<Rightarrow> string list \<Rightarrow> u16 list \<Rightarrow> nat \<Rightarrow> (u16 list \<times> nat) option" where
  "dnstype_parts L [] types negated = Some (types, negated)"
| "dnstype_parts L (p # ps) types negated =
     (let part = strings_TrimSpace p;
          (part, negated) = (case strings_CutPrefix part ''~'' of None \<Rightarrow> (part, negated) | Some rest \<Rightarrow> (rest, negated + 1)) in
      if part = [] then None
      else case ParseQType L part of
          None \<Rightarrow> None
        | Some t \<Rightarrow> dnstype_parts L ps (if t \<in> set types then types else types @ [t]) negated)"

definition parseDNSType :: "'re libs \<Rightarrow> string \<Rightarrow> lineStatus + u16 list \<times> bool" where
  "parseDNSType L v =
     (let parts = strings_Split (CHR ''|'') v in
      case dnstype_parts L parts [] 0 of
        None \<Rightarrow> Inl lineInvalid
      | Some (types, negated) \<Rightarrow>
          if negated \<noteq> 0 \<and> negated \<noteq> length parts then Inl lineInvalid
          else if length types > maxEntryTypes then Inl lineUnsupported
          else Inr (types, negated > 0))"

definition parseDenyallow :: "string \<Rightarrow> lineStatus + string list" where
  "parseDenyallow v =
     (let ds = map normalizeName (strings_Split (CHR ''|'') v) in
      if \<not> list_all validDomain ds then Inl lineInvalid
      else let out = sort_compact ds in
        if length out > maxDenyallow then Inl lineUnsupported else Inr out)"

record opt_state =
  os_entry :: entry
  os_seenTypes :: bool
  os_seenDeny :: bool

text \<open>One option of a rule, then all of them.\<close>

definition parseOption :: "'re libs \<Rightarrow> string \<Rightarrow> opt_state \<Rightarrow> lineStatus + opt_state" where
  "parseOption L opt st =
     (let opt = strings_TrimSpace opt; e = os_entry st;
          (name, val) = (case strings_CutByte opt (CHR ''='') of None \<Rightarrow> (opt, None) | Some (n, v) \<Rightarrow> (n, Some v)) in
      case val of
        None \<Rightarrow>
          if name = ''important'' then Inr (st\<lparr>os_entry := e\<lparr>e_important := True\<rparr>\<rparr>)
          else if name = ''badfilter'' then Inr (st\<lparr>os_entry := e\<lparr>e_badfilter := True\<rparr>\<rparr>)
          else Inl lineUnsupported
      | Some v \<Rightarrow>
          if name = ''dnstype'' then
            if os_seenTypes st then Inl lineInvalid
            else case parseDNSType L v of
                Inl s \<Rightarrow> Inl s
              | Inr (types, negate) \<Rightarrow> Inr (st\<lparr>os_entry := e\<lparr>e_types := newTypeSet types negate\<rparr>, os_seenTypes := True\<rparr>)
          else if name = ''denyallow'' then
            if os_seenDeny st then Inl lineInvalid
            else case parseDenyallow v of
                Inl s \<Rightarrow> Inl s
              | Inr deny \<Rightarrow> Inr (st\<lparr>os_entry := e\<lparr>e_deny := deny\<rparr>, os_seenDeny := True\<rparr>)
          else Inl lineUnsupported)"

fun parseOptions_loop :: "'re libs \<Rightarrow> string list \<Rightarrow> opt_state \<Rightarrow> lineStatus + entry" where
  "parseOptions_loop L [] st = Inr (os_entry st)"
| "parseOptions_loop L (opt # opts) st =
     (case parseOption L opt st of Inl s \<Rightarrow> Inl s | Inr st' \<Rightarrow> parseOptions_loop L opts st')"

definition parseOptions :: "'re libs \<Rightarrow> string \<Rightarrow> entry \<Rightarrow> lineStatus + entry" where
  "parseOptions L opts e =
     (if opts = [] then Inl lineInvalid
      else parseOptions_loop L (strings_Split (CHR '','') opts) \<lparr>os_entry = e, os_seenTypes = False, os_seenDeny = False\<rparr>)"

section \<open>Lines\<close>

definition lp_add :: "'re libs \<Rightarrow> lineParser \<Rightarrow> entry \<Rightarrow> entry list \<times> lineStatus" where
  "lp_add L p e =
     (if lp_tldGuard p \<and> \<not> e_allow e \<and> \<not> e_badfilter e \<and>
         (e_kind e = kindSubtree \<and> broadDomain L (e_domain e) \<or> e_kind e = kindPattern \<and> broadPattern L e)
      then ([], lineBroad)
      else if e_modified e \<and>
         (e_kind e = kindPattern \<or> length (e_deny e) > 0 \<and> (e_allow e \<or> lp_allowList p \<or> e_kind e \<noteq> kindSubtree))
      then ([], lineUnsupported)
      else ([e], lineOK))"

text \<open>\<^verbatim>\<open>regexp.QuoteMeta\<close>.\<close>

definition QuoteMeta :: "string \<Rightarrow> string" where
  "QuoteMeta s = concat (map (\<lambda>c. if c \<in> set [CHR 0x5C, CHR ''.'', CHR ''+'', CHR ''*'', CHR ''?'', CHR ''('', CHR '')'',
       CHR ''|'', CHR ''['', CHR '']'', CHR ''{'', CHR ''}'', CHR ''^'', CHR ''$''] then [CHR 0x5C, c] else [c]) s)"

definition abp_prefix :: "string \<Rightarrow> string \<times> string" where
  "abp_prefix s =
     (if strings_HasPrefix s ''||'' then (''^(?:[^.]+'' @ [CHR 0x5C] @ ''.)*'', drop 2 s)
      else if strings_HasPrefix s ''://'' then (''^'', drop 3 s)
      else if strings_HasPrefix s ''|'' then (''^'', drop 1 s)
      else ([], s))"

definition cut_anchor :: "string \<Rightarrow> string \<times> bool \<Rightarrow> string \<times> bool" where
  "cut_anchor a sa = (case strings_CutSuffix (fst sa) a of None \<Rightarrow> sa | Some t \<Rightarrow> (t, True))"

text \<open>The check of the characters: whether a letter or digit occurs, or the status of a bad one.\<close>

fun abp_chars :: "string \<Rightarrow> bool \<Rightarrow> lineStatus + bool" where
  "abp_chars [] alnum = Inr alnum"
| "abp_chars (c # s) alnum =
     (if CHR ''a'' \<le> c \<and> c \<le> CHR ''z'' \<or> CHR ''0'' \<le> c \<and> c \<le> CHR ''9'' then abp_chars s True
      else if c = CHR ''.'' \<or> c = CHR ''-'' \<or> c = CHR ''_'' \<or> c = CHR ''*'' then abp_chars s alnum
      else if c = CHR ''^'' \<or> c = CHR ''|'' then Inl lineInvalid
      else Inl lineUnsupported)"

definition abpToRegex :: "string \<Rightarrow> lineStatus + string \<times> string" where
  "abpToRegex s0 =
     (let (b, s1) = abp_prefix s0;
          (s, anchorEnd) = cut_anchor ''^'' (cut_anchor ''|'' (s1, False)) in
      case abp_chars s False of
        Inl st \<Rightarrow> Inl st
      | Inr alnum \<Rightarrow>
          if \<not> alnum then Inl lineInvalid
          else let frags = strings_Split (CHR ''*'') s in
            Inr (b @ strings_Join ''.*'' (map QuoteMeta frags) @ (if anchorEnd then ''$'' else []), longer frags []))"

definition isCosmetic :: "string \<Rightarrow> bool" where
  "isCosmetic s = list_ex (strings_Contains s) [''##'', ''#@#'', ''#$#'', ''#?#'', ''#%#'']"

definition isRegexLine :: "string \<Rightarrow> bool" where
  "isRegexLine s =
     (let t = strings_TrimPrefix s ''@@'' in
      length t \<ge> 2 \<and> hd t = CHR ''/'' \<and> (case strings_LastIndexByte t (CHR ''/'') of None \<Rightarrow> False | Some i \<Rightarrow> i > 0))"

definition host_entry :: "string \<Rightarrow> entry" where
  "host_entry d = no_entry\<lparr>e_kind := kindExact, e_domain := d\<rparr>"

text \<open>The tokens of a hosts line that are not junk, and the entries they give.\<close>

definition host_names :: "string \<Rightarrow> string list" where
  "host_names rest = filter (\<lambda>d. d \<notin> set junkHosts) (map (\<lambda>tok. strings_TrimSuffix tok ''.'') (strings_Fields rest))"

definition valid_host :: "string \<Rightarrow> bool" where
  "valid_host d \<longleftrightarrow> validDomain d \<and> strings_Contains d ''.''"

definition parseHosts :: "'re libs \<Rightarrow> string \<Rightarrow> string \<Rightarrow> entry list \<times> lineStatus" where
  "parseHosts L first rest =
     (if ParseAddr L first = None then ([], lineInvalid)
      else let ds = host_names rest; es = map host_entry (filter valid_host ds) in
        if length es > 0 then (es, lineOK)
        else if list_ex (\<lambda>d. \<not> valid_host d) ds \<or> strings_TrimSpace rest = [] then ([], lineInvalid)
        else ([], lineSkip))"

text \<open>The options after the closing slash at \<open>i\<close>, and the expression itself.\<close>

definition regex_options :: "'re libs \<Rightarrow> string \<Rightarrow> nat \<Rightarrow> entry \<Rightarrow> lineStatus + entry" where
  "regex_options L s i e =
     (if i = length s - 1 then Inr e
      else if s ! (i + 1) \<noteq> CHR ''$'' then Inl lineUnsupported
      else parseOptions L (strings_ToLower (drop (i + 2) s)) e)"

definition regex_entry :: "'re libs \<Rightarrow> lineParser \<Rightarrow> string \<Rightarrow> entry \<Rightarrow> entry list \<times> lineStatus" where
  "regex_entry L p re e =
     (if re = [] then ([], lineInvalid)
      else if length re > maxRegexLen then ([], lineUnsupported)
      else case syntax_Parse L (''(?i)'' @ re) of
          None \<Rightarrow> ([], lineInvalid)
        | Some tree \<Rightarrow>
            if regexCost tree > maxRegexCost then ([], lineUnsupported)
            else lp_add L p (e\<lparr>e_re := re, e_lit := requiredLiteral (unicode_lower L) (Simplify L tree)\<rparr>))"

definition parseRegex :: "'re libs \<Rightarrow> lineParser \<Rightarrow> string \<Rightarrow> entry list \<times> lineStatus" where
  "parseRegex L p s0 =
     (let allow = strings_HasPrefix s0 ''@@'';
          s = (if allow then drop 2 s0 else s0);
          e = no_entry\<lparr>e_kind := kindPattern, e_regex := True, e_allow := allow\<rparr> in
      case strings_LastIndexByte s (CHR ''/'') of
        None \<Rightarrow> ([], lineInvalid)
      | Some i \<Rightarrow>
          if i < 1 then ([], lineInvalid)
          else case regex_options L s i e of
              Inl st \<Rightarrow> ([], st)
            | Inr e' \<Rightarrow> regex_entry L p (drop 1 (take i s)) e')"

definition parse_pattern :: "'re libs \<Rightarrow> lineParser \<Rightarrow> entry \<Rightarrow> string \<Rightarrow> entry list \<times> lineStatus" where
  "parse_pattern L p e s =
     (case abpToRegex s of
        Inl st \<Rightarrow> ([], st)
      | Inr (re, lit) \<Rightarrow> lp_add L p (e\<lparr>e_kind := kindPattern, e_re := re, e_lit := lit\<rparr>))"

definition contains_any :: "string \<Rightarrow> string \<Rightarrow> bool" where
  "contains_any s chars = list_ex (\<lambda>c. c \<in> set chars) s"

definition parse_body :: "'re libs \<Rightarrow> lineParser \<Rightarrow> entry \<Rightarrow> string \<Rightarrow> entry list \<times> lineStatus" where
  "parse_body L p e s =
     (let abp = e_allow e \<or> e_important e \<or> e_badfilter e \<or> e_modified e in
      if strings_HasPrefix s ''||'' then
        (case strings_CutSuffix (strings_TrimSuffix (drop 2 s) ''|'') ''^'' of
           Some d \<Rightarrow> if validDomain d then lp_add L p (e\<lparr>e_kind := kindSubtree, e_domain := d\<rparr>) else parse_pattern L p e s
         | None \<Rightarrow> parse_pattern L p e s)
      else if strings_HasPrefix s ''|'' then
        (let (body, anchored) = (case strings_CutSuffix (drop 1 s) ''|'' of None \<Rightarrow> (drop 1 s, False) | Some t \<Rightarrow> (t, True));
             (d, sep) = (case strings_CutSuffix body ''^'' of None \<Rightarrow> (body, False) | Some t \<Rightarrow> (t, True)) in
         if (anchored \<or> sep) \<and> validDomain d then lp_add L p (e\<lparr>e_kind := kindExact, e_domain := d\<rparr>) else parse_pattern L p e s)
      else if strings_HasPrefix s ''*.'' \<and> validDomain (drop 2 s) then
        lp_add L p (e\<lparr>e_kind := kindSubtree, e_domain := drop 2 s\<rparr>)
      else if \<not> contains_any s ''*^|:/'' then
        (let d = strings_TrimSuffix s ''.'' in
         if d \<in> set junkHosts \<and> \<not> abp then ([], lineSkip)
         else if \<not> validDomain d \<or> \<not> strings_Contains d ''.'' then ([], lineInvalid)
         else lp_add L p (e\<lparr>e_kind := (if lp_plainSubtree p then kindSubtree else kindExact), e_domain := d\<rparr>))
      else parse_pattern L p e s)"

definition parseABP :: "'re libs \<Rightarrow> lineParser \<Rightarrow> string \<Rightarrow> entry list \<times> lineStatus" where
  "parseABP L p s0 =
     (let allow = strings_HasPrefix s0 ''@@'';
          s = (if allow then drop 2 s0 else s0);
          e = no_entry\<lparr>e_allow := allow\<rparr> in
      case strings_LastIndexByte s (CHR ''$'') of
        None \<Rightarrow> parse_body L p e s
      | Some i \<Rightarrow> (case parseOptions L (drop (i + 1) s) e of
            Inl st \<Rightarrow> ([], st)
          | Inr e' \<Rightarrow> parse_body L p e' (take i s)))"

definition parse_text :: "'re libs \<Rightarrow> lineParser \<Rightarrow> string \<Rightarrow> entry list \<times> lineStatus" where
  "parse_text L p s0 =
     (if \<not> utf8_ValidString s0 \<or> hasNonASCII s0 \<and> \<not> isRegexLine s0 then ([], lineInvalid)
      else if isRegexLine s0 then parseRegex L p s0
      else let s = strings_ToLower s0; i = length (takeWhile (\<lambda>c. c \<noteq> CHR '' '' \<and> c \<noteq> CHR 0x09) s) in
        if i < length s \<and> i > 0 then parseHosts L (take i s) (drop (i + 1) s)
        else if ParseAddr L s \<noteq> None then ([], lineInvalid)
        else parseABP L p s)"

definition lp_parse :: "'re libs \<Rightarrow> lineParser \<Rightarrow> string \<Rightarrow> entry list \<times> lineStatus" where
  "lp_parse L p line =
     (let s = strings_TrimSpace line in
      if s = [] then ([], lineSkip)
      else if hd s \<in> {CHR ''!'', CHR ''#'', CHR '';'', CHR ''[''} then ([], lineSkip)
      else if isCosmetic s then ([], lineSkip)
      else case strip_comment s of None \<Rightarrow> ([], lineSkip) | Some t \<Rightarrow> parse_text L p t)"

section \<open>Well-formed entries\<close>

definition opts_ok :: "entry \<Rightarrow> bool" where
  "opts_ok e \<longleftrightarrow> ts_wf (e_types e) \<and> sorted (e_deny e) \<and> distinct (e_deny e) \<and> length (e_deny e) \<le> maxDenyallow \<and>
     list_all validDomain (e_deny e)"

definition guard_ok :: "'re libs \<Rightarrow> lineParser \<Rightarrow> entry \<Rightarrow> bool" where
  "guard_ok L p e \<longleftrightarrow> lp_tldGuard p \<longrightarrow> e_allow e \<or> e_badfilter e \<or>
     (e_kind e = kindSubtree \<longrightarrow> \<not> broadDomain L (e_domain e)) \<and> (e_kind e = kindPattern \<longrightarrow> \<not> broadPattern L e)"

definition entry_wf :: "'re libs \<Rightarrow> lineParser \<Rightarrow> entry \<Rightarrow> bool" where
  "entry_wf L p e \<longleftrightarrow> opts_ok e \<and> guard_ok L p e \<and>
     (if e_kind e = kindPattern then \<not> e_modified e else validDomain (e_domain e)) \<and>
     (e_deny e \<noteq> [] \<longrightarrow> e_kind e = kindSubtree \<and> \<not> e_allow e \<and> \<not> lp_allowList p)"

definition parse_ok :: "'re libs \<Rightarrow> lineParser \<Rightarrow> entry list \<times> lineStatus \<Rightarrow> bool" where
  "parse_ok L p res \<longleftrightarrow> (snd res = lineOK \<longleftrightarrow> fst res \<noteq> []) \<and> list_all (entry_wf L p) (fst res)"

lemma parse_ok_none [simp]: "parse_ok L p ([], st) \<longleftrightarrow> st \<noteq> lineOK"
  by (simp add: parse_ok_def)

lemma opts_ok_no_entry: "opts_ok (no_entry\<lparr>e_kind := k, e_regex := r, e_allow := a\<rparr>)"
  "opts_ok (no_entry\<lparr>e_allow := a\<rparr>)" "opts_ok (host_entry d)"
  by (simp_all add: opts_ok_def no_entry_def no_types_def ts_wf_def host_entry_def)

lemma lp_add_ok:
  "opts_ok e \<Longrightarrow> e_kind e = kindPattern \<or> validDomain (e_domain e) \<Longrightarrow> parse_ok L p (lp_add L p e)"
proof -
  have "e_deny e \<noteq> [] \<Longrightarrow> e_modified e" by (simp add: e_modified_def)
  moreover assume "opts_ok e" and "e_kind e = kindPattern \<or> validDomain (e_domain e)"
  ultimately show ?thesis by (auto simp: lp_add_def parse_ok_def entry_wf_def guard_ok_def)
qed

lemma parseDenyallow_ok:
  "parseDenyallow v = Inr ds \<Longrightarrow> sorted ds \<and> distinct ds \<and> length ds \<le> maxDenyallow \<and> list_all validDomain ds"
  by (auto simp: parseDenyallow_def Let_def list_all_iff split: if_splits)

lemma parseDenyallow_err: "parseDenyallow v = Inl st \<Longrightarrow> st \<noteq> lineOK"
  by (auto simp: parseDenyallow_def Let_def split: if_splits)

lemma parseDNSType_err: "parseDNSType L v = Inl st \<Longrightarrow> st \<noteq> lineOK"
  by (auto simp: parseDNSType_def Let_def split: if_splits option.splits)

lemma parseOption_ok:
  "opts_ok (os_entry st) \<Longrightarrow> parseOption L opt st = Inr st' \<Longrightarrow>
   opts_ok (os_entry st') \<and> e_kind (os_entry st') = e_kind (os_entry st) \<and> e_domain (os_entry st') = e_domain (os_entry st)"
  using newTypeSet_wf
  by (auto simp: parseOption_def Let_def opts_ok_def dest: parseDenyallow_ok split: option.splits prod.splits if_splits sum.splits)

lemma parseOption_err: "parseOption L opt st = Inl x \<Longrightarrow> x \<noteq> lineOK"
  by (auto simp: parseOption_def Let_def dest: parseDenyallow_err parseDNSType_err split: option.splits prod.splits if_splits sum.splits)

lemma parseOptions_loop_ok:
  "opts_ok (os_entry st) \<Longrightarrow> parseOptions_loop L opts st = Inr e \<Longrightarrow>
   opts_ok e \<and> e_kind e = e_kind (os_entry st) \<and> e_domain e = e_domain (os_entry st)"
proof (induction opts arbitrary: st)
  case (Cons opt opts)
  then obtain st' where "parseOption L opt st = Inr st'" "parseOptions_loop L opts st' = Inr e"
    by (auto split: sum.splits)
  with Cons.IH [of st'] parseOption_ok [OF Cons.prems(1)] show ?case by fastforce
qed simp

lemma parseOptions_loop_err: "parseOptions_loop L opts st = Inl x \<Longrightarrow> x \<noteq> lineOK"
  by (induction opts arbitrary: st) (auto dest: parseOption_err split: sum.splits)

lemma parseOptions_ok:
  "opts_ok e \<Longrightarrow> parseOptions L s e = Inr e' \<Longrightarrow> opts_ok e' \<and> e_kind e' = e_kind e"
  using parseOptions_loop_ok [of "\<lparr>os_entry = e, os_seenTypes = False, os_seenDeny = False\<rparr>" L _ e']
  by (auto simp: parseOptions_def split: if_splits)

lemma parseOptions_err: "parseOptions L s e = Inl x \<Longrightarrow> x \<noteq> lineOK"
  by (auto simp: parseOptions_def dest: parseOptions_loop_err split: if_splits)

lemma abp_chars_err: "abp_chars s a = Inl x \<Longrightarrow> x \<noteq> lineOK"
  by (induction s a rule: abp_chars.induct) (auto split: if_splits)

lemma abpToRegex_err: "abpToRegex s = Inl x \<Longrightarrow> x \<noteq> lineOK"
  by (auto simp: abpToRegex_def Let_def dest: abp_chars_err split: if_splits sum.splits prod.splits)

lemma opts_ok_upd [simp]:
  "opts_ok (e\<lparr>e_kind := k\<rparr>) = opts_ok e" "opts_ok (e\<lparr>e_domain := d\<rparr>) = opts_ok e"
  "opts_ok (e\<lparr>e_re := r\<rparr>) = opts_ok e" "opts_ok (e\<lparr>e_lit := l\<rparr>) = opts_ok e"
  by (simp_all add: opts_ok_def)

lemma parse_pattern_ok: "opts_ok e \<Longrightarrow> parse_ok L p (parse_pattern L p e s)"
  by (auto simp: parse_pattern_def dest: abpToRegex_err intro!: lp_add_ok split: sum.splits)

lemma parse_ok_if:
  "(b \<Longrightarrow> parse_ok L p x) \<Longrightarrow> (\<not> b \<Longrightarrow> parse_ok L p y) \<Longrightarrow> parse_ok L p (if b then x else y)"
  by simp

lemma parse_body_ok: "opts_ok e \<Longrightarrow> parse_ok L p (parse_body L p e s)"
  unfolding parse_body_def Let_def case_prod_beta
  by (intro parse_ok_if) (auto intro!: parse_pattern_ok lp_add_ok split: option.split)

lemma parseABP_ok: "parse_ok L p (parseABP L p s)"
  unfolding parseABP_def Let_def
  by (auto intro!: parse_body_ok opts_ok_no_entry dest: parseOptions_ok [OF opts_ok_no_entry(2)] parseOptions_err split: option.split sum.split)

lemma regex_entry_ok: "opts_ok e \<Longrightarrow> e_kind e = kindPattern \<Longrightarrow> parse_ok L p (regex_entry L p re e)"
  unfolding regex_entry_def by (intro parse_ok_if) (auto intro!: lp_add_ok split: option.split)

lemma regex_options_ok: "opts_ok e \<Longrightarrow> regex_options L s i e = Inr e' \<Longrightarrow> opts_ok e' \<and> e_kind e' = e_kind e"
  using parseOptions_ok [of e L _ e'] by (auto simp: regex_options_def split: if_splits)

lemma regex_options_err: "regex_options L s i e = Inl st \<Longrightarrow> st \<noteq> lineOK"
  by (auto simp: regex_options_def dest: parseOptions_err split: if_splits)

lemma parseRegex_ok: "parse_ok L p (parseRegex L p s)"
proof -
  define e0 where "e0 = no_entry\<lparr>e_kind := kindPattern, e_regex := True, e_allow := strings_HasPrefix s ''@@''\<rparr>"
  have e0: "opts_ok e0" "e_kind e0 = kindPattern" by (simp_all add: e0_def opts_ok_no_entry)
  have "parse_ok L p (case regex_options L t i e0 of Inl st \<Rightarrow> ([], st) | Inr e' \<Rightarrow> regex_entry L p r e')" for t i r
    using regex_options_ok [OF e0(1), of L t i] regex_options_err [of L t i e0] e0(2)
    by (auto intro!: regex_entry_ok split: sum.split)
  then show ?thesis by (auto simp: parseRegex_def Let_def e0_def split: option.split)
qed

lemma parseHosts_ok: "parse_ok L p (parseHosts L first rest)"
proof -
  have "entry_wf L p (host_entry d)" if "valid_host d" for d
    using opts_ok_no_entry(3) [of d] that by (auto simp: entry_wf_def guard_ok_def host_entry_def valid_host_def no_entry_def)
  then show ?thesis by (auto simp: parseHosts_def parse_ok_def Let_def list_all_iff)
qed

lemma parse_text_ok: "parse_ok L p (parse_text L p s)"
  by (simp add: parse_text_def Let_def parseABP_ok parseHosts_ok parseRegex_ok)

lemma lp_parse_ok: "parse_ok L p (lp_parse L p line)"
  by (auto simp: lp_parse_def Let_def parse_text_ok split: option.split)

text \<open>
  C33: every line of every list parses into well-formed entries. A line gives entries exactly when it
  is reported as good; every exact and subtree entry has a valid domain; a pattern has no modifiers;
  type sets are well-formed and \<^verbatim>\<open>$denyallow\<close> domains valid, sorted, unique and at most 32, and only on
  subtree blocks of blocklists; and an entry that the guard of top-level domains refuses never gets
  through.
\<close>

theorem parse_entries_wf:
  "(snd (lp_parse L p line) = lineOK \<longleftrightarrow> fst (lp_parse L p line) \<noteq> []) \<and>
   list_all (entry_wf L p) (fst (lp_parse L p line))"
  using lp_parse_ok [of L p line] by (simp add: parse_ok_def)

section \<open>Printing rules\<close>

definition deny_opt :: "entry \<Rightarrow> string" where
  "deny_opt e = ''denyallow='' @ strings_Join ''|'' (e_deny e)"

definition rule_opts :: "entry \<Rightarrow> string list" where
  "rule_opts e = (if e_important e then [''important''] else []) @ (if e_badfilter e then [''badfilter''] else [])
     @ (if e_deny e \<noteq> [] then [deny_opt e] else [])"

definition rule_body :: "entry \<Rightarrow> string" where
  "rule_body e = (if e_kind e = kindSubtree then ''||'' else ''|'') @ e_domain e @ ''^''"

definition print_rule :: "entry \<Rightarrow> string" where
  "print_rule e = (if e_allow e then ''@@'' else []) @ rule_body e
     @ (if rule_opts e = [] then [] else ''$'' @ strings_Join '','' (rule_opts e))"

definition rule_char :: "char \<Rightarrow> bool" where
  "rule_char c \<longleftrightarrow> label_char c \<or> c \<in> set ''.@|^$,=''"

lemma rule_char_facts:
  assumes "rule_char c"
  shows "of_char c < (128 :: nat)" "\<not> is_space c" "c \<noteq> CHR ''#''" "lower_char c = c" "c \<noteq> CHR ''/''"
proof -
  have le: "of_char c \<le> (122 :: nat)" if "label_char c" using that by (auto simp: label_char_def less_eq_char_def)
  show "of_char c < (128 :: nat)" using assms le by (auto simp: rule_char_def)
  show "\<not> is_space c" "c \<noteq> CHR ''#''" "c \<noteq> CHR ''/''" using assms by (auto simp: rule_char_def label_char_def is_space_def)
  have "\<not> (CHR ''A'' \<le> c \<and> c \<le> CHR ''Z'')" using assms by (auto simp: rule_char_def label_char_def less_eq_char_def)
  then show "lower_char c = c" by (auto simp: lower_char_def)
qed

lemma validDomain_rule_chars: "validDomain d \<Longrightarrow> list_all rule_char d"
  using valid_labels_chars [of d 0] by (fastforce simp: validDomain_def list_all_iff rule_char_def)

lemma list_all_Join: "list_all P sep \<Longrightarrow> list_all (list_all P) ps \<Longrightarrow> list_all P (strings_Join sep ps)"
  by (induction sep ps rule: strings_Join.induct) auto

lemma rule_opts_chars:
  assumes "list_all validDomain (e_deny e)"
  shows "list_all (list_all rule_char) (rule_opts e)"
proof -
  have "list_all rule_char (strings_Join ''|'' (e_deny e))"
    using assms validDomain_rule_chars by (intro list_all_Join) (auto simp: rule_char_def list_all_iff)
  then show ?thesis by (auto simp: rule_opts_def deny_opt_def rule_char_def label_char_def)
qed

lemma print_rule_chars:
  "validDomain (e_domain e) \<Longrightarrow> list_all validDomain (e_deny e) \<Longrightarrow> list_all rule_char (print_rule e)"
  using rule_opts_chars [of e] validDomain_rule_chars [of "e_domain e"]
    list_all_Join [of rule_char "'',''" "rule_opts e"]
  by (auto simp: print_rule_def rule_body_def rule_char_def)

text \<open>Text of rule characters passes the front of the parser unchanged.\<close>

lemma rule_text_front:
  assumes "list_all rule_char s" and "s \<noteq> []" and "hd s = CHR ''@'' \<or> hd s = CHR ''|''"
    and "ParseAddr L s = None" and "\<not> isRegexLine s"
  shows "lp_parse L p s = parseABP L p s"
proof -
  have asc: "ascii s" and sp: "list_all (\<lambda>c. \<not> is_space c) s" and low: "list_all (\<lambda>c. lower_char c = c) s" and hash: "CHR ''#'' \<notin> set s"
    using assms(1) rule_char_facts by (auto simp: ascii_def list_all_iff)
  have hd: "hd s \<notin> {CHR ''!'', CHR ''#'', CHR '';'', CHR ''[''}" using assms(3) by auto
  have "\<not> isCosmetic s"
  proof
    assume "isCosmetic s"
    then have "CHR ''#'' \<in> set s" by (auto simp: isCosmetic_def Contains_iff dest: set_mono_sublist)
    with hash show False by simp
  qed
  moreover have "inlineComment_from c cs i = None" if "CHR ''#'' \<notin> set cs" for c cs i
    using that by (induction c cs i rule: inlineComment_from.induct) auto
  then have "strip_comment s = Some s" using hash by (cases s) (auto simp: strip_comment_def inlineComment_def)
  moreover have "utf8_ValidString s" using asc by (induction s) (simp_all add: ascii_def Let_def)
  moreover have "\<not> hasNonASCII s" using asc by (auto simp: hasNonASCII_def ascii_def list_ex_iff list_all_iff)
  moreover have "length (takeWhile (\<lambda>c. c \<noteq> CHR '' '' \<and> c \<noteq> CHR 0x09) s) = length s"
    using sp by (intro arg_cong [where f = length]) (auto simp: takeWhile_eq_all_conv list_all_iff is_space_def)
  ultimately show ?thesis
    using assms(2,4,5) hd by (simp add: lp_parse_def parse_text_def TrimSpace_id [OF asc sp] ToLower_id [OF asc low] Let_def)
qed

lemma CutSuffix_append [simp]: "strings_CutSuffix (s @ [c]) [c] = Some s"
  by (simp add: strings_CutSuffix_def strings_HasSuffix_def)

lemma CutSuffix_other: "c \<noteq> c' \<Longrightarrow> strings_CutSuffix (s @ [c]) [c'] = None"
  by (simp add: strings_CutSuffix_def strings_HasSuffix_def)

lemma TrimSuffix_other: "c \<noteq> c' \<Longrightarrow> strings_TrimSuffix (s @ [c]) [c'] = s @ [c]"
  by (simp add: strings_TrimSuffix_def CutSuffix_other)

lemma normalizeName_id: "validDomain d \<Longrightarrow> last d \<noteq> CHR ''.'' \<Longrightarrow> normalizeName d = d"
proof -
  assume "validDomain d" and dot: "last d \<noteq> CHR ''.''"
  then have chars: "list_all rule_char d" and ne: "d \<noteq> []" by (simp_all add: validDomain_rule_chars validDomain_nonempty)
  have asc: "ascii d" and sp: "list_all (\<lambda>c. \<not> is_space c) d" and low: "list_all (\<lambda>c. lower_char c = c) d"
    using chars rule_char_facts by (auto simp: ascii_def list_all_iff)
  have "d = butlast d @ [last d]" using ne by simp
  with dot have "strings_TrimSuffix d ''.'' = d" by (metis TrimSuffix_other)
  then show ?thesis by (simp add: normalizeName_def TrimSpace_id [OF asc sp] ToLower_id [OF asc low])
qed

lemma valid_labels_last: "valid_labels cs n \<Longrightarrow> cs \<noteq> [] \<Longrightarrow> last cs \<noteq> CHR ''.''"
  by (induction cs n rule: valid_labels.induct) (auto split: if_splits)

lemma validDomain_last: "validDomain d \<Longrightarrow> last d \<noteq> CHR ''.''"
  by (metis validDomain_def valid_labels_last)

lemma sort_compact_id: "sorted xs \<Longrightarrow> distinct xs \<Longrightarrow> sort_compact xs = xs"
  by (simp add: sort_compact_def sorted_sort_id remdups_adj_distinct)

lemma parseDenyallow_Join:
  assumes "ds \<noteq> []" and "sorted ds" and "distinct ds" and "length ds \<le> maxDenyallow" and "list_all validDomain ds"
  shows "parseDenyallow (strings_Join ''|'' ds) = Inr ds"
proof -
  have "CHR ''|'' \<notin> set d" if "d \<in> set ds" for d
    using that assms(5) valid_labels_chars [of d 0] by (fastforce simp: list_all_iff validDomain_def label_char_def)
  then have "strings_Split (CHR ''|'') (strings_Join ''|'' ds) = ds" using assms(1) by (simp add: Split_Join)
  moreover have "map normalizeName ds = ds"
    using assms(5) by (intro map_idI) (auto simp: list_all_iff normalizeName_id validDomain_last)
  ultimately show ?thesis using assms by (simp add: parseDenyallow_def sort_compact_id Let_def)
qed

lemma parseOption_plain:
  "parseOption L ''important'' st = Inr (st\<lparr>os_entry := (os_entry st)\<lparr>e_important := True\<rparr>\<rparr>)"
  "parseOption L ''badfilter'' st = Inr (st\<lparr>os_entry := (os_entry st)\<lparr>e_badfilter := True\<rparr>\<rparr>)"
  by (simp_all add: parseOption_def Let_def TrimSpace_id ascii_def is_space_def strings_CutByte_def)

lemma parseOption_deny:
  assumes "opts_ok e" and "e_deny e \<noteq> []" and "\<not> os_seenDeny st"
  shows "parseOption L (deny_opt e) st =
    Inr (st\<lparr>os_entry := (os_entry st)\<lparr>e_deny := e_deny e\<rparr>, os_seenDeny := True\<rparr>)"
proof -
  let ?o = "deny_opt e"
  have "?o \<in> set (rule_opts e)" using assms(2) by (simp add: rule_opts_def)
  then have chars: "list_all rule_char ?o" using rule_opts_chars [of e] assms(1) by (simp add: opts_ok_def list_all_iff)
  have "strings_TrimSpace ?o = ?o"
    by (rule TrimSpace_id) (use chars rule_char_facts in \<open>auto simp: ascii_def list_all_iff\<close>)
  moreover have "strings_CutByte ?o (CHR ''='') = Some (''denyallow'', strings_Join ''|'' (e_deny e))"
    by (simp add: strings_CutByte_def deny_opt_def)
  ultimately show ?thesis
    using parseDenyallow_Join [of "e_deny e"] assms by (simp add: parseOption_def Let_def opts_ok_def)
qed

text \<open>The entries a printed rule can stand for: domain entries without a type restriction.\<close>

definition printable :: "entry \<Rightarrow> bool" where
  "printable e \<longleftrightarrow> e_kind e \<noteq> kindPattern \<and> e_re e = [] \<and> e_lit e = [] \<and> \<not> e_regex e \<and> e_types e = no_types"

definition base_entry :: "entry \<Rightarrow> entry" where
  "base_entry e = no_entry\<lparr>e_allow := e_allow e\<rparr>"

lemma parseOptions_loop_rule:
  assumes "opts_ok e" and "printable e"
  shows "parseOptions_loop L (rule_opts e) \<lparr>os_entry = base_entry e, os_seenTypes = False, os_seenDeny = False\<rparr> =
    Inr ((base_entry e)\<lparr>e_important := e_important e, e_badfilter := e_badfilter e, e_deny := e_deny e\<rparr>)"
  by (auto simp: rule_opts_def parseOption_plain parseOption_deny [OF assms(1)] base_entry_def no_entry_def)

lemma rule_opts_sep:
  assumes "opts_ok e" and "opt \<in> set (rule_opts e)"
  shows "CHR '','' \<notin> set opt" "CHR ''$'' \<notin> set opt"
proof -
  have "c \<notin> set d" if "d \<in> set (e_deny e)" "c \<in> {CHR '','', CHR ''$''}" for c d
    using that assms(1) valid_labels_chars [of d 0 c] by (auto simp: opts_ok_def list_all_iff validDomain_def label_char_def)
  then have "list_all (list_all (\<lambda>x. x \<noteq> CHR '','' \<and> x \<noteq> CHR ''$'')) (e_deny e)" by (fastforce simp: list_all_iff)
  then have "list_all (\<lambda>x. x \<noteq> CHR '','' \<and> x \<noteq> CHR ''$'') (strings_Join ''|'' (e_deny e))"
    by (intro list_all_Join) auto
  then have "list_all (\<lambda>x. x \<noteq> CHR '','' \<and> x \<noteq> CHR ''$'') opt"
    using assms(2) by (auto simp: rule_opts_def deny_opt_def split: if_splits)
  then show "CHR '','' \<notin> set opt" "CHR ''$'' \<notin> set opt" by (auto simp: list_all_iff)
qed

lemma rule_opts_text:
  assumes "opts_ok e" and "rule_opts e \<noteq> []"
  shows "strings_Join '','' (rule_opts e) \<noteq> []" "CHR ''$'' \<notin> set (strings_Join '','' (rule_opts e))"
    "strings_Split (CHR '','') (strings_Join '','' (rule_opts e)) = rule_opts e"
proof -
  show split: "strings_Split (CHR '','') (strings_Join '','' (rule_opts e)) = rule_opts e"
    using assms rule_opts_sep(1) by (intro Split_Join) auto
  have "list_all (\<lambda>x. x \<noteq> CHR ''$'') (strings_Join '','' (rule_opts e))"
    by (rule list_all_Join) (use rule_opts_sep(2) [OF assms(1)] in \<open>auto simp: list_all_iff\<close>)
  then show "CHR ''$'' \<notin> set (strings_Join '','' (rule_opts e))" by (auto simp: list_all_iff)
  have "rule_opts e \<noteq> [[]]" by (auto simp: rule_opts_def deny_opt_def)
  with split show "strings_Join '','' (rule_opts e) \<noteq> []" by auto
qed

lemma lp_add_wf: "entry_wf L p e \<Longrightarrow> lp_add L p e = ([e], lineOK)"
  by (auto simp: lp_add_def entry_wf_def guard_ok_def)

lemma parse_body_rule:
  assumes "validDomain (e_domain e)" and "e_kind e \<noteq> kindPattern"
  shows "parse_body L p e' (rule_body e) = lp_add L p (e'\<lparr>e_kind := e_kind e, e_domain := e_domain e\<rparr>)"
proof -
  obtain c cs where d: "e_domain e = c # cs" using validDomain_nonempty [OF assms(1)] by (cases "e_domain e") auto
  have "c \<noteq> CHR ''|''" using assms(1) valid_labels_chars [of "e_domain e" 0 c] d by (auto simp: validDomain_def label_char_def)
  moreover have "strings_CutSuffix (c # cs @ ''^'') ''|'' = None" "strings_TrimSuffix (c # cs @ ''^'') ''|'' = c # cs @ ''^''"
    using CutSuffix_other [of "CHR ''^''" "CHR ''|''" "c # cs"] TrimSuffix_other [of "CHR ''^''" "CHR ''|''" "c # cs"] by simp_all
  ultimately show ?thesis
    using assms CutSuffix_append [of "e_domain e" "CHR ''^''"]
    by (cases "e_kind e") (auto simp: parse_body_def rule_body_def strings_HasPrefix_def d Let_def)
qed

lemma rule_body_facts:
  assumes "validDomain (e_domain e)"
  shows "CHR ''$'' \<notin> set (rule_body e)" "\<not> strings_HasPrefix (rule_body e) ''@@''" "hd (rule_body e) = CHR ''|''"
    "rule_body e \<noteq> []"
  using assms valid_labels_chars [of "e_domain e" 0 "CHR ''$''"]
  by (auto simp: rule_body_def validDomain_def label_char_def strings_HasPrefix_def)

lemma parseABP_print:
  assumes "entry_wf L p e" and "printable e"
  shows "parseABP L p (print_rule e) = ([e], lineOK)"
proof -
  have ok: "opts_ok e" and dom: "validDomain (e_domain e)" and kd: "e_kind e \<noteq> kindPattern"
    using assms by (auto simp: entry_wf_def printable_def split: if_splits)
  let ?rest = "rule_body e @ (if rule_opts e = [] then [] else ''$'' @ strings_Join '','' (rule_opts e))"
  let ?e1 = "(base_entry e)\<lparr>e_important := e_important e, e_badfilter := e_badfilter e, e_deny := e_deny e\<rparr>"
  note body = rule_body_facts [OF dom]
  have pre: "strings_HasPrefix (print_rule e) ''@@'' = e_allow e"
    using body(2-4) by (cases "rule_body e") (auto simp: print_rule_def strings_HasPrefix_def)
  have rest: "(if e_allow e then drop 2 (print_rule e) else print_rule e) = ?rest" by (simp add: print_rule_def)
  have whole: "?e1\<lparr>e_kind := e_kind e, e_domain := e_domain e\<rparr> = e"
    using assms(2) by (cases e) (simp add: printable_def base_entry_def no_entry_def)
  have "parse_body L p ?e1 (rule_body e) = ([e], lineOK)"
    using parse_body_rule [OF dom kd, of L p ?e1] whole lp_add_wf [OF assms(1)] by simp
  moreover have "rule_opts e = [] \<Longrightarrow> ?e1 = base_entry e"
    by (auto simp: rule_opts_def base_entry_def no_entry_def split: if_splits)
  moreover have "parseOptions L (strings_Join '','' (rule_opts e)) (base_entry e) = Inr ?e1" if "rule_opts e \<noteq> []"
    using rule_opts_text [OF ok that] parseOptions_loop_rule [OF ok assms(2)] by (simp add: parseOptions_def)
  ultimately show ?thesis
    using body(1) rule_opts_text(2) [OF ok] LastIndexByte_append [of "CHR ''$''" "strings_Join '','' (rule_opts e)" "rule_body e"]
    unfolding parseABP_def Let_def pre rest base_entry_def [symmetric]
    by (cases "rule_opts e = []") (simp_all add: LastIndexByte_None [THEN iffD2])
qed

lemma lp_parse_print:
  assumes "entry_wf L p e" and "printable e" and "ParseAddr L (print_rule e) = None"
  shows "lp_parse L p (print_rule e) = ([e], lineOK)"
proof -
  have ok: "opts_ok e" and dom: "validDomain (e_domain e)"
    using assms by (auto simp: entry_wf_def printable_def split: if_splits)
  note body = rule_body_facts [OF dom]
  have chars: "list_all rule_char (print_rule e)" using print_rule_chars [OF dom] ok by (simp add: opts_ok_def)
  have ne: "print_rule e \<noteq> []" using body(4) by (simp add: print_rule_def)
  have "hd (print_rule e) = CHR ''@'' \<or> hd (print_rule e) = CHR ''|''" using body(3,4) by (auto simp: print_rule_def hd_append)
  moreover have "\<not> isRegexLine (print_rule e)"
  proof -
    have "CHR ''/'' \<notin> set (print_rule e)" using chars rule_char_facts(5) by (auto simp: list_all_iff)
    moreover have "set (strings_TrimPrefix s q) \<subseteq> set s" for s q
      by (auto simp: strings_TrimPrefix_def strings_CutPrefix_def dest: in_set_dropD)
    ultimately have "CHR ''/'' \<notin> set (strings_TrimPrefix (print_rule e) ''@@'')" by blast
    then show ?thesis by (simp add: isRegexLine_def Let_def LastIndexByte_None [THEN iffD2])
  qed
  ultimately show ?thesis using rule_text_front [OF chars ne _ assms(3)] parseABP_print [OF assms(1,2)] by simp
qed

text \<open>
  C34: rules print and parse back. Every well-formed domain entry without a type restriction, written
  as the Adblock-style rule it stands for (with \<^verbatim>\<open>@@\<close>, \<^verbatim>\<open>$important\<close>, \<^verbatim>\<open>$badfilter\<close> and \<^verbatim>\<open>$denyallow\<close> as
  its fields say), parses to exactly that entry. The address parser takes no such text for an address.
\<close>

theorem print_parse_roundtrip:
  assumes "entry_wf L p e" and "printable e" and "ParseAddr L (print_rule e) = None"
  shows "lp_parse L p (print_rule e) = ([e], lineOK)"
  by (rule lp_parse_print [OF assms])

definition ex_libs :: "unit libs" where
  "ex_libs = \<lparr>ParseAddr = \<lambda>s. None, ParsePrefix = \<lambda>s. None, PublicSuffix = \<lambda>d. (top_label d, True), StringToType = \<lambda>s. None, QTypeName = \<lambda>t. [],
     syntax_Parse = \<lambda>s. None, Simplify = \<lambda>r. r, regexp_Compile = \<lambda>s. None, re_String = \<lambda>r. [], re_MatchString = \<lambda>r s. False,
     unicode_lower = \<lambda>r. r\<rparr>"

definition ex_parser :: lineParser where
  "ex_parser = \<lparr>lp_plainSubtree = False, lp_tldGuard = True, lp_allowList = False\<rparr>"

definition ex_print :: entry where
  "ex_print = no_entry\<lparr>e_kind := kindSubtree, e_important := True, e_domain := ''ads.test'', e_deny := [''ok.ads.test'']\<rparr>"

lemma ex_print_wf: "entry_wf ex_libs ex_parser ex_print"
proof -
  have "validDomain ''ads.test''" "validDomain ''ok.ads.test''" "\<not> broadDomain ex_libs ''ads.test''" by code_simp+
  then show ?thesis
    by (simp add: entry_wf_def opts_ok_def guard_ok_def ex_print_def ex_parser_def no_entry_def no_types_def ts_wf_def limit_defs)
qed

theorem print_parse_roundtrip_witness:
  "print_rule ex_print = ''||ads.test^$important,denyallow=ok.ads.test'' \<and>
   lp_parse ex_libs ex_parser (print_rule ex_print) = ([ex_print], lineOK)"
proof
  show "print_rule ex_print = ''||ads.test^$important,denyallow=ok.ads.test''"
    by (simp add: print_rule_def rule_body_def rule_opts_def deny_opt_def ex_print_def no_entry_def)
  show "lp_parse ex_libs ex_parser (print_rule ex_print) = ([ex_print], lineOK)"
    by (rule print_parse_roundtrip [OF ex_print_wf]) (simp_all add: printable_def ex_print_def no_entry_def ex_libs_def)
qed



end
