(* ===== verification/FilterMatcher.thy ===== *)
theory FilterMatcher
  imports IpSets
begin

text \<open>
  The matcher of \<^verbatim>\<open>internal/dns/filter/matcher.go\<close>: the table of modified entries, the compiled
  form of the lists and of the user rules, the snapshot the DNS server reads and the precedence
  of its decisions (\<^verbatim>\<open>check\<close>, \<^verbatim>\<open>checkProtection\<close>, \<^verbatim>\<open>checkIP\<close>). The estimates of memory use are left
  out. A compiled expression is of any type; \<open>matches\<close> stands for \<^verbatim>\<open>MatchString\<close>.
\<close>

section \<open>Modified entries\<close>

text \<open>
  \<^verbatim>\<open>sort.Slice\<close> by hash, then source. It is not stable: the order of rows with the same hash and
  source is not determined by the code, and the properties below do not depend on it.
\<close>

definition sortMods :: "modRow list \<Rightarrow> modRow list" where
  "sortMods t = sort_key (\<lambda>r. (mr_hash r, mr_src r)) t"

definition mod_applies :: "suffixHashes \<Rightarrow> u16 \<Rightarrow> int list \<Rightarrow> int list list \<Rightarrow> nat \<Rightarrow> modRow \<Rightarrow> bool" where
  "mod_applies sf qtype groups srcGroups i r \<longleftrightarrow>
     \<not> (mr_kind r = kindExact \<and> i \<noteq> length sf - 1 \<or> \<not> applies srcGroups (mr_src r) groups \<or>
        (case mr_types r of None \<Rightarrow> False | Some t \<Rightarrow> \<not> admits t qtype) \<or> excepted (mr_deny r) sf)"

definition mod_lookup ::
  "modRow list \<Rightarrow> suffixHashes \<Rightarrow> u16 \<Rightarrow> int list \<Rightarrow> int list list \<Rightarrow> nat option" where
  "mod_lookup t sf qtype groups srcGroups =
     (if length t = 0 then None
      else first_some (\<lambda>i. probe_run (map mr_hash t) (sf ! i) (\<lambda>j. mod_applies sf qtype groups srcGroups i (t ! j)))
        (rev [0..<length sf]))"

section \<open>Compiled lists\<close>

record 're listTier =
  lt_exact :: hashSet
  lt_subtree :: hashSet
  lt_mods :: "modRow list"
  lt_pats :: "'re patternSet"

record 're listMatcher =
  lm_tiers :: "'re listTier list"
  lm_ip :: "ipTier list"
  lm_ids :: "int list"
  lm_entries :: nat
  lm_patterns :: nat
  lm_dropped :: nat
  lm_modified :: nat
  lm_modDropped :: nat
  lm_ipEntries :: nat

definition mergeSets :: "'re parsed list \<Rightarrow> nat \<Rightarrow> kind \<Rightarrow> hashSet" where
  "mergeSets results tier kind = mergeHashes (map (\<lambda>r. p_sets r ! tier ! kind_index kind) results)"

text \<open>The local variables of \<^verbatim>\<open>buildListMatcher\<close>'s first loop.\<close>

record 're buildState =
  bs_budget :: nat
  bs_costBudget :: int
  bs_modBudget :: nat
  bs_dropped :: nat
  bs_modDropped :: nat
  bs_pats :: "'re pattern list list"
  bs_mods :: "modRow list list"

definition append_row :: "nat \<Rightarrow> 'a \<Rightarrow> 'a list list \<Rightarrow> 'a list list" where
  "append_row t x m = m[t := m ! t @ [x]]"

definition build_pattern :: "nat \<Rightarrow> 're parsedPattern \<Rightarrow> 're buildState \<Rightarrow> 're buildState" where
  "build_pattern src p b =
     (if bs_budget b = 0 \<or> pp_cost p > bs_costBudget b then b\<lparr>bs_dropped := bs_dropped b + 1\<rparr>
      else b\<lparr>bs_budget := bs_budget b - 1, bs_costBudget := bs_costBudget b - pp_cost p,
             bs_pats := append_row (pp_tier p) \<lparr>pat_re = pp_re p, pat_lit = pp_lit p, pat_src = src\<rparr> (bs_pats b)\<rparr>)"

definition build_mod :: "nat \<Rightarrow> nat \<Rightarrow> modRow \<Rightarrow> 're buildState \<Rightarrow> 're buildState" where
  "build_mod src t row b =
     (if bs_modBudget b = 0 then b\<lparr>bs_modDropped := bs_modDropped b + 1\<rparr>
      else b\<lparr>bs_modBudget := bs_modBudget b - 1, bs_mods := append_row t (row\<lparr>mr_src := src\<rparr>) (bs_mods b)\<rparr>)"

definition build_result :: "nat \<times> 're parsed \<Rightarrow> 're buildState \<Rightarrow> 're buildState" where
  "build_result = (\<lambda>(src, r) b.
     fold (\<lambda>t. fold (build_mod src t) (p_mods r ! t)) [0..<numTiers] (fold (build_pattern src) (p_pats r) b))"

definition build_init :: "'re buildState" where
  "build_init = \<lparr>bs_budget = maxPatterns, bs_costBudget = maxPatternCost, bs_modBudget = maxModified,
     bs_dropped = 0, bs_modDropped = 0, bs_pats = replicate numTiers [], bs_mods = replicate numTiers []\<rparr>"

definition buildListMatcher :: "int list \<Rightarrow> 're parsed list \<Rightarrow> 're listMatcher" where
  "buildListMatcher ids results =
     (let b = fold build_result (enumerate 0 results) build_init;
          tiers = map (\<lambda>t. \<lparr>lt_exact = mergeSets results t kindExact, lt_subtree = mergeSets results t kindSubtree,
            lt_mods = sortMods (bs_mods b ! t), lt_pats = newPatternSet (bs_pats b ! t)\<rparr>) [0..<numTiers];
          ips = map (mergeIPTier results) [0..<numIPTiers];
          ipEntries = sum_list (map (\<lambda>t. hs_Len (it_v4 t) + hs_Len (it_v6 t)) ips)
      in \<lparr>lm_tiers = tiers, lm_ip = ips, lm_ids = ids,
          lm_entries = sum_list (map (\<lambda>tr. hs_Len (lt_exact tr) + hs_Len (lt_subtree tr) + length (lt_mods tr)) tiers) + ipEntries,
          lm_patterns = sum_list (map length (bs_pats b)),
          lm_dropped = bs_dropped b,
          lm_modified = sum_list (map (\<lambda>tr. length (lt_mods tr)) tiers),
          lm_modDropped = bs_modDropped b, lm_ipEntries = ipEntries\<rparr>)"

section \<open>Compiled user rules\<close>

text \<open>The compiled expression \<^verbatim>\<open>re\<close> is only read of rules of type regex.\<close>

record 're ruleEntry =
  ru_id :: int
  ru_action :: Action
  ru_typ :: string
  ru_pattern :: string
  ru_re :: 're
  ru_groups :: "int list"
  ru_types :: typeSet
  ru_deny :: "u64 list"
  ru_invert :: bool
  ru_reply :: string
  ru_replyV4 :: string
  ru_replyV6 :: string

definition appliesTo :: "'re ruleEntry \<Rightarrow> u16 \<Rightarrow> suffixHashes \<Rightarrow> bool" where
  "appliesTo r qtype sf \<longleftrightarrow> admits (ru_types r) qtype \<and> \<not> excepted (ru_deny r) sf"

definition ru_modified :: "'re ruleEntry \<Rightarrow> bool" where
  "ru_modified r \<longleftrightarrow> \<not> ts_empty (ru_types r) \<or> length (ru_deny r) > 0"

record 're ruleMatcher =
  rm_allowExact :: hashSet
  rm_allowSubtree :: hashSet
  rm_blockExact :: hashSet
  rm_blockSubtree :: hashSet
  rm_allowRe :: "'re patternSet"
  rm_blockRe :: "'re patternSet"
  rm_inverted :: "nat list"
  rm_rules :: "'re ruleEntry list"
  rm_groups :: "int list list"
  rm_modified :: bool

text \<open>The branches of the switch over a rule.\<close>

datatype rule_class = AllowRe | Inverted | BlockRe | AllowExact | BlockExact | AllowSubtree | BlockSubtree

definition class_of :: "'re ruleEntry \<Rightarrow> rule_class" where
  "class_of r =
     (if ru_typ r = ''regex'' \<and> ru_action r = ActionAllow then AllowRe
      else if ru_typ r = ''regex'' \<and> ru_invert r then Inverted
      else if ru_typ r = ''regex'' then BlockRe
      else if ru_typ r = ''exact'' \<and> ru_action r = ActionAllow then AllowExact
      else if ru_typ r = ''exact'' then BlockExact
      else if ru_action r = ActionAllow then AllowSubtree
      else BlockSubtree)"

text \<open>What the loop collects for one branch, in rule order.\<close>

definition rules_of :: "rule_class \<Rightarrow> 're ruleEntry list \<Rightarrow> (nat \<times> 're ruleEntry) list" where
  "rules_of c rules = filter (\<lambda>(i, r). class_of r = c) (enumerate 0 rules)"

definition rule_set :: "rule_class \<Rightarrow> 're ruleEntry list \<Rightarrow> hashSet" where
  "rule_set c rules = sortHashSet \<lparr>hs_h = map (\<lambda>(i, r). hashName (ru_pattern r)) (rules_of c rules),
     hs_src = map fst (rules_of c rules)\<rparr>"

definition rule_pats :: "(string \<Rightarrow> string) \<Rightarrow> rule_class \<Rightarrow> 're ruleEntry list \<Rightarrow> 're patternSet" where
  "rule_pats regexLit c rules = newPatternSet (map (\<lambda>(i, r).
     \<lparr>pat_re = ru_re r, pat_lit = regexLit (ru_pattern r), pat_src = i\<rparr>) (rules_of c rules))"

text \<open>\<open>syntax_Parse\<close> is \<^verbatim>\<open>regexp/syntax.Parse\<close> with the Perl flags and \<open>Simplify\<close> its simplification.\<close>

definition regexLiteral :: "(string \<Rightarrow> regexp option) \<Rightarrow> (regexp \<Rightarrow> regexp) \<Rightarrow> (nat \<Rightarrow> nat) \<Rightarrow> string \<Rightarrow> string" where
  "regexLiteral syntax_Parse Simplify uni pat =
     (case syntax_Parse (''(?i)'' @ pat) of None \<Rightarrow> [] | Some re \<Rightarrow> requiredLiteral uni (Simplify re))"

definition buildRuleMatcher :: "(string \<Rightarrow> string) \<Rightarrow> 're ruleEntry list \<Rightarrow> 're ruleMatcher" where
  "buildRuleMatcher regexLit rules =
     \<lparr>rm_allowExact = rule_set AllowExact rules, rm_allowSubtree = rule_set AllowSubtree rules,
      rm_blockExact = rule_set BlockExact rules, rm_blockSubtree = rule_set BlockSubtree rules,
      rm_allowRe = rule_pats regexLit AllowRe rules, rm_blockRe = rule_pats regexLit BlockRe rules,
      rm_inverted = map fst (rules_of Inverted rules), rm_rules = rules, rm_groups = map ru_groups rules,
      rm_modified = list_ex ru_modified rules\<rparr>"

section \<open>Decisions\<close>

record Decision =
  d_Action :: Action
  d_Source :: string
  d_Kind :: string
  d_ListID :: int
  d_RuleID :: int
  d_Name :: string
  d_Category :: string
  d_Important :: bool
  d_Reply :: string
  d_ReplyIPv4 :: string
  d_ReplyIPv6 :: string

definition no_Decision :: Decision where
  "no_Decision = \<lparr>d_Action = ActionNone, d_Source = [], d_Kind = [], d_ListID = 0, d_RuleID = 0, d_Name = [],
     d_Category = [], d_Important = False, d_Reply = [], d_ReplyIPv4 = [], d_ReplyIPv6 = []\<rparr>"

definition rm_decision :: "'re ruleMatcher \<Rightarrow> nat \<Rightarrow> Action \<Rightarrow> string \<Rightarrow> Decision" where
  "rm_decision m src action kind = (let r = rm_rules m ! src in
     no_Decision\<lparr>d_Action := action, d_Source := ''rule'', d_Kind := kind, d_RuleID := ru_id r, d_Name := ru_pattern r,
       d_Reply := ru_reply r, d_ReplyIPv4 := ru_replyV4 r, d_ReplyIPv6 := ru_replyV6 r\<rparr>)"

definition checkInverted ::
  "('re \<Rightarrow> string \<Rightarrow> bool) \<Rightarrow> 're ruleMatcher \<Rightarrow> string \<Rightarrow> u16 \<Rightarrow> suffixHashes \<Rightarrow> int list \<Rightarrow> Decision option" where
  "checkInverted matches m q qtype sf groups =
     map_option (\<lambda>src. rm_decision m src ActionBlock ''regex'')
       (find (\<lambda>src. let r = rm_rules m ! src in
          applies (rm_groups m) src groups \<and> appliesTo r qtype sf \<and> \<not> matches (ru_re r) q) (rm_inverted m))"

record 're snapshot =
  sn_lists :: "'re listMatcher"
  sn_listNames :: "string list"
  sn_listCats :: "string list"
  sn_listGroups :: "int list list"
  sn_protGroups :: "int list list"
  sn_hasProt :: bool
  sn_rules :: "'re ruleMatcher"
  sn_ipRules :: ipRuleMatcher
  sn_hasIP :: bool

definition nameList :: "'re snapshot \<Rightarrow> Decision \<Rightarrow> nat \<Rightarrow> Decision" where
  "nameList s d src =
     (let d1 = (if src < length (lm_ids (sn_lists s)) then d\<lparr>d_ListID := lm_ids (sn_lists s) ! src\<rparr> else d);
          d2 = (if src < length (sn_listNames s) then d1\<lparr>d_Name := sn_listNames s ! src\<rparr> else d1)
      in if src < length (sn_listCats s) then d2\<lparr>d_Category := sn_listCats s ! src\<rparr> else d2)"

definition listDecision :: "'re snapshot \<Rightarrow> nat \<Rightarrow> nat \<Rightarrow> string \<Rightarrow> Decision" where
  "listDecision s src tier kind =
     (let d = no_Decision\<lparr>d_Action := ActionBlock, d_Source := ''list'', d_Kind := kind, d_Important := tier < tierAllow\<rparr>
      in nameList s (if tier = tierImpAllow \<or> tier = tierAllow then d\<lparr>d_Action := ActionAllow\<rparr> else d) src)"

definition checkTier ::
  "('re \<Rightarrow> string \<Rightarrow> bool) \<Rightarrow> 're snapshot \<Rightarrow> nat \<Rightarrow> string \<Rightarrow> u16 \<Rightarrow> suffixHashes \<Rightarrow> int list \<Rightarrow> int list list \<Rightarrow> bool \<Rightarrow>
   Decision option" where
  "checkTier matches s t q qtype sf groups srcGroups skipPats =
     (let tr = lm_tiers (sn_lists s) ! t in
      case hs_lookupExact (lt_exact tr) sf groups srcGroups None of
        Some src \<Rightarrow> Some (listDecision s src t ''exact'')
      | None \<Rightarrow> (case hs_lookupSuffixes (lt_subtree tr) sf groups srcGroups None of
        Some src \<Rightarrow> Some (listDecision s src t ''subtree'')
      | None \<Rightarrow> (case mod_lookup (lt_mods tr) sf qtype groups srcGroups of
        Some i \<Rightarrow> Some (listDecision s (mr_src (lt_mods tr ! i)) t
          (if mr_kind (lt_mods tr ! i) = kindExact then ''exact'' else ''subtree''))
      | None \<Rightarrow> if skipPats then None
        else (case ps_lookup matches (lt_pats tr) q groups srcGroups None of
          Some i \<Rightarrow> Some (listDecision s (pat_src (ps_pats (lt_pats tr) ! i)) t ''regex'')
        | None \<Rightarrow> None))))"

definition checkProtection :: "('re \<Rightarrow> string \<Rightarrow> bool) \<Rightarrow> 're snapshot \<Rightarrow> string \<Rightarrow> u16 \<Rightarrow> int list \<Rightarrow> Decision" where
  "checkProtection matches s q qtype groups =
     (if \<not> sn_hasProt s \<or> length q = 0 \<or> length q > maxDomainLen \<or> length groups = 0 then no_Decision
      else case first_some (\<lambda>t. checkTier matches s t q qtype (compute q) groups (sn_protGroups s) False) [0..<numTiers] of
        Some d \<Rightarrow> d | None \<Rightarrow> no_Decision)"

text \<open>The steps of \<^verbatim>\<open>check\<close>: each gives a decision or passes on.\<close>

definition rule_exact :: "'re ruleMatcher \<Rightarrow> hashSet \<Rightarrow> Action \<Rightarrow> suffixHashes \<Rightarrow> int list \<Rightarrow> (nat \<Rightarrow> bool) option \<Rightarrow> Decision option" where
  "rule_exact r hs action sf groups accept =
     map_option (\<lambda>src. rm_decision r src action ''exact'') (hs_lookupExact hs sf groups (rm_groups r) accept)"

definition rule_subtree :: "'re ruleMatcher \<Rightarrow> hashSet \<Rightarrow> Action \<Rightarrow> suffixHashes \<Rightarrow> int list \<Rightarrow> (nat \<Rightarrow> bool) option \<Rightarrow> Decision option" where
  "rule_subtree r hs action sf groups accept =
     map_option (\<lambda>src. rm_decision r src action ''subtree'') (hs_lookupSuffixes hs sf groups (rm_groups r) accept)"

definition rule_regex ::
  "('re \<Rightarrow> string \<Rightarrow> bool) \<Rightarrow> 're ruleMatcher \<Rightarrow> 're patternSet \<Rightarrow> Action \<Rightarrow> string \<Rightarrow> int list \<Rightarrow> (nat \<Rightarrow> bool) option \<Rightarrow> Decision option" where
  "rule_regex matches r ps action q groups accept =
     map_option (\<lambda>i. rm_decision r (pat_src (ps_pats ps ! i)) action ''regex'') (ps_lookup matches ps q groups (rm_groups r) accept)"

definition check_accept :: "'re ruleMatcher \<Rightarrow> u16 \<Rightarrow> suffixHashes \<Rightarrow> (nat \<Rightarrow> bool) option" where
  "check_accept r qtype sf = (if rm_modified r then Some (\<lambda>src. appliesTo (rm_rules r ! src) qtype sf) else None)"

definition check_steps ::
  "('re \<Rightarrow> string \<Rightarrow> bool) \<Rightarrow> 're snapshot \<Rightarrow> string \<Rightarrow> u16 \<Rightarrow> int list \<Rightarrow> bool \<Rightarrow> Decision option list" where
  "check_steps matches s q qtype groups rulesOnly =
     (let sf = compute q; r = sn_rules s; accept = check_accept r qtype sf in
      (if length (rm_rules r) > 0 then
        [rule_exact r (rm_allowExact r) ActionAllow sf groups accept,
         rule_subtree r (rm_allowSubtree r) ActionAllow sf groups accept,
         rule_regex matches r (rm_allowRe r) ActionAllow q groups accept,
         rule_exact r (rm_blockExact r) ActionBlock sf groups accept,
         rule_subtree r (rm_blockSubtree r) ActionBlock sf groups accept]
       else []) @
      (if \<not> rulesOnly then
         map (\<lambda>t. checkTier matches s t q qtype sf groups (sn_listGroups s) (t = tierBlock)) [0..<numTiers] else []) @
      [rule_regex matches r (rm_blockRe r) ActionBlock q groups accept,
       checkInverted matches r q qtype sf groups] @
      (if \<not> rulesOnly then
         [let tr = lm_tiers (sn_lists s) ! tierBlock in
          map_option (\<lambda>i. listDecision s (pat_src (ps_pats (lt_pats tr) ! i)) tierBlock ''regex'')
            (ps_lookup matches (lt_pats tr) q groups (sn_listGroups s) None)]
       else []))"

definition snap_check :: "('re \<Rightarrow> string \<Rightarrow> bool) \<Rightarrow> 're snapshot \<Rightarrow> string \<Rightarrow> u16 \<Rightarrow> int list \<Rightarrow> bool \<Rightarrow> Decision" where
  "snap_check matches s q qtype groups rulesOnly =
     (if length q = 0 \<or> length q > maxDomainLen \<or> length groups = 0 then no_Decision
      else case first_some id (check_steps matches s q qtype groups rulesOnly) of
        Some d \<Rightarrow> d | None \<Rightarrow> no_Decision)"

definition checkIP :: "'re snapshot \<Rightarrow> addr \<Rightarrow> int list \<Rightarrow> Decision" where
  "checkIP s ip0 groups =
     (if \<not> sn_hasIP s \<or> length groups = 0 \<or> \<not> addr_IsValid ip0 then no_Decision
      else let ip = WithZone (Unmap ip0) []; r = sn_ipRules s in
        case first_some (\<lambda>tier. map_option (\<lambda>src. let e = im_rules r ! src in
               no_Decision\<lparr>d_Action := ir_action e, d_Source := ''ip-rule'', d_Kind := ''ip'', d_RuleID := ir_id e,
                 d_Name := ir_pattern e\<rparr>) (it_lookup (im_tiers r ! tier) ip groups (im_groups r))) [0..<numIPTiers] of
          Some d \<Rightarrow> d
        | None \<Rightarrow> (case first_some (\<lambda>tier. map_option (\<lambda>src.
               nameList s (no_Decision\<lparr>d_Action := (if tier = ipTierAllow then ActionAllow else ActionBlock),
                 d_Source := ''list'', d_Kind := ''ip''\<rparr>) src)
               (it_lookup (lm_ip (sn_lists s) ! tier) ip groups (sn_listGroups s))) [0..<numIPTiers] of
            Some d \<Rightarrow> d | None \<Rightarrow> no_Decision))"

section \<open>Publishing a snapshot\<close>

record listRuntime =
  rt_Name :: string
  rt_Category :: string
  rt_Enabled :: bool
  rt_GroupIDs :: "int list"

definition protectionCategories :: "string list" where
  "protectionCategories = [''adult'', ''gambling'', ''dating'', ''piracy'', ''doh-vpn-bypass'']"

definition IsProtection :: "string \<Rightarrow> bool" where
  "IsProtection category \<longleftrightarrow> category \<in> set protectionCategories"

definition publishLocked ::
  "(int \<Rightarrow> listRuntime option) \<Rightarrow> 're snapshot \<Rightarrow> 're listMatcher option \<Rightarrow> 're ruleMatcher option \<Rightarrow> ipRuleMatcher option \<Rightarrow>
   're snapshot" where
  "publishLocked e_lists cur lists0 rules0 ipRules0 =
     (let lists = (case lists0 of None \<Rightarrow> sn_lists cur | Some l \<Rightarrow> l);
          rules = (case rules0 of None \<Rightarrow> sn_rules cur | Some r \<Rightarrow> r);
          ipRules = (case ipRules0 of None \<Rightarrow> sn_ipRules cur | Some r \<Rightarrow> r);
          prot = (\<lambda>rt. rt_Enabled rt \<and> IsProtection (rt_Category rt) \<and> length (rt_GroupIDs rt) > 0)
      in \<lparr>sn_lists = lists,
          sn_listNames = map (\<lambda>i. case e_lists i of None \<Rightarrow> [] | Some rt \<Rightarrow> rt_Name rt) (lm_ids lists),
          sn_listCats = map (\<lambda>i. case e_lists i of None \<Rightarrow> [] | Some rt \<Rightarrow> rt_Category rt) (lm_ids lists),
          sn_listGroups = map (\<lambda>i. case e_lists i of None \<Rightarrow> [] | Some rt \<Rightarrow> if rt_Enabled rt then rt_GroupIDs rt else []) (lm_ids lists),
          sn_protGroups = map (\<lambda>i. case e_lists i of None \<Rightarrow> [] | Some rt \<Rightarrow> if prot rt then rt_GroupIDs rt else []) (lm_ids lists),
          sn_hasProt = list_ex (\<lambda>i. case e_lists i of None \<Rightarrow> False | Some rt \<Rightarrow> prot rt) (lm_ids lists),
          sn_rules = rules, sn_ipRules = ipRules,
          sn_hasIP = (lm_ipEntries lists > 0 \<or> length (im_rules ipRules) > 0)\<rparr>)"

section \<open>Budgets\<close>

lemma append_row_length [simp]: "length (append_row t x m) = length m"
  by (simp add: append_row_def)

lemma append_row_sum: "t < length m \<Longrightarrow> sum_list (map length (append_row t x m)) = Suc (sum_list (map length m))"
  unfolding append_row_def
proof (induction m arbitrary: t)
  case (Cons r m)
  then show ?case by (cases t) auto
qed simp

definition total :: "'a list list \<Rightarrow> nat" where
  "total m = sum_list (map length m)"

lemma total_append_row [simp]: "t < length m \<Longrightarrow> total (append_row t x m) = Suc (total m)"
  by (simp add: total_def append_row_sum)

text \<open>
  The books of the build loop: the budgets and what was kept add up to the caps, and kept and
  dropped entries to what was seen.
\<close>

definition build_ok :: "nat \<Rightarrow> nat \<Rightarrow> 're buildState \<Rightarrow> bool" where
  "build_ok seenPats seenMods b \<longleftrightarrow>
     length (bs_pats b) = numTiers \<and> length (bs_mods b) = numTiers \<and>
     total (bs_pats b) + bs_budget b = maxPatterns \<and> total (bs_mods b) + bs_modBudget b = maxModified \<and>
     0 \<le> bs_costBudget b \<and> bs_costBudget b \<le> maxPatternCost \<and>
     total (bs_pats b) + bs_dropped b = seenPats \<and> total (bs_mods b) + bs_modDropped b = seenMods"

definition tiers_ok :: "'re parsed \<Rightarrow> bool" where
  "tiers_ok r \<longleftrightarrow> (\<forall>p \<in> set (p_pats r). pp_tier p < numTiers \<and> 0 \<le> pp_cost p)"

lemma build_pattern_ok [inv_intros]:
  "build_ok n m b \<Longrightarrow> pp_tier p < numTiers \<Longrightarrow> 0 \<le> pp_cost p \<Longrightarrow> build_ok (Suc n) m (build_pattern src p b)"
  by (auto simp: build_ok_def build_pattern_def)

lemma build_mod_ok [inv_intros]:
  "build_ok n m b \<Longrightarrow> t < numTiers \<Longrightarrow> build_ok n (Suc m) (build_mod src t row b)"
  by (auto simp: build_ok_def build_mod_def)

lemma fold_build_pattern_ok:
  "build_ok n m b \<Longrightarrow> \<forall>p \<in> set ps. pp_tier p < numTiers \<and> 0 \<le> pp_cost p \<Longrightarrow>
   build_ok (n + length ps) m (fold (build_pattern src) ps b)"
proof (induction ps arbitrary: n b)
  case (Cons p ps)
  then show ?case using Cons.IH [OF build_pattern_ok [OF Cons.prems(1), of p src]] by simp
qed simp

lemma fold_build_mod_ok:
  "build_ok n m b \<Longrightarrow> t < numTiers \<Longrightarrow> build_ok n (m + length rows) (fold (build_mod src t) rows b)"
proof (induction rows arbitrary: m b)
  case (Cons row rows)
  then show ?case using Cons.IH [OF build_mod_ok [OF Cons.prems(1), of t src row]] by simp
qed simp

lemma fold_build_mods_ok:
  "build_ok n m b \<Longrightarrow> \<forall>t \<in> set ts. t < numTiers \<Longrightarrow>
   build_ok n (m + sum_list (map (\<lambda>t. length (mods ! t)) ts)) (fold (\<lambda>t. fold (build_mod src t) (mods ! t)) ts b)"
proof (induction ts arbitrary: m b)
  case (Cons t ts)
  then show ?case using Cons.IH [OF fold_build_mod_ok] by (simp add: add.assoc [symmetric])
qed simp

lemma build_result_ok:
  assumes "build_ok n m b" and "tiers_ok r" and "length (p_mods r) = numTiers"
  shows "build_ok (n + length (p_pats r)) (m + total (p_mods r)) (build_result (src, r) b)"
proof -
  have "sum_list (map (\<lambda>t. length (p_mods r ! t)) [0..<numTiers]) = total (p_mods r)"
    using assms(3) by (metis (no_types, lifting) map_nth map_map comp_def map_cong total_def)
  then show ?thesis
    using fold_build_mods_ok [OF fold_build_pattern_ok [OF assms(1)], of "p_pats r" "[0..<numTiers]" "p_mods r" src src] assms(2)
    by (auto simp: build_result_def tiers_ok_def)
qed

lemma fold_build_result_ok:
  assumes "\<forall>r \<in> set rs. tiers_ok r \<and> length (p_mods r) = numTiers"
  shows "build_ok n m b \<Longrightarrow> build_ok (n + sum_list (map (\<lambda>r. length (p_pats r)) rs)) (m + sum_list (map (\<lambda>r. total (p_mods r)) rs))
    (fold build_result (enumerate k rs) b)"
  using assms
proof (induction rs arbitrary: k n m b)
  case (Cons r rs)
  then show ?case using Cons.IH [OF build_result_ok [OF Cons.prems(1), of r k]] by (simp add: add.assoc)
qed simp

lemma build_init_ok: "build_ok 0 0 build_init"
  by (simp add: build_ok_def build_init_def total_def limit_defs)

text \<open>
  The caps of the compiled matcher. Whatever lists are subscribed, at most 20000 patterns and
  20000 modified entries are compiled in total; and nothing disappears silently: every pattern
  and every modified entry of the lists is compiled or counted as dropped.
\<close>

theorem buildListMatcher_budgets:
  assumes "\<forall>r \<in> set results. tiers_ok r \<and> length (p_mods r) = numTiers"
  shows "let m = buildListMatcher ids results in
    lm_patterns m \<le> maxPatterns \<and> lm_modified m \<le> maxModified \<and>
    lm_patterns m + lm_dropped m = sum_list (map (\<lambda>r. length (p_pats r)) results) \<and>
    lm_modified m + lm_modDropped m = sum_list (map (\<lambda>r. total (p_mods r)) results)"
proof -
  define b where "b = fold build_result (enumerate 0 results) build_init"
  have ok: "build_ok (sum_list (map (\<lambda>r. length (p_pats r)) results)) (sum_list (map (\<lambda>r. total (p_mods r)) results)) b"
    using fold_build_result_ok [OF assms build_init_ok, of 0] by (simp add: b_def)
  have "sum_list (map (\<lambda>t. length (bs_mods b ! t)) [0..<numTiers]) = total (bs_mods b)"
    using ok by (metis (no_types, lifting) build_ok_def map_nth map_map comp_def map_cong total_def)
  then have "lm_modified (buildListMatcher ids results) = total (bs_mods b)"
    by (simp add: buildListMatcher_def Let_def comp_def sortMods_def flip: b_def)
  moreover have "lm_patterns (buildListMatcher ids results) = total (bs_pats b)"
    "lm_dropped (buildListMatcher ids results) = bs_dropped b"
    "lm_modDropped (buildListMatcher ids results) = bs_modDropped b"
    by (simp_all add: buildListMatcher_def Let_def total_def flip: b_def)
  ultimately show ?thesis using ok by (auto simp: build_ok_def Let_def)
qed

definition ex_parsed :: "string parsed" where
  "ex_parsed = (new_parsed (formatOf ''block'' ''exact'' ''other'' ''domains''))
     \<lparr>p_pats := [\<lparr>pp_re = ''ads'', pp_lit = ''ads'', pp_cost = 3, pp_tier = 3\<rparr>],
      p_sets := [[[], []], [[], []], [[], []], [[hashName ''x.y''], []]]\<rparr>"

theorem buildListMatcher_budgets_witness:
  "lm_patterns (buildListMatcher [5] [ex_parsed]) + lm_dropped (buildListMatcher [5] [ex_parsed]) = 1 \<and>
   lm_patterns (buildListMatcher [5] [ex_parsed]) \<le> maxPatterns"
proof -
  have "\<forall>r \<in> set [ex_parsed]. tiers_ok r \<and> length (p_mods r) = numTiers"
    by (simp add: ex_parsed_def new_parsed_def tiers_ok_def tier_defs)
  from buildListMatcher_budgets [OF this, of "[5]"] show ?thesis
    by (simp add: Let_def ex_parsed_def)
qed

section \<open>Lookups of the tiers\<close>

lemma hs_lookup_ex:
  "hs_wf s \<Longrightarrow> (\<exists>src. hs_lookup s h groups srcGroups accept = Some src) \<longleftrightarrow>
   (\<exists>src. (h, src) \<in> set (hs_entries s) \<and> applies srcGroups src groups \<and> accepts accept src)"
  using hs.lookup_None_iff [of s h "\<lambda>src. applies srcGroups src groups \<and> accepts accept src"]
  by (auto simp: hs_lookup_def simp flip: not_None_eq)

lemma hs_lookup_SomeD:
  "hs_wf s \<Longrightarrow> hs_lookup s h groups srcGroups accept = Some src \<Longrightarrow>
   (h, src) \<in> set (hs_entries s) \<and> applies srcGroups src groups \<and> accepts accept src"
  unfolding hs_lookup_def by (drule (1) hs.lookup_SomeD) simp

lemma hs_wf_empty_entries: "hs_wf s \<Longrightarrow> length (hs_h s) = 0 \<Longrightarrow> hs_entries s = []"
  by (simp add: hs_entries_def)

lemma hs_lookupExact_ex:
  assumes "hs_wf s" and "sf \<noteq> []"
  shows "(\<exists>src. hs_lookupExact s sf groups srcGroups accept = Some src) \<longleftrightarrow>
    (\<exists>src. (last sf, src) \<in> set (hs_entries s) \<and> applies srcGroups src groups \<and> accepts accept src)"
  using hs_lookup_ex [OF assms(1)] hs_wf_empty_entries [OF assms(1)] assms(2)
  by (auto simp: hs_lookupExact_def last_conv_nth)

lemma hs_lookupSuffixes_ex:
  assumes "hs_wf s"
  shows "(\<exists>src. hs_lookupSuffixes s sf groups srcGroups accept = Some src) \<longleftrightarrow>
    (\<exists>h src. h \<in> set sf \<and> (h, src) \<in> set (hs_entries s) \<and> applies srcGroups src groups \<and> accepts accept src)"
proof (cases "length (hs_h s) = 0")
  case True
  then show ?thesis using hs_wf_empty_entries [OF assms] by (simp add: hs_lookupSuffixes_def)
next
  case False
  then have "(\<exists>src. hs_lookupSuffixes s sf groups srcGroups accept = Some src) \<longleftrightarrow>
      (\<exists>h \<in> set sf. \<exists>src. hs_lookup s h groups srcGroups accept = Some src)"
    using first_some_None [of "\<lambda>h. hs_lookup s h groups srcGroups accept" "rev sf"]
    by (auto simp: hs_lookupSuffixes_def simp flip: not_None_eq)
  then show ?thesis using hs_lookup_ex [OF assms] by blast
qed

lemma sortMods_sorted: "sorted (map mr_hash (sortMods t))"
proof -
  have "sorted (map (\<lambda>r. (mr_hash r, mr_src r)) (sortMods t))" by (simp add: sortMods_def)
  then show ?thesis using sorted_map_fst [of "map (\<lambda>r. (mr_hash r, mr_src r)) (sortMods t)"] by (simp add: comp_def)
qed

lemma mod_lookup_ex:
  assumes "sorted (map mr_hash t)"
  shows "(\<exists>j. mod_lookup t sf qtype groups srcGroups = Some j) \<longleftrightarrow>
    (\<exists>i < length sf. \<exists>r \<in> set t. mr_hash r = sf ! i \<and> mod_applies sf qtype groups srcGroups i r)"
proof -
  let ?f = "\<lambda>i. probe_run (map mr_hash t) (sf ! i) (\<lambda>j. mod_applies sf qtype groups srcGroups i (t ! j))"
  have f: "?f i \<noteq> None \<longleftrightarrow> (\<exists>r \<in> set t. mr_hash r = sf ! i \<and> mod_applies sf qtype groups srcGroups i r)" for i
    by (auto simp: probe_run_find [OF assms] find_None_all Bex_def in_set_conv_nth)
  show ?thesis
  proof (cases "t = []")
    case False
    then have "(\<exists>j. mod_lookup t sf qtype groups srcGroups = Some j) \<longleftrightarrow> (\<exists>i < length sf. ?f i \<noteq> None)"
      using first_some_None [of ?f "rev [0..<length sf]"] by (auto simp: mod_lookup_def simp flip: not_None_eq)
    then show ?thesis unfolding f .
  qed (simp add: mod_lookup_def)
qed

text \<open>A well-formed tier and when it hits.\<close>

definition tier_wf :: "'re listTier \<Rightarrow> bool" where
  "tier_wf tr \<longleftrightarrow> hs_wf (lt_exact tr) \<and> hs_wf (lt_subtree tr) \<and> sorted (map mr_hash (lt_mods tr)) \<and> ps_wf (lt_pats tr)"

definition parsed_wf :: "'re parsed \<Rightarrow> bool" where
  "parsed_wf r \<longleftrightarrow> (\<forall>t < numTiers. sorted (p_sets r ! t ! 0) \<and> sorted (p_sets r ! t ! 1))"

lemma buildListMatcher_tiers_wf [inv_intros]:
  "\<forall>r \<in> set results. parsed_wf r \<Longrightarrow> t < numTiers \<Longrightarrow> tier_wf (lm_tiers (buildListMatcher ids results) ! t)"
  by (auto simp: buildListMatcher_def Let_def tier_wf_def mergeSets_def parsed_wf_def sortMods_sorted newPatternSet_wf
      intro!: mergeHashes_wf)

definition tier_domain_hit :: "'re listTier \<Rightarrow> suffixHashes \<Rightarrow> u16 \<Rightarrow> int list \<Rightarrow> int list list \<Rightarrow> bool" where
  "tier_domain_hit tr sf qtype groups srcGroups \<longleftrightarrow>
     (\<exists>src. (last sf, src) \<in> set (hs_entries (lt_exact tr)) \<and> applies srcGroups src groups) \<or>
     (\<exists>h src. h \<in> set sf \<and> (h, src) \<in> set (hs_entries (lt_subtree tr)) \<and> applies srcGroups src groups) \<or>
     (\<exists>i < length sf. \<exists>r \<in> set (lt_mods tr). mr_hash r = sf ! i \<and> mod_applies sf qtype groups srcGroups i r)"

definition tier_pattern_hit ::
  "('re \<Rightarrow> string \<Rightarrow> bool) \<Rightarrow> 're listTier \<Rightarrow> string \<Rightarrow> int list \<Rightarrow> int list list \<Rightarrow> bool" where
  "tier_pattern_hit matches tr q groups srcGroups \<longleftrightarrow>
     (\<exists>p \<in> set (ps_pats (lt_pats tr)). applies srcGroups (pat_src p) groups \<and> matches (pat_re p) q)"

text \<open>The literal of every pattern occurs in every name the pattern matches.\<close>

definition lits_ok :: "('re \<Rightarrow> string \<Rightarrow> bool) \<Rightarrow> 're patternSet \<Rightarrow> bool" where
  "lits_ok matches ps \<longleftrightarrow> (\<forall>p \<in> set (ps_pats ps). \<forall>q. matches (pat_re p) q \<longrightarrow> strings_Contains q (pat_lit p))"

lemma ps_lookup_ex:
  assumes "ps_wf ps" and "lits_ok matches ps"
  shows "(\<exists>i. ps_lookup matches ps q groups srcGroups accept = Some i) \<longleftrightarrow>
    (\<exists>p \<in> set (ps_pats ps). pat_applies matches q groups srcGroups accept p)"
proof
  assume "\<exists>i. ps_lookup matches ps q groups srcGroups accept = Some i"
  then show "\<exists>p \<in> set (ps_pats ps). pat_applies matches q groups srcGroups accept p"
    using ps_lookup_SomeD [OF assms(1)] nth_mem by blast
next
  assume "\<exists>p \<in> set (ps_pats ps). pat_applies matches q groups srcGroups accept p"
  then obtain i where i: "i < length (ps_pats ps)" "pat_applies matches q groups srcGroups accept (ps_pats ps ! i)"
    by (auto simp: in_set_conv_nth)
  moreover have "strings_Contains q (pat_lit (ps_pats ps ! i))"
    using assms(2) i nth_mem unfolding lits_ok_def pat_applies_def by blast
  ultimately show "\<exists>i. ps_lookup matches ps q groups srcGroups accept = Some i"
    using ps_lookup_complete [OF assms(1)] by (auto simp flip: not_None_eq)
qed

lemma nameList_Action [simp]: "d_Action (nameList s d src) = d_Action d" "d_Source (nameList s d src) = d_Source d"
  by (simp_all add: nameList_def Let_def)

definition tier_action :: "nat \<Rightarrow> Action" where
  "tier_action t = (if t = tierImpAllow \<or> t = tierAllow then ActionAllow else ActionBlock)"

lemma listDecision_Action [simp]:
  "d_Action (listDecision s src t k) = tier_action t" "d_Source (listDecision s src t k) = ''list''"
  by (simp_all add: listDecision_def tier_action_def Let_def no_Decision_def)

lemma option_hit: "(\<exists>x. f = Some x) \<longleftrightarrow> f \<noteq> None"
  by auto

lemma checkTier_hit:
  assumes "tier_wf (lm_tiers (sn_lists s) ! t)" and "lits_ok matches (lt_pats (lm_tiers (sn_lists s) ! t))" and "sf \<noteq> []"
  shows "checkTier matches s t q qtype sf groups srcGroups skip \<noteq> None \<longleftrightarrow>
    tier_domain_hit (lm_tiers (sn_lists s) ! t) sf qtype groups srcGroups \<or>
    \<not> skip \<and> tier_pattern_hit matches (lm_tiers (sn_lists s) ! t) q groups srcGroups"
proof -
  define tr where "tr = lm_tiers (sn_lists s) ! t"
  have wf: "hs_wf (lt_exact tr)" "hs_wf (lt_subtree tr)" "sorted (map mr_hash (lt_mods tr))" "ps_wf (lt_pats tr)"
    using assms(1) by (simp_all add: tier_wf_def tr_def)
  have "checkTier matches s t q qtype sf groups srcGroups skip \<noteq> None \<longleftrightarrow>
      hs_lookupExact (lt_exact tr) sf groups srcGroups None \<noteq> None \<or>
      hs_lookupSuffixes (lt_subtree tr) sf groups srcGroups None \<noteq> None \<or>
      mod_lookup (lt_mods tr) sf qtype groups srcGroups \<noteq> None \<or>
      \<not> skip \<and> ps_lookup matches (lt_pats tr) q groups srcGroups None \<noteq> None"
    by (auto simp: checkTier_def Let_def tr_def split: option.splits)
  also have "\<dots> \<longleftrightarrow> tier_domain_hit tr sf qtype groups srcGroups \<or> \<not> skip \<and> tier_pattern_hit matches tr q groups srcGroups"
    using hs_lookupExact_ex [OF wf(1) assms(3)] hs_lookupSuffixes_ex [OF wf(2)] mod_lookup_ex [OF wf(3)]
      ps_lookup_ex [OF wf(4) assms(2) [folded tr_def]]
    by (simp add: tier_domain_hit_def tier_pattern_hit_def pat_applies_def accepts_def flip: option_hit)
  finally show ?thesis by (simp add: tr_def)
qed

lemma checkTier_Action:
  "checkTier matches s t q qtype sf groups srcGroups skip = Some d \<Longrightarrow> d_Action d = tier_action t \<and> d_Source d = ''list''"
  by (auto simp: checkTier_def Let_def split: option.splits if_splits)

section \<open>Lookups of the user rules\<close>

lemma set_rules_of: "(i, r) \<in> set (rules_of c rules) \<longleftrightarrow> i < length rules \<and> r = rules ! i \<and> class_of r = c"
  by (auto simp: rules_of_def in_set_enumerate_eq)

lemma rule_set_wf: "hs_wf (rule_set c rules)"
  unfolding rule_set_def by (rule sortHashSet_wf) simp

lemma rule_set_entries:
  "(h, i) \<in> set (hs_entries (rule_set c rules)) \<longleftrightarrow>
   i < length rules \<and> class_of (rules ! i) = c \<and> hashName (ru_pattern (rules ! i)) = h"
proof -
  have "set (hs_entries (rule_set c rules)) = set (map (\<lambda>(i, r). (hashName (ru_pattern r), i)) (rules_of c rules))"
    unfolding rule_set_def
    by (simp only: set_hs_entries_sort hashSet.select_convs length_map) (simp only: hs_entries_def hashSet.select_convs zip_keys_fst)
  then show ?thesis by (force simp: set_rules_of)
qed

lemma rule_pats_pats:
  "p \<in> set (ps_pats (rule_pats regexLit c rules)) \<longleftrightarrow>
   (\<exists>i < length rules. class_of (rules ! i) = c \<and>
      p = \<lparr>pat_re = ru_re (rules ! i), pat_lit = regexLit (ru_pattern (rules ! i)), pat_src = i\<rparr>)"
  by (force simp: rule_pats_def set_rules_of)

lemma rule_pats_ex:
  "(\<exists>p \<in> set (ps_pats (rule_pats regexLit c rules)). P (pat_src p) (pat_re p)) \<longleftrightarrow>
   (\<exists>i < length rules. class_of (rules ! i) = c \<and> P i (ru_re (rules ! i)))"
proof
  assume "\<exists>i < length rules. class_of (rules ! i) = c \<and> P i (ru_re (rules ! i))"
  then obtain i where i: "i < length rules" "class_of (rules ! i) = c" "P i (ru_re (rules ! i))" by blast
  let ?p = "\<lparr>pat_re = ru_re (rules ! i), pat_lit = regexLit (ru_pattern (rules ! i)), pat_src = i\<rparr>"
  have "?p \<in> set (ps_pats (rule_pats regexLit c rules))" using i rule_pats_pats by blast
  with i(3) show "\<exists>p \<in> set (ps_pats (rule_pats regexLit c rules)). P (pat_src p) (pat_re p)" by force
next
  assume "\<exists>p \<in> set (ps_pats (rule_pats regexLit c rules)). P (pat_src p) (pat_re p)"
  then obtain p where "p \<in> set (ps_pats (rule_pats regexLit c rules))" "P (pat_src p) (pat_re p)" by blast
  moreover then obtain i where "i < length rules" "class_of (rules ! i) = c"
    "p = \<lparr>pat_re = ru_re (rules ! i), pat_lit = regexLit (ru_pattern (rules ! i)), pat_src = i\<rparr>"
    unfolding rule_pats_pats by blast
  ultimately show "\<exists>i < length rules. class_of (rules ! i) = c \<and> P i (ru_re (rules ! i))" by auto
qed

lemma applies_rule_groups:
  "applies (map ru_groups rules) i groups \<longleftrightarrow> i < length rules \<and> set (ru_groups (rules ! i)) \<inter> set groups \<noteq> {}"
  by (auto simp: applies_iff)

text \<open>Without a modified rule the callback is not set, and every rule applies to every query.\<close>

lemma check_accept_iff:
  assumes "i < length rules"
  shows "accepts (check_accept (buildRuleMatcher lit rules) qtype sf) i \<longleftrightarrow> appliesTo (rules ! i) qtype sf"
proof (cases "list_ex ru_modified rules")
  case True
  then show ?thesis by (simp add: accepts_def check_accept_def buildRuleMatcher_def)
next
  case False
  then have "\<not> ru_modified (rules ! i)" using assms by (auto simp: list_ex_iff)
  then have "appliesTo (rules ! i) qtype sf" by (simp add: ru_modified_def appliesTo_def admits_def excepted_def)
  with False show ?thesis by (simp add: accepts_def check_accept_def buildRuleMatcher_def)
qed

section \<open>The reference: when a user rule decides a name\<close>

definition rule_hit :: "('re \<Rightarrow> string \<Rightarrow> bool) \<Rightarrow> string \<Rightarrow> u16 \<Rightarrow> int list \<Rightarrow> 're ruleEntry \<Rightarrow> bool" where
  "rule_hit matches q qtype groups r \<longleftrightarrow>
     set (ru_groups r) \<inter> set groups \<noteq> {} \<and> appliesTo r qtype (compute q) \<and>
     (case class_of r of
        AllowExact \<Rightarrow> ru_pattern r = q | BlockExact \<Rightarrow> ru_pattern r = q
      | AllowSubtree \<Rightarrow> subtreeMatch q (ru_pattern r) | BlockSubtree \<Rightarrow> subtreeMatch q (ru_pattern r)
      | AllowRe \<Rightarrow> matches (ru_re r) q | BlockRe \<Rightarrow> matches (ru_re r) q
      | Inverted \<Rightarrow> \<not> matches (ru_re r) q)"

definition class_hit ::
  "('re \<Rightarrow> string \<Rightarrow> bool) \<Rightarrow> 're ruleEntry list \<Rightarrow> string \<Rightarrow> u16 \<Rightarrow> int list \<Rightarrow> rule_class \<Rightarrow> bool" where
  "class_hit matches rules q qtype groups c \<longleftrightarrow>
     (\<exists>r \<in> set rules. class_of r = c \<and> rule_hit matches q qtype groups r)"

text \<open>
  No two names of a query collide: the 64-bit hash of a rule's domain is that of the queried name
  or one of its parents only if the names are equal.
\<close>

definition no_collision :: "'re ruleEntry list \<Rightarrow> string \<Rightarrow> bool" where
  "no_collision rules q \<longleftrightarrow> (\<forall>r \<in> set rules. \<forall>x \<in> set (label_suffixes q).
     hashName (ru_pattern r) = hashName x \<longrightarrow> ru_pattern r = x)"

definition query_ok :: "string \<Rightarrow> 're ruleEntry list \<Rightarrow> bool" where
  "query_ok q rules \<longleftrightarrow> no_empty_label q \<and> length q \<le> maxDomainLen \<and> q \<noteq> [] \<and>
     (\<forall>r \<in> set rules. ru_pattern r \<noteq> []) \<and> no_collision rules q"

lemma query_hashes:
  assumes "query_ok q rules"
  shows "compute q = map hashName (label_suffixes q)" and "compute q \<noteq> []" and "last (compute q) = hashName q"
  using compute_complete [of q] label_suffixes_last [of q] assms by (auto simp: query_ok_def last_map)

lemma exact_hash:
  assumes "query_ok q rules" and "r \<in> set rules"
  shows "hashName (ru_pattern r) = last (compute q) \<longleftrightarrow> ru_pattern r = q"
proof -
  have "q \<in> set (label_suffixes q)"
    using assms(1) label_suffixes_last [of q] last_in_set unfolding query_ok_def by metis
  then show ?thesis
    using assms query_hashes(3) [OF assms(1)] unfolding query_ok_def no_collision_def by metis
qed

lemma subtree_hash:
  assumes "query_ok q rules" and "r \<in> set rules"
  shows "hashName (ru_pattern r) \<in> set (compute q) \<longleftrightarrow> subtreeMatch q (ru_pattern r)"
  using assms subtreeMatch_label_suffixes [of "ru_pattern r" q] query_hashes(1) [OF assms(1)]
  unfolding query_ok_def no_collision_def by auto

lemma buildRuleMatcher_simps [simp]:
  "rm_allowExact (buildRuleMatcher lit rules) = rule_set AllowExact rules"
  "rm_allowSubtree (buildRuleMatcher lit rules) = rule_set AllowSubtree rules"
  "rm_blockExact (buildRuleMatcher lit rules) = rule_set BlockExact rules"
  "rm_blockSubtree (buildRuleMatcher lit rules) = rule_set BlockSubtree rules"
  "rm_allowRe (buildRuleMatcher lit rules) = rule_pats lit AllowRe rules"
  "rm_blockRe (buildRuleMatcher lit rules) = rule_pats lit BlockRe rules"
  "rm_inverted (buildRuleMatcher lit rules) = map fst (rules_of Inverted rules)"
  "rm_rules (buildRuleMatcher lit rules) = rules"
  "rm_groups (buildRuleMatcher lit rules) = map ru_groups rules"
  by (simp_all add: buildRuleMatcher_def)

definition rule_ok :: "'re ruleEntry list \<Rightarrow> u16 \<Rightarrow> suffixHashes \<Rightarrow> int list \<Rightarrow> nat \<Rightarrow> bool" where
  "rule_ok rules qtype sf groups i \<longleftrightarrow>
     i < length rules \<and> set (ru_groups (rules ! i)) \<inter> set groups \<noteq> {} \<and> appliesTo (rules ! i) qtype sf"

lemma rule_ok_iff:
  "applies (map ru_groups rules) i groups \<and> accepts (check_accept (buildRuleMatcher lit rules) qtype sf) i \<longleftrightarrow>
   rule_ok rules qtype sf groups i"
  by (cases "i < length rules") (auto simp: rule_ok_def applies_rule_groups check_accept_iff)

text \<open>Each step of \<^verbatim>\<open>check\<close> over the user rules fires exactly when a rule of its class decides the name.\<close>

lemma class_hit_iff:
  "class_hit matches rules q qtype groups c \<longleftrightarrow>
   (\<exists>i < length rules. class_of (rules ! i) = c \<and> rule_hit matches q qtype groups (rules ! i))"
  by (auto simp: class_hit_def in_set_conv_nth Bex_def)

lemma class_hit_Nil [simp]: "\<not> class_hit matches [] q qtype groups c"
  by (simp add: class_hit_def)

lemma rule_exact_hit:
  assumes "query_ok q rules" and "c = AllowExact \<or> c = BlockExact"
  shows "rule_exact (buildRuleMatcher lit rules) (rule_set c rules) a (compute q) groups
      (check_accept (buildRuleMatcher lit rules) qtype (compute q)) \<noteq> None \<longleftrightarrow> class_hit matches rules q qtype groups c"
proof -
  have "rule_exact (buildRuleMatcher lit rules) (rule_set c rules) a (compute q) groups
      (check_accept (buildRuleMatcher lit rules) qtype (compute q)) \<noteq> None \<longleftrightarrow>
      (\<exists>i. (last (compute q), i) \<in> set (hs_entries (rule_set c rules)) \<and> rule_ok rules qtype (compute q) groups i)"
    using hs_lookupExact_ex [OF rule_set_wf query_hashes(2) [OF assms(1)], of c rules groups "map ru_groups rules"
        "check_accept (buildRuleMatcher lit rules) qtype (compute q)"]
    unfolding rule_ok_iff by (simp add: rule_exact_def)
  also have "\<dots> \<longleftrightarrow> (\<exists>i < length rules. class_of (rules ! i) = c \<and> rule_hit matches q qtype groups (rules ! i))"
  proof -
    have "hashName (ru_pattern (rules ! i)) = last (compute q) \<and> rule_ok rules qtype (compute q) groups i \<longleftrightarrow>
        rule_hit matches q qtype groups (rules ! i)" if "i < length rules" "class_of (rules ! i) = c" for i
      using that assms(2) exact_hash [OF assms(1) nth_mem [OF that(1)]] by (auto simp: rule_hit_def rule_ok_def)
    then show ?thesis unfolding rule_set_entries by blast
  qed
  finally show ?thesis by (simp add: class_hit_iff)
qed

lemma rule_subtree_hit:
  assumes "query_ok q rules" and "c = AllowSubtree \<or> c = BlockSubtree"
  shows "rule_subtree (buildRuleMatcher lit rules) (rule_set c rules) a (compute q) groups
      (check_accept (buildRuleMatcher lit rules) qtype (compute q)) \<noteq> None \<longleftrightarrow> class_hit matches rules q qtype groups c"
proof -
  have "rule_subtree (buildRuleMatcher lit rules) (rule_set c rules) a (compute q) groups
      (check_accept (buildRuleMatcher lit rules) qtype (compute q)) \<noteq> None \<longleftrightarrow>
      (\<exists>h i. h \<in> set (compute q) \<and> (h, i) \<in> set (hs_entries (rule_set c rules)) \<and> rule_ok rules qtype (compute q) groups i)"
    using hs_lookupSuffixes_ex [OF rule_set_wf, of c rules "compute q" groups "map ru_groups rules"
        "check_accept (buildRuleMatcher lit rules) qtype (compute q)"]
    unfolding rule_ok_iff by (simp add: rule_subtree_def)
  also have "\<dots> \<longleftrightarrow> (\<exists>i < length rules. class_of (rules ! i) = c \<and> rule_hit matches q qtype groups (rules ! i))"
  proof -
    have "hashName (ru_pattern (rules ! i)) \<in> set (compute q) \<and> rule_ok rules qtype (compute q) groups i \<longleftrightarrow>
        rule_hit matches q qtype groups (rules ! i)" if "i < length rules" "class_of (rules ! i) = c" for i
      using that assms(2) subtree_hash [OF assms(1) nth_mem [OF that(1)]] by (auto simp: rule_hit_def rule_ok_def)
    then show ?thesis unfolding rule_set_entries by blast
  qed
  finally show ?thesis by (simp add: class_hit_iff)
qed

text \<open>The literals of the regular expressions of the rules are sound.\<close>

definition rule_lits_ok :: "('re \<Rightarrow> string \<Rightarrow> bool) \<Rightarrow> (string \<Rightarrow> string) \<Rightarrow> 're ruleEntry list \<Rightarrow> bool" where
  "rule_lits_ok matches lit rules \<longleftrightarrow>
     (\<forall>r \<in> set rules. \<forall>q. matches (ru_re r) q \<longrightarrow> strings_Contains q (lit (ru_pattern r)))"

lemma rule_regex_hit:
  assumes "rule_lits_ok matches lit rules" and "c = AllowRe \<or> c = BlockRe"
  shows "rule_regex matches (buildRuleMatcher lit rules) (rule_pats lit c rules) a q groups
      (check_accept (buildRuleMatcher lit rules) qtype (compute q)) \<noteq> None \<longleftrightarrow> class_hit matches rules q qtype groups c"
proof -
  have wf: "ps_wf (rule_pats lit c rules)" by (simp add: rule_pats_def newPatternSet_wf)
  have lits: "lits_ok matches (rule_pats lit c rules)"
    using assms(1) nth_mem by (fastforce simp: lits_ok_def rule_pats_pats rule_lits_ok_def)
  have "rule_regex matches (buildRuleMatcher lit rules) (rule_pats lit c rules) a q groups
      (check_accept (buildRuleMatcher lit rules) qtype (compute q)) \<noteq> None \<longleftrightarrow>
      (\<exists>p \<in> set (ps_pats (rule_pats lit c rules)). rule_ok rules qtype (compute q) groups (pat_src p) \<and> matches (pat_re p) q)"
    using ps_lookup_ex [OF wf lits, of q groups "map ru_groups rules" "check_accept (buildRuleMatcher lit rules) qtype (compute q)"]
    unfolding pat_applies_def rule_ok_iff [symmetric, of rules qtype "compute q" groups _ lit] by (auto simp: rule_regex_def)
  also have "\<dots> \<longleftrightarrow> (\<exists>i < length rules. class_of (rules ! i) = c \<and> rule_hit matches q qtype groups (rules ! i))"
    unfolding rule_pats_ex [where P = "\<lambda>i re. rule_ok rules qtype (compute q) groups i \<and> matches re q"]
    using assms(2) by (auto simp: rule_hit_def rule_ok_def)
  finally show ?thesis by (simp add: class_hit_iff)
qed

lemma checkInverted_hit:
  "checkInverted matches (buildRuleMatcher lit rules) q qtype (compute q) groups \<noteq> None \<longleftrightarrow>
   class_hit matches rules q qtype groups Inverted"
  by (auto simp: checkInverted_def find_None_all Let_def applies_rule_groups class_hit_iff rule_hit_def set_rules_of Bex_def
      image_iff)

lemma rm_decision_simps [simp]:
  "d_Action (rm_decision m src a k) = a" "d_Source (rm_decision m src a k) = ''rule''"
  by (simp_all add: rm_decision_def Let_def no_Decision_def)

section \<open>The precedence\<close>

text \<open>
  The reference for the verdict on a name: user allow rules, then exact and subtree user block
  rules, then the list tiers in their order (the patterns of the block tier excepted), then user
  regex and inverted block rules, then the block patterns of the lists.
\<close>

definition spec_tier_hit :: "('re \<Rightarrow> string \<Rightarrow> bool) \<Rightarrow> 're snapshot \<Rightarrow> string \<Rightarrow> u16 \<Rightarrow> int list \<Rightarrow> nat \<Rightarrow> bool" where
  "spec_tier_hit matches s q qtype groups t \<longleftrightarrow> (let tr = lm_tiers (sn_lists s) ! t in
     tier_domain_hit tr (compute q) qtype groups (sn_listGroups s) \<or>
     t \<noteq> tierBlock \<and> tier_pattern_hit matches tr q groups (sn_listGroups s))"

definition spec_action ::
  "('re \<Rightarrow> string \<Rightarrow> bool) \<Rightarrow> 're snapshot \<Rightarrow> 're ruleEntry list \<Rightarrow> string \<Rightarrow> u16 \<Rightarrow> int list \<Rightarrow> bool \<Rightarrow> Action" where
  "spec_action matches s rules q qtype groups rulesOnly =
     (let hit = class_hit matches rules q qtype groups in
      if hit AllowExact \<or> hit AllowSubtree \<or> hit AllowRe then ActionAllow
      else if hit BlockExact \<or> hit BlockSubtree then ActionBlock
      else case (if rulesOnly then None else find (spec_tier_hit matches s q qtype groups) [0..<numTiers]) of
        Some t \<Rightarrow> tier_action t
      | None \<Rightarrow>
          if hit BlockRe \<or> hit Inverted then ActionBlock
          else if \<not> rulesOnly \<and> tier_pattern_hit matches (lm_tiers (sn_lists s) ! tierBlock) q groups (sn_listGroups s)
          then ActionBlock
          else ActionNone)"

definition snap_wf :: "('re \<Rightarrow> string \<Rightarrow> bool) \<Rightarrow> 're snapshot \<Rightarrow> bool" where
  "snap_wf matches s \<longleftrightarrow> (\<forall>t < numTiers. tier_wf (lm_tiers (sn_lists s) ! t) \<and> lits_ok matches (lt_pats (lm_tiers (sn_lists s) ! t)))"

lemma first_some_tiers:
  assumes "snap_wf matches s" and "compute q \<noteq> []" and "\<forall>t \<in> set ts. t < numTiers"
  shows "map_option d_Action (first_some id (map (\<lambda>t. checkTier matches s t q qtype (compute q) groups (sn_listGroups s) (t = tierBlock)) ts))
    = map_option tier_action (find (spec_tier_hit matches s q qtype groups) ts)"
  using assms(3)
proof (induction ts)
  case (Cons t ts)
  have "checkTier matches s t q qtype (compute q) groups (sn_listGroups s) (t = tierBlock) \<noteq> None \<longleftrightarrow>
      spec_tier_hit matches s q qtype groups t"
    using checkTier_hit [of s t matches "compute q"] assms Cons.prems by (simp add: snap_wf_def spec_tier_hit_def Let_def)
  then show ?case
    using Cons checkTier_Action [of matches s t q qtype "compute q" groups "sn_listGroups s" "t = tierBlock"]
    by (auto split: option.splits)
qed simp

lemma step_Action:
  "pred_option (\<lambda>d. d_Action d = a) (rule_exact r hs a sf groups acc)"
  "pred_option (\<lambda>d. d_Action d = a) (rule_subtree r hs a sf groups acc)"
  "pred_option (\<lambda>d. d_Action d = a) (rule_regex matches r ps a q groups acc)"
  "pred_option (\<lambda>d. d_Action d = ActionBlock) (checkInverted matches m q qtype sf groups)"
  by (simp_all add: rule_exact_def rule_subtree_def rule_regex_def checkInverted_def option.pred_map comp_def option.pred_True)

text \<open>A chain of steps each of which fires under a condition with a known action.\<close>

lemma first_some_step:
  assumes "f \<noteq> None \<longleftrightarrow> hit" and "pred_option (\<lambda>d. d_Action d = a) f"
  shows "map_option d_Action (first_some id (f # fs)) = (if hit then Some a else map_option d_Action (first_some id fs))"
  using assms by (cases f) auto

lemma map_option_first_some_append:
  "map_option f (first_some id (xs @ ys)) =
   (case map_option f (first_some id xs) of None \<Rightarrow> map_option f (first_some id ys) | Some a \<Rightarrow> Some a)"
  by (auto simp: first_some_append split: option.splits)

lemma check_steps_Action:
  assumes "query_ok q rules" and "rule_lits_ok matches lit rules" and "snap_wf matches s"
    and "sn_rules s = buildRuleMatcher lit rules"
  shows "map_option d_Action (first_some id (check_steps matches s q qtype groups rulesOnly)) =
    (let a = spec_action matches s rules q qtype groups rulesOnly in if a = ActionNone then None else Some a)"
proof -
  let ?hit = "class_hit matches rules q qtype groups"
  let ?R = "buildRuleMatcher lit rules"
  let ?acc = "check_accept ?R qtype (compute q)"
  let ?tr = "lm_tiers (sn_lists s) ! tierBlock"
  let ?last = "map_option (\<lambda>i. listDecision s (pat_src (ps_pats (lt_pats ?tr) ! i)) tierBlock ''regex'')
    (ps_lookup matches (lt_pats ?tr) q groups (sn_listGroups s) None)"
  note exact = first_some_step [OF rule_exact_hit [OF assms(1), where lit = lit and groups = groups and qtype = qtype and matches = matches] step_Action(1)]
  note subtree = first_some_step [OF rule_subtree_hit [OF assms(1), where lit = lit and groups = groups and qtype = qtype and matches = matches] step_Action(2)]
  note regex = first_some_step [OF rule_regex_hit [OF assms(2), where q = q and groups = groups and qtype = qtype] step_Action(3)]
  note inverted = first_some_step [OF checkInverted_hit step_Action(4)]
  have "ps_wf (lt_pats ?tr)" and "lits_ok matches (lt_pats ?tr)"
    using assms(3) by (auto simp: snap_wf_def tier_wf_def tier_defs)
  then have "?last \<noteq> None \<longleftrightarrow> tier_pattern_hit matches ?tr q groups (sn_listGroups s)"
    using ps_lookup_ex [of "lt_pats ?tr" matches q groups "sn_listGroups s" None]
    by (auto simp: tier_pattern_hit_def pat_applies_def accepts_def)
  moreover have "pred_option (\<lambda>d. d_Action d = ActionBlock) ?last"
    by (simp add: option.pred_map comp_def option.pred_True tier_action_def tier_defs)
  ultimately have last: "map_option d_Action (first_some id (?last # fs)) =
      (if tier_pattern_hit matches ?tr q groups (sn_listGroups s) then Some ActionBlock else map_option d_Action (first_some id fs))" for fs
    by (rule first_some_step)
  have tiers: "map_option d_Action (first_some id (map (\<lambda>t. checkTier matches s t q qtype (compute q) groups (sn_listGroups s) (t = tierBlock)) [0..<numTiers] @ fs))
      = (case find (spec_tier_hit matches s q qtype groups) [0..<numTiers] of
           Some t \<Rightarrow> Some (tier_action t) | None \<Rightarrow> map_option d_Action (first_some id fs))" for fs
    unfolding map_option_first_some_append
    using first_some_tiers [OF assms(3) query_hashes(2) [OF assms(1)], of "[0..<numTiers]"] by (auto split: option.splits)
  have act: "tier_action t \<noteq> ActionNone" for t by (simp add: tier_action_def)
  have allow: "map_option d_Action (first_some id ((if length rules > 0 then
        [rule_exact ?R (rule_set AllowExact rules) ActionAllow (compute q) groups ?acc,
         rule_subtree ?R (rule_set AllowSubtree rules) ActionAllow (compute q) groups ?acc,
         rule_regex matches ?R (rule_pats lit AllowRe rules) ActionAllow q groups ?acc,
         rule_exact ?R (rule_set BlockExact rules) ActionBlock (compute q) groups ?acc,
         rule_subtree ?R (rule_set BlockSubtree rules) ActionBlock (compute q) groups ?acc] else []) @ fs)) =
      (if ?hit AllowExact \<or> ?hit AllowSubtree \<or> ?hit AllowRe then Some ActionAllow
       else if ?hit BlockExact \<or> ?hit BlockSubtree then Some ActionBlock else map_option d_Action (first_some id fs))" for fs
    by (cases "rules = []") (simp_all add: exact subtree regex del: first_some.simps(2))
  show ?thesis
    unfolding check_steps_def Let_def assms(4) spec_action_def buildRuleMatcher_simps allow
    by (cases rulesOnly) (simp_all add: regex inverted last tiers act del: first_some.simps(2) split: option.split)
qed

lemma check_Action:
  assumes "query_ok q rules" and "rule_lits_ok matches lit rules" and "snap_wf matches s"
    and "sn_rules s = buildRuleMatcher lit rules"
  shows "d_Action (snap_check matches s q qtype groups rulesOnly) =
    (if groups = [] then ActionNone else spec_action matches s rules q qtype groups rulesOnly)"
proof -
  have "q \<noteq> []" and "length q \<le> maxDomainLen" using assms(1) by (auto simp: query_ok_def)
  then show ?thesis
    using check_steps_Action [OF assms, of qtype groups rulesOnly]
    by (cases "first_some id (check_steps matches s q qtype groups rulesOnly)")
      (auto simp: snap_check_def Let_def no_Decision_def split: if_splits)
qed


definition ex_rule :: "int \<Rightarrow> Action \<Rightarrow> string \<Rightarrow> string \<Rightarrow> string ruleEntry" where
  "ex_rule i a typ pat = \<lparr>ru_id = i, ru_action = a, ru_typ = typ, ru_pattern = pat, ru_re = pat, ru_groups = [1],
     ru_types = no_types, ru_deny = [], ru_invert = False, ru_reply = [], ru_replyV4 = [], ru_replyV6 = []\<rparr>"

definition ex_rules :: "string ruleEntry list" where
  "ex_rules = [ex_rule 1 ActionAllow ''exact'' ''a.b'', ex_rule 2 ActionBlock ''subtree'' ''b'']"

definition ex_snapshot :: "string snapshot" where
  "ex_snapshot = \<lparr>sn_lists = buildListMatcher [5] [ex_parsed], sn_listNames = [''l''], sn_listCats = [''other''],
     sn_listGroups = [[1]], sn_protGroups = [[]], sn_hasProt = False, sn_rules = buildRuleMatcher id ex_rules,
     sn_ipRules = \<lparr>im_tiers = [], im_rules = [], im_groups = []\<rparr>, sn_hasIP = False\<rparr>"


lemma Some_eq_map_option: "Some d = map_option f x \<longleftrightarrow> (\<exists>z. x = Some z \<and> d = f z)"
  by (cases x) auto

text \<open>
  With \<^verbatim>\<open>rulesOnly\<close> no decision comes from a list, whatever the snapshot is.
\<close>

theorem rulesOnly_no_list: "d_Source (snap_check matches s q qtype groups True) \<noteq> ''list''"
proof -
  have "d_Source d = ''rule''" if "first_some id (check_steps matches s q qtype groups True) = Some d" for d
    using first_some_SomeD [OF that]
    by (auto simp: check_steps_def Let_def rule_exact_def rule_subtree_def rule_regex_def checkInverted_def Some_eq_map_option split: if_splits)
  then show ?thesis by (auto simp: snap_check_def no_Decision_def split: option.splits)
qed

section \<open>Which lists decide\<close>

lemma hs_lookupExact_applies:
  "hs_wf hs \<Longrightarrow> hs_lookupExact hs sf groups srcGroups acc = Some src \<Longrightarrow> applies srcGroups src groups"
  by (auto simp: hs_lookupExact_def dest: hs_lookup_SomeD split: if_splits)

lemma hs_lookupSuffixes_applies:
  "hs_wf hs \<Longrightarrow> hs_lookupSuffixes hs sf groups srcGroups acc = Some src \<Longrightarrow> applies srcGroups src groups"
  by (auto simp: hs_lookupSuffixes_def dest!: hs_lookup_SomeD first_some_SomeD split: if_splits)

lemma mod_lookup_applies:
  "sorted (map mr_hash t) \<Longrightarrow> mod_lookup t sf qtype groups srcGroups = Some j \<Longrightarrow> applies srcGroups (mr_src (t ! j)) groups"
  by (auto simp: mod_lookup_def mod_applies_def dest!: first_some_SomeD probe_run_SomeD split: if_splits)

lemma ps_lookup_applies:
  "ps_wf ps \<Longrightarrow> ps_lookup matches ps q groups srcGroups acc = Some i \<Longrightarrow> applies srcGroups (pat_src (ps_pats ps ! i)) groups"
  by (auto simp: pat_applies_def dest: ps_lookup_SomeD)

lemmas lookups_apply = hs_lookupExact_applies hs_lookupSuffixes_applies mod_lookup_applies ps_lookup_applies

text \<open>A decision of the lists is that of a source that shares a group with the client.\<close>

definition from_list :: "'re snapshot \<Rightarrow> int list \<Rightarrow> int list list \<Rightarrow> Decision \<Rightarrow> bool" where
  "from_list s groups srcGroups d \<longleftrightarrow> (\<exists>src t k. d = listDecision s src t k \<and> applies srcGroups src groups)"

lemma from_listI [intro]: "applies srcGroups src groups \<Longrightarrow> from_list s groups srcGroups (listDecision s src t k)"
  by (auto simp: from_list_def)

lemma checkTier_from_list:
  assumes "tier_wf (lm_tiers (sn_lists s) ! t)"
    and "checkTier matches s t q qtype sf groups srcGroups skip = Some d"
  shows "from_list s groups srcGroups d"
proof -
  have "hs_wf (lt_exact (lm_tiers (sn_lists s) ! t))" "hs_wf (lt_subtree (lm_tiers (sn_lists s) ! t))"
    "sorted (map mr_hash (lt_mods (lm_tiers (sn_lists s) ! t)))" "ps_wf (lt_pats (lm_tiers (sn_lists s) ! t))"
    using assms(1) by (simp_all add: tier_wf_def)
  then show ?thesis
    using assms(2) unfolding checkTier_def Let_def
    by (auto split: option.splits if_splits intro!: from_listI intro: lookups_apply)
qed

lemma check_from_list:
  assumes "\<forall>t < numTiers. tier_wf (lm_tiers (sn_lists s) ! t)"
    and "d = snap_check matches s q qtype groups rulesOnly" and "d_Source d = ''list''"
  shows "from_list s groups (sn_listGroups s) d"
proof -
  have "first_some id (check_steps matches s q qtype groups rulesOnly) = Some d"
    using assms(2,3) by (auto simp: snap_check_def no_Decision_def split: option.splits if_splits)
  then have "Some d \<in> set (check_steps matches s q qtype groups rulesOnly)" by (auto dest: first_some_SomeD)
  moreover have "ps_wf (lt_pats (lm_tiers (sn_lists s) ! tierBlock))"
    using assms(1) by (simp add: tier_wf_def tier_defs)
  ultimately consider t where "t < numTiers"
      "checkTier matches s t q qtype (compute q) groups (sn_listGroups s) (t = tierBlock) = Some d"
    | i where "ps_lookup matches (lt_pats (lm_tiers (sn_lists s) ! tierBlock)) q groups (sn_listGroups s) None = Some i"
      "d = listDecision s (pat_src (ps_pats (lt_pats (lm_tiers (sn_lists s) ! tierBlock)) ! i)) tierBlock ''regex''"
    using assms(3)
    by (auto simp: check_steps_def Let_def rule_exact_def rule_subtree_def rule_regex_def checkInverted_def
        Some_eq_map_option simp del: upt_Suc split: if_splits)
  then show ?thesis
    using assms(1) checkTier_from_list ps_lookup_applies \<open>ps_wf _\<close> by cases blast+
qed

lemma checkProtection_from_list:
  assumes "\<forall>t < numTiers. tier_wf (lm_tiers (sn_lists s) ! t)"
    and "d = checkProtection matches s q qtype groups" and "d_Action d \<noteq> ActionNone"
  shows "from_list s groups (sn_protGroups s) d"
proof -
  have "first_some (\<lambda>t. checkTier matches s t q qtype (compute q) groups (sn_protGroups s) False) [0..<numTiers] = Some d"
    using assms(2,3) by (auto simp: checkProtection_def no_Decision_def split: option.splits if_splits)
  then show ?thesis using assms(1) by (auto dest!: first_some_SomeD intro: checkTier_from_list)
qed


text \<open>The witness: one enabled list whose only entry, in the block tier, is an exact domain.\<close>

definition ex_tier :: "u64 list \<Rightarrow> string listTier" where
  "ex_tier hs = \<lparr>lt_exact = \<lparr>hs_h = hs, hs_src = map (\<lambda>_. 0) hs\<rparr>, lt_subtree = no_hashSet, lt_mods = [], lt_pats = newPatternSet []\<rparr>"

definition ex_lists :: "string listMatcher" where
  "ex_lists = \<lparr>lm_tiers = [ex_tier [], ex_tier [], ex_tier [], ex_tier [hashName ''x.y'']], lm_ip = [], lm_ids = [5],
     lm_entries = 1, lm_patterns = 0, lm_dropped = 0, lm_modified = 0, lm_modDropped = 0, lm_ipEntries = 0\<rparr>"

definition ex_published :: "string snapshot" where
  "ex_published = publishLocked [5 \<mapsto> \<lparr>rt_Name = ''l'', rt_Category = ''other'', rt_Enabled = True, rt_GroupIDs = [1]\<rparr>]
     ex_snapshot (Some ex_lists) (Some (buildRuleMatcher id [])) None"


end
