(* ===== verification/ListFiles.thy ===== *)
theory ListFiles
  imports ListParser FilterMatcher
begin

text \<open>
  List files, \<^verbatim>\<open>internal/dns/filter/parse.go\<close>: the split of a file into lines with its content rules
  (\<^verbatim>\<open>scanLines\<close>) and the parse of a whole domain list (\<^verbatim>\<open>parseList\<close>) with duplicates, \<^verbatim>\<open>$badfilter\<close>
  and the budgets of patterns and modified entries.
\<close>

section \<open>Lines of a file\<close>

definition maxLineLen :: nat where "maxLineLen = 65536"
definition ctxCheckInterval :: nat where "ctxCheckInterval = 16384"

text \<open>
  How the reader ends: at the end of the file, reported by a read of its own, or with an error.
  \<^verbatim>\<open>bufio.Reader.ReadSlice\<close> on the unread rest of the file with a buffer of \<^verbatim>\<open>maxLineLen\<close> bytes.
\<close>

datatype read_end = EOF | ReadErr

datatype slice_err = NoErr | ErrBufferFull | Ended

definition ReadSlice :: "string \<Rightarrow> string \<times> string \<times> slice_err" where
  "ReadSlice s =
     (case strings_IndexByte (take maxLineLen s) (CHR 0x0A) of
        Some i \<Rightarrow> (take (i + 1) s, drop (i + 1) s, NoErr)
      | None \<Rightarrow> if length s \<ge> maxLineLen then (take maxLineLen s, drop maxLineLen s, ErrBufferFull) else (s, [], Ended))"

datatype scan_error = errHTML | errBinary | errCanceled | errRead

definition hasControl :: "string \<Rightarrow> bool" where
  "hasControl b = list_ex (\<lambda>c. of_char c < (0x20 :: nat) \<and> c \<noteq> CHR 0x09 \<and> c \<noteq> CHR 0x0D \<and> c \<noteq> CHR 0x0A \<or> c = CHR 0x7F) b"

text \<open>\<^verbatim>\<open>EqualFold\<close> with a prefix of which no letter has a case variant outside ASCII.\<close>

definition hasPrefixFold :: "string \<Rightarrow> string \<Rightarrow> bool" where
  "hasPrefixFold b pre \<longleftrightarrow> length b \<ge> length pre \<and> map lower_char (take (length pre) b) = pre"

definition BOM :: string where "BOM = [CHR 0xEF, CHR 0xBB, CHR 0xBF]"

definition is_html :: "string \<Rightarrow> bool" where
  "is_html t \<longleftrightarrow> hasPrefixFold t ''<html'' \<or> hasPrefixFold t ''<!doctype''"

definition trim_eol :: "string \<Rightarrow> string" where
  "trim_eol l = rev (dropWhile (\<lambda>c. c = CHR 0x0D \<or> c = CHR 0x0A) (rev l))"

lemma ReadSlice_length:
  "ReadSlice s = (l, rest, e) \<Longrightarrow> e \<noteq> Ended \<Longrightarrow> length rest < length s"
proof -
  assume r: "ReadSlice s = (l, rest, e)" "e \<noteq> Ended"
  then consider (nl) i where "strings_IndexByte (take maxLineLen s) (CHR 0x0A) = Some i" "rest = drop (i + 1) s"
    | (full) "length s \<ge> maxLineLen" "rest = drop maxLineLen s"
    by (auto simp: ReadSlice_def split: option.splits if_splits)
  then show ?thesis
  proof cases
    case nl
    then have "CHR 0x0A \<in> set (take maxLineLen s)" by (auto simp: strings_IndexByte_def split: if_splits)
    then have "s \<noteq> []" by auto
    with nl show ?thesis by simp
  next
    case full
    then show ?thesis by (simp add: maxLineLen_def)
  qed
qed

text \<open>The rest of a line that is too long.\<close>

function skip_long :: "string \<Rightarrow> scan_error + string \<times> slice_err" where
  "skip_long s =
     (let (more, rest, e) = ReadSlice s in
      if hasControl more then Inl errBinary
      else if e = ErrBufferFull then skip_long rest
      else Inr (rest, e))"
  by pat_completeness auto
termination
  by (relation "measure length") (auto dest: ReadSlice_length [OF sym])

declare skip_long.simps [simp del]

lemma skip_long_length: "skip_long s = Inr (rest, e) \<Longrightarrow> length rest \<le> length s"
proof (induction s arbitrary: rest e rule: skip_long.induct)
  case (1 s)
  obtain more rest' e' where r: "ReadSlice s = (more, rest', e')" by (cases "ReadSlice s") auto
  show ?case
  proof (cases "e' = ErrBufferFull")
    case True
    with 1 r have "length rest \<le> length rest'" by (auto simp: skip_long.simps [of s] split: if_splits)
    with ReadSlice_length [OF r] True show ?thesis by simp
  next
    case False
    with "1.prems" r have "rest = rest'" by (auto simp: skip_long.simps [of s] split: if_splits)
    then show ?thesis using r by (auto simp: ReadSlice_def split: option.splits if_splits)
  qed
qed

text \<open>
  \<^verbatim>\<open>scanLines\<close>: the calls of the callback in order, \<open>None\<close> for an overlong line. \<open>canceled n\<close> is the
  state of the context when line \<open>n\<close> is read.
\<close>

function scan_from ::
    "(nat \<Rightarrow> bool) \<Rightarrow> read_end \<Rightarrow> nat \<Rightarrow> bool \<Rightarrow> string \<Rightarrow> string option list \<Rightarrow> scan_error + string option list" where
  "scan_from canceled ending n sawContent s acc =
     (if n mod ctxCheckInterval = 0 \<and> canceled n then Inl errCanceled
      else let (l0, rest, e) = ReadSlice s;
             line = (if n = 0 then strings_TrimPrefix l0 BOM else l0);
             t = strings_TrimSpace line;
             finish = (case ending of EOF \<Rightarrow> Inr | ReadErr \<Rightarrow> \<lambda>_. Inl errRead) in
        if hasControl line then Inl errBinary
        else if \<not> sawContent \<and> t \<noteq> [] \<and> is_html t then Inl errHTML
        else let saw = (sawContent \<or> t \<noteq> []) in
          if e = ErrBufferFull then
            case skip_long rest of
              Inl err \<Rightarrow> Inl err
            | Inr (rest', e') \<Rightarrow>
                if e' = Ended then finish (acc @ [None])
                else scan_from canceled ending (n + 1) saw rest' (acc @ [None])
          else
            let acc' = (if trim_eol line \<noteq> [] then acc @ [Some (trim_eol line)] else acc) in
            if e = Ended then finish acc' else scan_from canceled ending (n + 1) saw rest acc')"
  by pat_completeness auto
termination
proof (relation "measure (\<lambda>(_, _, _, _, s, _). length s)", goal_cases)
  case (2 canceled ending n saw s acc a l0 b rest e line t finish saw' c rest' e')
  then show ?case using ReadSlice_length [of s l0 rest e] skip_long_length [of rest rest' e'] by auto
next
  case (3 canceled ending n saw s acc a l0 b rest e line t finish saw' acc')
  then show ?case using ReadSlice_length [of s l0 rest e] by (cases e) auto
qed auto

declare scan_from.simps [simp del]

definition scanLines :: "(nat \<Rightarrow> bool) \<Rightarrow> read_end \<Rightarrow> string \<Rightarrow> scan_error + string option list" where
  "scanLines canceled ending data = scan_from canceled ending 0 False data []"

section \<open>What the scan delivers\<close>

text \<open>
  The reference: the file split at its line feeds; a line of 64 KiB or more is reported without its
  content, trailing carriage returns and the byte order mark of the first line are removed, empty
  lines are left out.
\<close>

definition seg_line :: "nat \<times> string \<Rightarrow> string option option" where
  "seg_line il =
     (if length (snd il) \<ge> maxLineLen then Some None
      else let t = trim_eol (if fst il = 0 then strings_TrimPrefix (snd il) BOM else snd il) in
        if t = [] then None else Some (Some t))"

definition lines_from :: "nat \<Rightarrow> string \<Rightarrow> string option list" where
  "lines_from n data = List.map_filter seg_line (enumerate n (strings_Split (CHR 0x0A) data))"

definition file_lines :: "string \<Rightarrow> string option list" where
  "file_lines data = lines_from 0 data"

lemma hasControl_append [simp]: "hasControl (a @ b) \<longleftrightarrow> hasControl a \<or> hasControl b"
  by (simp add: hasControl_def)

lemma hasControl_Nil [simp]: "\<not> hasControl []"
  by (simp add: hasControl_def)

lemma hasControl_nl [simp]: "hasControl (CHR 0x0A # s) \<longleftrightarrow> hasControl s"
  by (simp add: hasControl_def)

lemma IndexByte_Some: "strings_IndexByte s c = Some i \<Longrightarrow> i < length s \<and> s ! i = c \<and> c \<notin> set (take i s)"
proof -
  assume "strings_IndexByte s c = Some i"
  then obtain xs ys where s: "s = xs @ c # ys" "c \<notin> set xs" and i: "i = length (takeWhile (\<lambda>x. x \<noteq> c) s)"
    by (auto simp: strings_IndexByte_def split: if_splits dest: split_list_first)
  have "takeWhile (\<lambda>x. x \<noteq> c) (xs @ c # ys) = xs" using s(2) by (induction xs) auto
  with i s have "i = length xs" by simp
  with s show ?thesis by simp
qed

lemma ReadSlice_NoErr:
  assumes "ReadSlice s = (l, rest, NoErr)"
  obtains l' where "l = l' @ [CHR 0x0A]" "s = l' @ CHR 0x0A # rest" "CHR 0x0A \<notin> set l'" "length l' < maxLineLen"
proof -
  obtain i where i: "strings_IndexByte (take maxLineLen s) (CHR 0x0A) = Some i" "l = take (i + 1) s" "rest = drop (i + 1) s"
    using assms by (auto simp: ReadSlice_def split: option.splits if_splits)
  have f: "i < maxLineLen" "i < length s" "s ! i = CHR 0x0A" "CHR 0x0A \<notin> set (take i s)"
    using IndexByte_Some [OF i(1)] by auto
  have "l = take i s @ [CHR 0x0A]" using i(2) f(2,3) by (simp add: take_Suc_conv_app_nth)
  moreover have "s = take i s @ CHR 0x0A # rest" using i(3) f(2,3) by (metis Suc_eq_plus1 id_take_nth_drop)
  ultimately show thesis using that [of "take i s"] f by simp
qed

lemma ReadSlice_Full:
  "ReadSlice s = (l, rest, ErrBufferFull) \<Longrightarrow> s = l @ rest \<and> CHR 0x0A \<notin> set l \<and> length l = maxLineLen"
  by (auto simp: ReadSlice_def strings_IndexByte_def split: option.splits if_splits)

lemma ReadSlice_Ended:
  "ReadSlice s = (l, rest, Ended) \<Longrightarrow> l = s \<and> rest = [] \<and> CHR 0x0A \<notin> set s \<and> length s < maxLineLen"
  by (auto simp: ReadSlice_def strings_IndexByte_def split: option.splits if_splits)

lemma ReadSlice_parts: "ReadSlice s = (l, rest, e) \<Longrightarrow> s = l @ rest"
  by (cases e) (auto dest: ReadSlice_Full ReadSlice_Ended elim: ReadSlice_NoErr)

lemma skip_long_result:
  "skip_long s = Inr (rest, e) \<Longrightarrow>
   \<exists>l. CHR 0x0A \<notin> set l \<and> \<not> hasControl l \<and> (e = NoErr \<and> s = l @ CHR 0x0A # rest \<or> e = Ended \<and> s = l \<and> rest = [])"
proof (induction s arbitrary: rest e rule: skip_long.induct)
  case (1 s)
  obtain more rest1 e1 where r: "ReadSlice s = (more, rest1, e1)" by (cases "ReadSlice s") auto
  with "1.prems" have nc: "\<not> hasControl more" by (auto simp: skip_long.simps [of s])
  show ?case
  proof (cases e1)
    case NoErr
    with r obtain l' where "more = l' @ [CHR 0x0A]" "s = l' @ CHR 0x0A # rest1" "CHR 0x0A \<notin> set l'"
      by (auto elim: ReadSlice_NoErr)
    moreover have "rest = rest1" "e = NoErr" using NoErr nc r "1.prems" by (auto simp: skip_long.simps [of s])
    ultimately show ?thesis using nc by auto
  next
    case ErrBufferFull
    with r nc "1.prems" have "skip_long rest1 = Inr (rest, e)" by (auto simp: skip_long.simps [of s])
    then obtain l where l: "CHR 0x0A \<notin> set l" "\<not> hasControl l"
        "e = NoErr \<and> rest1 = l @ CHR 0x0A # rest \<or> e = Ended \<and> rest1 = l \<and> rest = []"
      using "1.IH" [OF r [symmetric] refl refl nc ErrBufferFull] by blast
    with ReadSlice_Full [of s more rest1] r ErrBufferFull nc show ?thesis
      by (intro exI [of _ "more @ l"]) auto
  next
    case Ended
    with r nc "1.prems" ReadSlice_Ended [of s more rest1] show ?thesis by (auto simp: skip_long.simps [of s])
  qed
qed

lemma skip_long_total: "\<not> hasControl s \<Longrightarrow> \<exists>rest e. skip_long s = Inr (rest, e)"
proof (induction s rule: skip_long.induct)
  case (1 s)
  obtain more rest e where r: "ReadSlice s = (more, rest, e)" by (cases "ReadSlice s") auto
  then have "\<not> hasControl more" "\<not> hasControl rest" using "1.prems" ReadSlice_parts [OF r] by auto
  with 1 r show ?case by (auto simp: skip_long.simps [of s])
qed

lemma lines_from_nl:
  "CHR 0x0A \<notin> set l \<Longrightarrow> lines_from n (l @ CHR 0x0A # rest) =
     (case seg_line (n, l) of None \<Rightarrow> [] | Some x \<Rightarrow> [x]) @ lines_from (n + 1) rest"
  by (simp add: lines_from_def Split_append_sep List.map_filter_def split: option.splits)

lemma lines_from_last:
  "CHR 0x0A \<notin> set l \<Longrightarrow> lines_from n l = (case seg_line (n, l) of None \<Rightarrow> [] | Some x \<Rightarrow> [x])"
  by (simp add: lines_from_def Split_no_sep_id List.map_filter_def split: option.splits)

lemma trim_eol_nl [simp]: "trim_eol (l @ [CHR 0x0A]) = trim_eol l"
  by (simp add: trim_eol_def)

lemma TrimPrefix_BOM_nl: "strings_TrimPrefix (l @ [CHR 0x0A]) BOM = strings_TrimPrefix l BOM @ [CHR 0x0A]"
  by (cases l rule: rev_cases; cases "length l < 3")
    (auto simp: strings_TrimPrefix_def strings_CutPrefix_def strings_HasPrefix_def BOM_def take_Cons' split: if_splits)

lemma hasControl_TrimPrefix_BOM: "hasControl (strings_TrimPrefix l BOM) = hasControl l"
proof (cases "strings_HasPrefix l BOM")
  case True
  then obtain t where "l = BOM @ t" by (auto simp: HasPrefix_iff prefix_def)
  moreover have "\<not> hasControl BOM" by code_simp
  ultimately show ?thesis by (simp add: strings_TrimPrefix_def strings_CutPrefix_def strings_HasPrefix_def)
qed (simp add: strings_TrimPrefix_def strings_CutPrefix_def)

lemma set_TrimSpace: "set (strings_TrimSpace s) \<subseteq> set s"
proof -
  have front: "set (trim_front seqs s) \<subseteq> set s" for seqs s
  proof (induction seqs s rule: trim_front.induct)
    case (1 seqs s)
    then show ?case by (subst trim_front.simps) (auto simp: Let_def dest: in_set_dropD)
  qed
  have "set (trim_front (map rev wide_spaces) (rev (trim_front wide_spaces s))) \<subseteq> set (trim_front wide_spaces s)"
    using front [of "map rev wide_spaces" "rev (trim_front wide_spaces s)"] by simp
  with front [of wide_spaces s] show ?thesis unfolding strings_TrimSpace_def by auto
qed

lemma lower_char_lt: "lower_char c = CHR ''<'' \<Longrightarrow> c = CHR ''<''"
proof (rule ccontr)
  assume low: "lower_char c = CHR ''<''" and "c \<noteq> CHR ''<''"
  then have rng: "CHR ''A'' \<le> c" "c \<le> CHR ''Z''" and "char_of (of_char c + 32 :: nat) = CHR ''<''"
    by (auto simp: lower_char_def split: if_splits)
  then have "of_char (char_of (of_char c + 32 :: nat) :: char) = (60 :: nat)" by simp
  moreover have "(of_char c :: nat) + 32 < 256" "65 \<le> (of_char c :: nat)" using rng by (auto simp: less_eq_char_def)
  ultimately show False by (simp add: of_char_of)
qed

lemma not_html: "CHR ''<'' \<notin> set s \<Longrightarrow> \<not> is_html (strings_TrimSpace s)"
proof
  assume lt: "CHR ''<'' \<notin> set s" and "is_html (strings_TrimSpace s)"
  then obtain pre where "hasPrefixFold (strings_TrimSpace s) (CHR ''<'' # pre)" by (auto simp: is_html_def)
  then obtain c t where "strings_TrimSpace s = c # t" "lower_char c = CHR ''<''"
    by (cases "strings_TrimSpace s") (auto simp: hasPrefixFold_def)
  then have "CHR ''<'' \<in> set (strings_TrimSpace s)" using lower_char_lt by auto
  with set_TrimSpace [of s] lt show False by blast
qed

lemma scan_from_lines:
  "scan_from canceled ending n saw s acc = Inr ls \<Longrightarrow> ls = acc @ lines_from n s \<and> \<not> hasControl s"
proof (induction canceled ending n saw s acc rule: scan_from.induct)
  case (1 canceled ending n saw s acc)
  obtain l0 rest e where r: "ReadSlice s = (l0, rest, e)" by (cases "ReadSlice s") auto
  define line where "line = (if n = 0 then strings_TrimPrefix l0 BOM else l0)"
  define saw' where "saw' = (saw \<or> strings_TrimSpace line \<noteq> [])"
  define acc' where "acc' = (if trim_eol line \<noteq> [] then acc @ [Some (trim_eol line)] else acc)"
  define body where "body = (if e = ErrBufferFull then
            case skip_long rest of
              Inl err \<Rightarrow> Inl err
            | Inr (rest', e') \<Rightarrow>
                if e' = Ended then (case ending of EOF \<Rightarrow> Inr | ReadErr \<Rightarrow> \<lambda>_. Inl errRead) (acc @ [None])
                else scan_from canceled ending (n + 1) saw' rest' (acc @ [None])
          else if e = Ended then (case ending of EOF \<Rightarrow> Inr | ReadErr \<Rightarrow> \<lambda>_. Inl errRead) acc'
            else scan_from canceled ending (n + 1) saw' rest acc')"
  have eq: "scan_from canceled ending n saw s acc =
      (if n mod ctxCheckInterval = 0 \<and> canceled n then Inl errCanceled
       else if hasControl line then Inl errBinary
       else if \<not> saw \<and> strings_TrimSpace line \<noteq> [] \<and> is_html (strings_TrimSpace line) then Inl errHTML else body)"
    unfolding body_def acc'_def saw'_def line_def by (subst scan_from.simps) (simp only: r Let_def prod.case)
  have unf: "body = Inr ls" and go: "\<not> (n mod ctxCheckInterval = 0 \<and> canceled n)" and nc: "\<not> hasControl line"
    and nh: "\<not> (\<not> saw \<and> strings_TrimSpace line \<noteq> [] \<and> is_html (strings_TrimSpace line))"
    using "1.prems" unfolding eq by (auto split: if_splits)
  note unf = unf [unfolded body_def]
  have nc0: "\<not> hasControl l0" using nc by (simp add: line_def hasControl_TrimPrefix_BOM split: if_splits)
  show ?case
  proof (cases e)
    case ErrBufferFull
    obtain rest' e' where sk: "skip_long rest = Inr (rest', e')" using unf ErrBufferFull by (auto split: sum.splits)
    obtain l where l: "CHR 0x0A \<notin> set l" "\<not> hasControl l" "e' = NoErr \<and> rest = l @ CHR 0x0A # rest' \<or> e' = Ended \<and> rest = l \<and> rest' = []"
      using skip_long_result [OF sk] by blast
    have full: "s = l0 @ rest" "CHR 0x0A \<notin> set l0" "length l0 = maxLineLen" using ReadSlice_Full r ErrBufferFull by auto
    have seg: "seg_line (n, l0 @ l) = Some None" using full(3) by (simp add: seg_line_def)
    show ?thesis
    proof (cases "e' = Ended")
      case True
      then show ?thesis using l full seg nc0 unf ErrBufferFull sk lines_from_last [of "l0 @ l" n]
        by (auto split: read_end.splits)
    next
      case False
      with l(3) have e': "e' = NoErr" "rest = l @ CHR 0x0A # rest'" by auto
      have "scan_from canceled ending (n + 1) saw' rest' (acc @ [None]) = Inr ls" using unf ErrBufferFull sk False by simp
      then have "ls = acc @ [None] @ lines_from (n + 1) rest' \<and> \<not> hasControl rest'"
        using "1.IH"(1) [OF go r [symmetric] refl refl line_def refl refl nc nh saw'_def ErrBufferFull sk refl False] by simp
      with l full e' seg nc0 lines_from_nl [of "l0 @ l" n rest'] show ?thesis by simp
    qed
  next
    case NoErr
    then obtain l' where l': "l0 = l' @ [CHR 0x0A]" "s = l' @ CHR 0x0A # rest" "CHR 0x0A \<notin> set l'" "length l' < maxLineLen"
      using r by (auto elim: ReadSlice_NoErr)
    have "scan_from canceled ending (n + 1) saw' rest acc' = Inr ls" using unf NoErr by simp
    then have "ls = acc' @ lines_from (n + 1) rest \<and> \<not> hasControl rest"
      using "1.IH"(2) [OF go r [symmetric] refl refl line_def refl refl nc nh saw'_def _ acc'_def] NoErr by simp
    moreover have "acc' = acc @ (case seg_line (n, l') of None \<Rightarrow> [] | Some x \<Rightarrow> [x])"
      using l'(4) by (auto simp: acc'_def line_def l'(1) seg_line_def TrimPrefix_BOM_nl Let_def)
    ultimately show ?thesis using nc0 l' lines_from_nl [OF l'(3), of n rest] by simp
  next
    case Ended
    then have "l0 = s" "CHR 0x0A \<notin> set s" "length s < maxLineLen" using r ReadSlice_Ended by auto
    then show ?thesis using unf Ended nc0 lines_from_last [of s n]
      by (auto simp: acc'_def line_def seg_line_def Let_def split: read_end.splits if_splits)
  qed
qed

lemma scan_from_total:
  "\<not> hasControl s \<Longrightarrow> CHR ''<'' \<notin> set s \<Longrightarrow> \<exists>ls. scan_from (\<lambda>_. False) EOF n saw s acc = Inr ls"
proof (induction "length s" arbitrary: s n saw acc rule: less_induct)
  case less
  obtain l0 rest e where r: "ReadSlice s = (l0, rest, e)" by (cases "ReadSlice s") auto
  have parts: "s = l0 @ rest" by (rule ReadSlice_parts [OF r])
  define line where "line = (if n = 0 then strings_TrimPrefix l0 BOM else l0)"
  have sub: "set line \<subseteq> set l0"
    by (auto simp: line_def strings_TrimPrefix_def strings_CutPrefix_def dest: in_set_dropD split: if_splits)
  have nc: "\<not> hasControl line" using less.prems(1) parts by (simp add: line_def hasControl_TrimPrefix_BOM)
  have nh: "\<not> is_html (strings_TrimSpace line)" using not_html less.prems(2) parts sub by auto
  have IH: "\<exists>ls. scan_from (\<lambda>_. False) EOF m saw' t acc' = Inr ls" if "length t < length s" "set t \<subseteq> set s" "\<not> hasControl t" for t m saw' acc'
    using less.hyps [OF that(1,3)] that(2) less.prems(2) by blast
  show ?case
  proof (cases e)
    case ErrBufferFull
    obtain rest' e' where sk: "skip_long rest = Inr (rest', e')" using skip_long_total less.prems(1) parts by fastforce
    from skip_long_result [OF sk] have sub': "set rest' \<subseteq> set rest" and nc': "\<not> hasControl rest'" and "length rest' \<le> length rest"
      using less.prems(1) parts by auto
    then have shorter: "length rest' < length s" using ReadSlice_length [OF r] ErrBufferFull by simp
    have "\<exists>ls. scan_from (\<lambda>_. False) EOF m saw' rest' acc' = Inr ls" for m saw' acc'
      by (rule IH [OF shorter _ nc']) (use parts sub' in auto)
    then show ?thesis using ErrBufferFull r sk nc nh
      by (subst scan_from.simps) (auto simp: Let_def simp flip: line_def)
  next
    case NoErr
    then have "\<exists>ls. scan_from (\<lambda>_. False) EOF m saw' rest acc' = Inr ls" for m saw' acc'
      by (intro IH) (use ReadSlice_length [OF r] NoErr parts less.prems(1) in auto)
    then show ?thesis using NoErr r nc nh
      by (subst scan_from.simps) (auto simp: Let_def simp flip: line_def)
  next
    case Ended
    then show ?thesis using r nc nh by (subst scan_from.simps) (auto simp: Let_def simp flip: line_def)
  qed
qed

lemma scanLines_ok:
  "\<not> hasControl data \<Longrightarrow> CHR ''<'' \<notin> set data \<Longrightarrow> scanLines (\<lambda>_. False) EOF data = Inr (file_lines data)"
  using scan_from_total [of data 0 False "[]"] scan_from_lines [of "\<lambda>_. False" EOF 0 False data "[]"]
  by (auto simp: scanLines_def file_lines_def)



section \<open>Domain lists\<close>

text \<open>The local variables of \<^verbatim>\<open>parseList\<close>.\<close>

record 're plState =
  pl_res :: "'re parsed"
  pl_bad :: "badKey set"
  pl_seenPats :: "string set"
  pl_cost :: int
  pl_seenMods :: "badKey set"
  pl_modKeys :: "string list list"
  pl_typeSets :: "string \<rightharpoonup> typeSet"
  pl_modCount :: nat
  pl_perName :: "nat \<times> kind \<times> u64 \<Rightarrow> nat"

definition pl_init :: "listFormat \<Rightarrow> 're plState" where
  "pl_init f = \<lparr>pl_res = new_parsed f, pl_bad = {}, pl_seenPats = {}, pl_cost = 0, pl_seenMods = {},
     pl_modKeys = replicate numTiers [], pl_typeSets = Map.empty, pl_modCount = 0, pl_perName = (\<lambda>_. 0)\<rparr>"

definition pl_unsupported :: "'re plState \<Rightarrow> 're plState" where
  "pl_unsupported st = st\<lparr>pl_res := (pl_res st)\<lparr>p_unsupported := p_unsupported (pl_res st) + 1\<rparr>\<rparr>"

definition pl_invalid :: "'re plState \<Rightarrow> 're plState" where
  "pl_invalid st = st\<lparr>pl_res := (pl_res st)\<lparr>p_invalid := p_invalid (pl_res st) + 1\<rparr>\<rparr>"

text \<open>A modified entry: its row and the shared type set of its key.\<close>

definition mod_row :: "entry \<Rightarrow> badKey \<Rightarrow> typeSet option \<Rightarrow> modRow" where
  "mod_row e key types = \<lparr>mr_hash = bk_hash key, mr_src = 0, mr_kind = e_kind e, mr_types = types, mr_deny = denyHashes (e_deny e)\<rparr>"

definition pl_mod :: "'re libs \<Rightarrow> nat \<Rightarrow> entry \<Rightarrow> 're plState \<Rightarrow> 're plState" where
  "pl_mod L tier e st =
     (let key = e_badKey (QTypeName L) e tier; name = (tier, e_kind e, bk_hash key) in
      if key \<in> pl_seenMods st then st
      else if pl_modCount st \<ge> maxModified \<or> pl_perName st name \<ge> maxModsPerName then pl_unsupported st
      else
        let tk = ts_key (QTypeName L) (e_types e);
            types = (if tk \<noteq> [] then Some (case pl_typeSets st tk of Some ts \<Rightarrow> ts | None \<Rightarrow> e_types e) else None);
            res = pl_res st in
        st\<lparr>pl_modCount := pl_modCount st + 1,
           pl_perName := (pl_perName st)(name := pl_perName st name + 1),
           pl_seenMods := insert key (pl_seenMods st),
           pl_typeSets := (if tk \<noteq> [] then (pl_typeSets st)(tk := types) else pl_typeSets st),
           pl_res := res\<lparr>p_mods := (p_mods res)[tier := p_mods res ! tier @ [mod_row e key types]]\<rparr>,
           pl_modKeys := (pl_modKeys st)[tier := pl_modKeys st ! tier @ [bk_mods key]]\<rparr>)"

definition pl_pattern :: "'re libs \<Rightarrow> nat \<Rightarrow> entry \<Rightarrow> 're plState \<Rightarrow> 're plState" where
  "pl_pattern L tier e st =
     (let key = char_of (48 + tier) # e_source e; res = pl_res st in
      if key \<in> pl_seenPats st then st
      else if length (p_pats res) \<ge> maxPatterns then pl_unsupported st
      else case compileRegex L (e_source e) (maxPatternCost - pl_cost st) of
          Inl errTooComplex \<Rightarrow> pl_unsupported st
        | Inl errParse \<Rightarrow> pl_invalid st
        | Inr (re, c) \<Rightarrow>
            st\<lparr>pl_cost := pl_cost st + c, pl_seenPats := insert key (pl_seenPats st),
               pl_res := res\<lparr>p_pats := p_pats res @ [\<lparr>pp_re = re, pp_lit = e_lit e, pp_cost = c, pp_tier = tier\<rparr>]\<rparr>\<rparr>)"

definition pl_entry :: "'re libs \<Rightarrow> bool \<Rightarrow> entry \<Rightarrow> 're plState \<Rightarrow> 're plState" where
  "pl_entry L allowList e st =
     (let tier = e_tier e allowList; res = pl_res st in
      if e_badfilter e then st\<lparr>pl_bad := insert (e_badKey (QTypeName L) e tier) (pl_bad st)\<rparr>
      else if e_kind e \<noteq> kindPattern \<and> e_modified e then pl_mod L tier e st
      else if e_kind e \<noteq> kindPattern then
        st\<lparr>pl_res := res\<lparr>p_sets := append_cell tier (kind_index (e_kind e)) (hashName (e_domain e)) (p_sets res)\<rparr>\<rparr>
      else pl_pattern L tier e st)"

definition pl_line :: "'re libs \<Rightarrow> listFormat \<Rightarrow> string option \<Rightarrow> 're plState \<Rightarrow> 're plState" where
  "pl_line L f line st =
     (case line of
        None \<Rightarrow> pl_invalid st
      | Some l \<Rightarrow>
          let (entries, status) = lp_parse L (newLineParser f) l in
          (case status of
             lineInvalid \<Rightarrow> pl_invalid st
           | lineBroad \<Rightarrow> pl_invalid (st\<lparr>pl_res := (pl_res st)\<lparr>p_broad := p_broad (pl_res st) + 1\<rparr>\<rparr>)
           | lineUnsupported \<Rightarrow> pl_unsupported st
           | lineSkip \<Rightarrow> st
           | lineOK \<Rightarrow> fold (pl_entry L (lf_kind f = ''allow'')) entries st))"

text \<open>What remains after the lines: sorting, and the cancellations of \<^verbatim>\<open>$badfilter\<close>.\<close>

definition set_key :: "nat \<Rightarrow> kind \<Rightarrow> u64 \<Rightarrow> badKey" where
  "set_key t k h = \<lparr>bk_tier = t, bk_kind = k, bk_hash = h, bk_re = [], bk_mods = []\<rparr>"

definition finish_set :: "badKey set \<Rightarrow> nat \<Rightarrow> kind \<Rightarrow> u64 list \<Rightarrow> u64 list" where
  "finish_set bad t k hs = filter (\<lambda>h. set_key t k h \<notin> bad) (sort_compact hs)"

definition finish_mods :: "badKey set \<Rightarrow> nat \<Rightarrow> modRow list \<Rightarrow> string list \<Rightarrow> modRow list" where
  "finish_mods bad t rows keys =
     sortMods (map fst (filter (\<lambda>(row, mods). \<lparr>bk_tier = t, bk_kind = mr_kind row, bk_hash = mr_hash row, bk_re = [], bk_mods = mods\<rparr> \<notin> bad)
       (zip rows keys)))"

definition finish_pats :: "'re libs \<Rightarrow> badKey set \<Rightarrow> 're parsedPattern list \<Rightarrow> 're parsedPattern list" where
  "finish_pats L bad pats =
     filter (\<lambda>p. \<lparr>bk_tier = pp_tier p, bk_kind = kindPattern, bk_hash = 0, bk_re = re_String L (pp_re p), bk_mods = []\<rparr> \<notin> bad) pats"

definition pl_finish :: "'re libs \<Rightarrow> 're plState \<Rightarrow> 're parsed" where
  "pl_finish L st =
     (let res = pl_res st; bad = pl_bad st;
          sets = map (\<lambda>t. [finish_set bad t kindExact (p_sets res ! t ! 0), finish_set bad t kindSubtree (p_sets res ! t ! 1)]) [0..<numTiers];
          mods = map (\<lambda>t. finish_mods bad t (p_mods res ! t) (pl_modKeys st ! t)) [0..<numTiers];
          pats = finish_pats L bad (p_pats res);
          modified = sum_list (map length mods) in
      res\<lparr>p_sets := sets, p_mods := mods, p_pats := pats, p_modified := modified,
          p_entries := sum_list (map (\<lambda>row. sum_list (map length row)) sets) + modified + length pats\<rparr>)"

definition parseList :: "'re libs \<Rightarrow> (nat \<Rightarrow> bool) \<Rightarrow> read_end \<Rightarrow> listFormat \<Rightarrow> string \<Rightarrow> scan_error + 're parsed" where
  "parseList L canceled ending f data =
     (case scanLines canceled ending data of
        Inl err \<Rightarrow> Inl err
      | Inr ls \<Rightarrow>
          Inr (if lf_ips f then parseIPList (ParsePrefix L) (ParseAddr L) f ls
               else pl_finish L (fold (pl_line L f) ls (pl_init f))))"

section \<open>Budgets and shape of a parse\<close>

definition pl_inv :: "'re plState \<Rightarrow> bool" where
  "pl_inv st \<longleftrightarrow> (let r = pl_res st in
     length (p_sets r) = numTiers \<and> (\<forall>t < numTiers. length (p_sets r ! t) = 2) \<and>
     length (p_mods r) = numTiers \<and> length (pl_modKeys st) = numTiers \<and>
     (\<forall>t < numTiers. length (p_mods r ! t) = length (pl_modKeys st ! t)) \<and>
     total (p_mods r) = pl_modCount st \<and> pl_modCount st \<le> maxModified \<and>
     length (p_pats r) \<le> maxPatterns \<and> pl_cost st = sum_list (map pp_cost (p_pats r)) \<and> pl_cost st \<le> maxPatternCost \<and>
     (\<forall>p \<in> set (p_pats r). pp_tier p < numTiers \<and> 1 \<le> pp_cost p \<and> pp_cost p \<le> maxRegexCost))"

lemma e_tier_lt [simp]: "e_tier e a < numTiers"
  by (simp add: e_tier_def tier_defs Let_def)

lemma pl_init_inv: "pl_inv (pl_init f)"
  by (simp add: pl_inv_def pl_init_def new_parsed_def total_def limit_defs numTiers_def Let_def)

lemma pl_counters_inv [simp]:
  "pl_inv (pl_invalid st) = pl_inv st" "pl_inv (pl_unsupported st) = pl_inv st"
  "pl_inv (st\<lparr>pl_res := (pl_res st)\<lparr>p_broad := n\<rparr>\<rparr>) = pl_inv st" "pl_inv (st\<lparr>pl_bad := b\<rparr>) = pl_inv st"
  by (simp_all add: pl_inv_def pl_invalid_def pl_unsupported_def Let_def)

lemma total_nth: "total m = sum_list (map (\<lambda>t. length (m ! t)) [0..<length m])"
  unfolding total_def by (rule arg_cong [where f = sum_list]) (rule nth_equalityI, auto)

lemma total_append_at: "t < length m \<Longrightarrow> total (m[t := m ! t @ [x]]) = Suc (total m)"
  by (induction m arbitrary: t) (auto simp: total_def nth_Cons' split: nat.split elim: less_SucE)

lemma pl_mod_inv: "pl_inv st \<Longrightarrow> tier < numTiers \<Longrightarrow> pl_inv (pl_mod L tier e st)"
  by (auto simp: pl_mod_def pl_inv_def Let_def total_append_at nth_list_update pl_unsupported_def)

lemma compileRegex_cost: "compileRegex L src m = Inr (re, c) \<Longrightarrow> 1 \<le> c \<and> c \<le> m \<and> c \<le> maxRegexCost"
  using regexCost_pos by (auto simp: compileRegex_def Let_def split: option.splits if_splits)

lemma pl_pattern_inv: "pl_inv st \<Longrightarrow> tier < numTiers \<Longrightarrow> pl_inv (pl_pattern L tier e st)"
  using compileRegex_cost [of L "e_source e" "maxPatternCost - pl_cost st"]
  by (auto simp: pl_pattern_def Let_def split: sum.split regex_error.split) (auto simp: pl_inv_def Let_def)

lemma pl_entry_inv [inv_intros]: "pl_inv st \<Longrightarrow> pl_inv (pl_entry L a e st)"
proof -
  assume inv: "pl_inv st"
  have "pl_inv (st\<lparr>pl_res := (pl_res st)\<lparr>p_sets := append_cell t k x (p_sets (pl_res st))\<rparr>\<rparr>)" for t k x
    using inv by (simp add: pl_inv_def Let_def)
  with inv show ?thesis by (simp add: pl_entry_def Let_def pl_mod_inv pl_pattern_inv)
qed

lemma fold_pl_entry_inv: "pl_inv st \<Longrightarrow> pl_inv (fold (pl_entry L a) es st)"
  by (induction es arbitrary: st) (auto intro: pl_entry_inv)

lemma pl_line_inv [inv_intros]: "pl_inv st \<Longrightarrow> pl_inv (pl_line L f line st)"
  by (auto simp: pl_line_def Let_def fold_pl_entry_inv split: option.split prod.split lineStatus.split)

interpretation pl: invariant_machine "pl_init f" "pl_line L f" pl_inv
  for L :: "'re libs" and f :: listFormat
  by unfold_locales (auto intro: pl_init_inv pl_line_inv)

lemma finish_set_props [simp]: "sorted (finish_set bad t k hs)" "distinct (finish_set bad t k hs)"
  by (simp_all add: finish_set_def sorted_wrt_filter)

lemma finish_mods_length: "length (finish_mods bad t rows keys) \<le> length rows"
proof -
  have "length (filter P (zip rows keys)) \<le> length rows" for P
    using length_filter_le [of P "zip rows keys"] by simp
  then show ?thesis by (simp add: finish_mods_def sortMods_def)
qed

lemma parseList_finish:
  "parseList L canceled ending f data = Inr r \<Longrightarrow> \<not> lf_ips f \<Longrightarrow>
   r = pl_finish L (fold (pl_line L f) (file_lines data) (pl_init f))"
  using scan_from_lines [of canceled ending 0 False data "[]"]
  by (auto simp: parseList_def scanLines_def file_lines_def split: sum.splits)

text \<open>
  A parsed list stays within its budgets whatever the file holds: at most 20000 patterns of at
  most 4096 each and 2 ^ 20 together in estimated size, at most 20000 modified entries; its hash sets
  are sorted and without duplicates, its counts are exact, and it is what the matcher expects of the
  lists it compiles.
\<close>

theorem parseList_budgets:
  assumes "parseList L canceled ending f data = Inr r" and "\<not> lf_ips f"
  shows "length (p_pats r) \<le> maxPatterns \<and> sum_list (map pp_cost (p_pats r)) \<le> maxPatternCost \<and>
    list_all (\<lambda>p. pp_cost p \<le> maxRegexCost) (p_pats r) \<and> total (p_mods r) \<le> maxModified \<and>
    p_entries r = total (concat (p_sets r)) + total (p_mods r) + length (p_pats r) \<and>
    list_all (list_all (\<lambda>hs. sorted hs \<and> distinct hs)) (p_sets r) \<and>
    parsed_wf r \<and> tiers_ok r \<and> length (p_mods r) = numTiers"
proof -
  define st where "st = fold (pl_line L f) (file_lines data) (pl_init f)"
  have inv: "pl_inv st" unfolding st_def by (rule pl.inv_run)
  have r: "r = pl_finish L st" using parseList_finish [OF assms] by (simp add: st_def)
  let ?P = "\<lambda>p. \<lparr>bk_tier = pp_tier p, bk_kind = kindPattern, bk_hash = 0, bk_re = re_String L (pp_re p), bk_mods = []\<rparr> \<notin> pl_bad st"
  have pats: "p_pats r = filter ?P (p_pats (pl_res st))"
    by (simp add: r pl_finish_def finish_pats_def Let_def)
  have costs: "\<forall>p \<in> set (p_pats (pl_res st)). pp_tier p < numTiers \<and> 1 \<le> pp_cost p \<and> pp_cost p \<le> maxRegexCost"
    "sum_list (map pp_cost (p_pats (pl_res st))) \<le> maxPatternCost" "length (p_pats (pl_res st)) \<le> maxPatterns"
    using inv by (simp_all add: pl_inv_def Let_def)
  have "sum_list (map pp_cost (filter ?P xs)) \<le> sum_list (map pp_cost xs)" if "\<forall>p \<in> set xs. 1 \<le> pp_cost p" for xs
    using that by (induction xs) auto
  then have c: "sum_list (map pp_cost (p_pats r)) \<le> maxPatternCost" using costs(1,2) unfolding pats by fastforce
  have l: "length (p_pats r) \<le> maxPatterns" using costs(3) length_filter_le [of ?P "p_pats (pl_res st)"] unfolding pats by linarith
  have "total (p_mods r) = sum_list (map (\<lambda>t. length (finish_mods (pl_bad st) t (p_mods (pl_res st) ! t) (pl_modKeys st ! t))) [0..<numTiers])"
    by (simp add: r pl_finish_def Let_def total_def comp_def)
  also have "\<dots> \<le> sum_list (map (\<lambda>t. length (p_mods (pl_res st) ! t)) [0..<numTiers])"
    by (intro sum_list_mono) (rule finish_mods_length)
  also have "\<dots> = total (p_mods (pl_res st))"
    using inv by (simp add: pl_inv_def Let_def total_nth)
  finally have m: "total (p_mods r) \<le> maxModified" using inv by (simp add: pl_inv_def Let_def)
  have sets: "list_all (list_all (\<lambda>hs. sorted hs \<and> distinct hs)) (p_sets r)"
    by (simp add: r pl_finish_def Let_def list_all_iff)
  have "p_entries r = total (concat (p_sets r)) + total (p_mods r) + length (p_pats r)"
    by (simp add: r pl_finish_def Let_def total_def comp_def numTiers_def upt_rec)
  moreover have "parsed_wf r" using sets
    by (simp add: parsed_wf_def r pl_finish_def Let_def)
  moreover have "tiers_ok r" using costs(1) by (auto simp: tiers_ok_def pats)
  moreover have "list_all (\<lambda>p. pp_cost p \<le> maxRegexCost) (p_pats r)" using costs(1) by (simp add: list_all_iff pats)
  moreover have "length (p_mods r) = numTiers" by (simp add: r pl_finish_def Let_def)
  ultimately show ?thesis using c l m sets by simp
qed

section \<open>The entries of a list\<close>

definition line_entries :: "'re libs \<Rightarrow> listFormat \<Rightarrow> string option \<Rightarrow> entry list" where
  "line_entries L f line = (case line of None \<Rightarrow> [] | Some l \<Rightarrow> fst (lp_parse L (newLineParser f) l))"

definition list_entries :: "'re libs \<Rightarrow> listFormat \<Rightarrow> string \<Rightarrow> entry list" where
  "list_entries L f data = concat (map (line_entries L f) (file_lines data))"

definition plain :: "bool \<Rightarrow> nat \<Rightarrow> kind \<Rightarrow> entry \<Rightarrow> bool" where
  "plain a t k e \<longleftrightarrow> \<not> e_badfilter e \<and> \<not> e_modified e \<and> e_kind e = k \<and> e_tier e a = t"

lemma pl_mod_sets [simp]: "p_sets (pl_res (pl_mod L t e st)) = p_sets (pl_res st)" "pl_bad (pl_mod L t e st) = pl_bad st"
  by (simp_all add: pl_mod_def Let_def pl_unsupported_def)

lemma pl_pattern_sets [simp]:
  "p_sets (pl_res (pl_pattern L t e st)) = p_sets (pl_res st)" "pl_bad (pl_pattern L t e st) = pl_bad st"
  by (simp_all add: pl_pattern_def Let_def pl_unsupported_def pl_invalid_def split: sum.split regex_error.split)

lemma pl_entry_bad:
  "pl_bad (pl_entry L a e st) = (if e_badfilter e then insert (e_badKey (QTypeName L) e (e_tier e a)) (pl_bad st) else pl_bad st)"
  by (simp add: pl_entry_def Let_def)

lemma kind_index_inj: "kind_index k = kind_index k' \<longleftrightarrow> k = k'"
  by (cases k; cases k') auto

lemma pl_entry_sets:
  assumes "pl_inv st" and "t < numTiers" and "k \<noteq> kindPattern"
  shows "p_sets (pl_res (pl_entry L a e st)) ! t ! kind_index k =
    p_sets (pl_res st) ! t ! kind_index k @ (if plain a t k e then [hashName (e_domain e)] else [])"
proof -
  have shape: "e_tier e a < length (p_sets (pl_res st))"
    "e_kind e \<noteq> kindPattern \<Longrightarrow> kind_index (e_kind e) < length (p_sets (pl_res st) ! e_tier e a)"
    using assms(1) by (cases "e_kind e"; simp add: pl_inv_def Let_def)+
  show ?thesis using assms(3) shape
    by (auto simp: pl_entry_def Let_def plain_def append_cell_nth kind_index_inj)
qed

lemma fold_pl_entry_sets:
  assumes "t < numTiers" and "k \<noteq> kindPattern"
  shows "pl_inv st \<Longrightarrow> p_sets (pl_res (fold (pl_entry L a) es st)) ! t ! kind_index k =
      p_sets (pl_res st) ! t ! kind_index k @ map (hashName \<circ> e_domain) (filter (plain a t k) es) \<and>
    pl_bad (fold (pl_entry L a) es st) =
      pl_bad st \<union> (\<lambda>e. e_badKey (QTypeName L) e (e_tier e a)) ` {e \<in> set es. e_badfilter e}"
proof (induction es arbitrary: st)
  case (Cons e es)
  then show ?case using Cons.IH [OF pl_entry_inv [OF Cons.prems, of L a e]]
    by (auto simp: pl_entry_sets [OF Cons.prems assms] pl_entry_bad)
qed simp

lemma pl_line_sets:
  assumes "t < numTiers" and "k \<noteq> kindPattern" and "pl_inv st"
  shows "p_sets (pl_res (pl_line L f line st)) ! t ! kind_index k =
      p_sets (pl_res st) ! t ! kind_index k @ map (hashName \<circ> e_domain) (filter (plain (lf_kind f = ''allow'') t k) (line_entries L f line)) \<and>
    pl_bad (pl_line L f line st) =
      pl_bad st \<union> (\<lambda>e. e_badKey (QTypeName L) e (e_tier e (lf_kind f = ''allow''))) ` {e \<in> set (line_entries L f line). e_badfilter e}"
proof (cases line)
  case (Some l)
  obtain es s where p: "lp_parse L (newLineParser f) l = (es, s)" by (cases "lp_parse L (newLineParser f) l")
  then have "s = lineOK \<longleftrightarrow> es \<noteq> []" using lp_parse_ok [of L "newLineParser f" l] by (simp add: parse_ok_def)
  then show ?thesis using Some p fold_pl_entry_sets [OF assms(1,2) assms(3), of L "lf_kind f = ''allow''" es]
    by (cases s) (auto simp: pl_line_def line_entries_def pl_invalid_def pl_unsupported_def)
qed (simp add: pl_line_def line_entries_def pl_invalid_def)

lemma fold_pl_line_sets:
  assumes "t < numTiers" and "k \<noteq> kindPattern"
  shows "pl_inv st \<Longrightarrow> p_sets (pl_res (fold (pl_line L f) ls st)) ! t ! kind_index k =
      p_sets (pl_res st) ! t ! kind_index k @
      map (hashName \<circ> e_domain) (filter (plain (lf_kind f = ''allow'') t k) (concat (map (line_entries L f) ls))) \<and>
    pl_bad (fold (pl_line L f) ls st) = pl_bad st \<union>
      (\<lambda>e. e_badKey (QTypeName L) e (e_tier e (lf_kind f = ''allow''))) ` {e \<in> set (concat (map (line_entries L f) ls)). e_badfilter e}"
proof (induction ls arbitrary: st)
  case (Cons l ls)
  then show ?case using Cons.IH [OF pl_line_inv [OF Cons.prems, of L f l]] pl_line_sets [OF assms Cons.prems, of L f l]
    by auto
qed simp

lemma parseList_sets_iff:
  assumes "parseList L canceled ending f data = Inr r" and "\<not> lf_ips f" and "t < numTiers" and "k \<noteq> kindPattern"
  shows "h \<in> set (p_sets r ! t ! kind_index k) \<longleftrightarrow>
    (\<exists>e \<in> set (list_entries L f data). plain (lf_kind f = ''allow'') t k e \<and> hashName (e_domain e) = h) \<and>
    \<not> (\<exists>b \<in> set (list_entries L f data). e_badfilter b \<and>
         e_badKey (QTypeName L) b (e_tier b (lf_kind f = ''allow'')) = set_key t k h)"
proof -
  define st where "st = fold (pl_line L f) (file_lines data) (pl_init f)"
  note run = fold_pl_line_sets [OF assms(3,4) pl_init_inv, of L f "file_lines data" f]
  have init: "p_sets (pl_res (pl_init f)) ! t ! kind_index k = []" "pl_bad (pl_init f) = {}"
    using assms(3,4) by (cases k; simp add: pl_init_def new_parsed_def)+
  have sets: "set (p_sets (pl_res st) ! t ! kind_index k) =
      (hashName \<circ> e_domain) ` {e \<in> set (list_entries L f data). plain (lf_kind f = ''allow'') t k e}"
    and bad: "pl_bad st = (\<lambda>e. e_badKey (QTypeName L) e (e_tier e (lf_kind f = ''allow''))) ` {e \<in> set (list_entries L f data). e_badfilter e}"
    using run unfolding st_def list_entries_def init by auto
  have "p_sets r ! t ! kind_index k = finish_set (pl_bad st) t k (p_sets (pl_res st) ! t ! kind_index k)"
    using parseList_finish [OF assms(1,2)] assms(3,4) by (cases k) (simp_all add: pl_finish_def Let_def st_def)
  then have "h \<in> set (p_sets r ! t ! kind_index k) \<longleftrightarrow>
      h \<in> set (p_sets (pl_res st) ! t ! kind_index k) \<and> set_key t k h \<notin> pl_bad st"
    by (auto simp: finish_set_def)
  moreover have "set_key t k h \<in> pl_bad st \<longleftrightarrow> (\<exists>b \<in> set (list_entries L f data). e_badfilter b \<and>
         e_badKey (QTypeName L) b (e_tier b (lf_kind f = ''allow'')) = set_key t k h)"
    unfolding bad by (auto intro!: image_eqI [OF sym])
  ultimately show ?thesis unfolding sets by auto
qed

text \<open>
  C13: what a list blocks and allows by name. A hash is in the set of a tier and kind of a parsed list
  exactly when some line of the file gives an unmodified entry of that tier and kind for a domain of
  that hash, and no line anywhere in the file, before or after, cancels it with \<^verbatim>\<open>$badfilter\<close>.
  Lines are split, guarded and parsed as the line parser does; nothing else gets in or out.
\<close>

theorem parseList_sets_exact:
  assumes "parseList L canceled ending f data = Inr r" and "\<not> lf_ips f" and "t < numTiers" and "k \<noteq> kindPattern"
  shows "h \<in> set (p_sets r ! t ! kind_index k) \<longleftrightarrow>
    (\<exists>e \<in> set (list_entries L f data). plain (lf_kind f = ''allow'') t k e \<and> hashName (e_domain e) = h) \<and>
    \<not> (\<exists>b \<in> set (list_entries L f data). e_badfilter b \<and>
         e_badKey (QTypeName L) b (e_tier b (lf_kind f = ''allow'')) = set_key t k h)"
  using assms by (rule parseList_sets_iff)

definition ex_format :: listFormat where
  "ex_format = \<lparr>lf_kind = ''block'', lf_plain = ''exact'', lf_tldGuard = True, lf_ips = False\<rparr>"

definition ex_subtree :: entry where
  "ex_subtree = no_entry\<lparr>e_kind := kindSubtree, e_domain := ''ads.test''\<rparr>"

definition ex_list :: "unit parsed" where
  "ex_list = pl_finish ex_libs (fold (pl_line ex_libs ex_format) (file_lines (print_rule ex_subtree)) (pl_init ex_format))"

lemma ex_list_parsed:
  "parseList ex_libs (\<lambda>_. False) EOF ex_format (print_rule ex_subtree) = Inr ex_list"
  "list_entries ex_libs ex_format (print_rule ex_subtree) = [ex_subtree]"
  "ex_list = pl_finish ex_libs (pl_entry ex_libs False ex_subtree (pl_init ex_format))"
proof -
  have line: "print_rule ex_subtree = ''||ads.test^''"
    by (simp add: print_rule_def rule_body_def rule_opts_def ex_subtree_def no_entry_def)
  have "\<not> hasControl ''||ads.test^''" "CHR ''<'' \<notin> set ''||ads.test^''" by (simp_all add: hasControl_def)
  then show "parseList ex_libs (\<lambda>_. False) EOF ex_format (print_rule ex_subtree) = Inr ex_list"
    using scanLines_ok [of "print_rule ex_subtree"] by (simp add: line parseList_def ex_format_def ex_list_def)
  have "file_lines (print_rule ex_subtree) = [Some (print_rule ex_subtree)]"
    by (simp add: line file_lines_def lines_from_def List.map_filter_def seg_line_def maxLineLen_def trim_eol_def BOM_def
        strings_TrimPrefix_def strings_CutPrefix_def strings_HasPrefix_def)
  moreover have "newLineParser ex_format = ex_parser" by (simp add: newLineParser_def ex_format_def ex_parser_def)
  moreover have "entry_wf ex_libs ex_parser ex_subtree"
    using ex_print_wf by (simp add: entry_wf_def opts_ok_def guard_ok_def ex_subtree_def ex_print_def no_entry_def)
  then have "lp_parse ex_libs ex_parser (print_rule ex_subtree) = ([ex_subtree], lineOK)"
    by (rule lp_parse_print) (simp_all add: printable_def ex_subtree_def no_entry_def ex_libs_def)
  ultimately show "list_entries ex_libs ex_format (print_rule ex_subtree) = [ex_subtree]"
      "ex_list = pl_finish ex_libs (pl_entry ex_libs False ex_subtree (pl_init ex_format))"
    by (simp_all add: list_entries_def line_entries_def ex_list_def pl_line_def) (simp add: ex_format_def)
qed

theorem parseList_budgets_witness:
  "length (p_pats ex_list) \<le> maxPatterns \<and> total (p_mods ex_list) \<le> maxModified \<and> parsed_wf ex_list"
  using parseList_budgets [OF ex_list_parsed(1)] by (simp add: ex_format_def)

theorem parseList_sets_exact_witness:
  "hashName ''ads.test'' \<in> set (p_sets ex_list ! tierBlock ! kind_index kindSubtree)"
proof -
  have "\<not> lf_ips ex_format" "tierBlock < numTiers" "kindSubtree \<noteq> kindPattern" by (simp_all add: ex_format_def tier_defs)
  note exact = parseList_sets_exact [OF ex_list_parsed(1) this, of "hashName ''ads.test''", unfolded ex_list_parsed(2)]
  show ?thesis unfolding exact
    by (simp add: plain_def ex_subtree_def no_entry_def ex_format_def e_modified_def ts_empty_def no_types_def
        e_tier_def Let_def)
qed

end
