(* ===== verification/ResponseCache.thy ===== *)
theory ResponseCache
  imports NetAddr "HOL-Library.AList"
begin

text \<open>
  \<^verbatim>\<open>internal/dns/upstream/cache.go\<close>: the response cache of the resolver, an LRU of packed answers
  bounded by entry count and total bytes, with TTL clamping, negative caching, serve-stale and the
  special lifetimes of blocked and bogus answers. The elements of the LRU list live in a heap that
  the key map and the list both point into, as in the code. Messages are those of the DNS library,
  of which the code reads and writes the fields below; its \<^verbatim>\<open>Pack\<close> and \<^verbatim>\<open>Unpack\<close> are arguments.
\<close>

section \<open>Messages\<close>

record 'd rr =
  rr_Type :: u16
  rr_Ttl :: u32
  rr_Minttl :: u32  \<comment> \<open>only of an SOA record\<close>
  rr_Data :: 'd

record ('d, 'q) msg =
  m_Id :: u16
  m_Rcode :: int
  m_Truncated :: bool
  m_Compress :: bool
  m_Question :: "'q list"
  m_Answer :: "'d rr list"
  m_Ns :: "'d rr list"
  m_Extra :: "'d rr list"

definition TypeSOA :: u16 where "TypeSOA = 6"
definition TypeOPT :: u16 where "TypeOPT = 41"
definition TypeRRSIG :: u16 where "TypeRRSIG = 46"
definition TypeANY :: u16 where "TypeANY = 255"
definition RcodeSuccess :: int where "RcodeSuccess = 0"
definition RcodeServerFailure :: int where "RcodeServerFailure = 2"
definition RcodeNameError :: int where "RcodeNameError = 3"

lemmas dns_consts = TypeSOA_def TypeOPT_def TypeRRSIG_def TypeANY_def RcodeSuccess_def
  RcodeServerFailure_def RcodeNameError_def

section \<open>Constants, keys and entries\<close>

definition staleTTL :: u32 where "staleTTL = 30"
definition servfailTTL :: u32 where "servfailTTL = 5"
definition maxNegativeTTL :: u32 where "maxNegativeTTL = 3600"
definition maxEntryBytes :: int where "maxEntryBytes = 16384"
definition maxCacheBytes :: int where "maxCacheBytes = 67108864"
definition refreshBackoff :: duration where "refreshBackoff = 5 * Second"
definition bogusCryptoTTL :: u32 where "bogusCryptoTTL = 30"
definition bogusLookupTTL :: u32 where "bogusLookupTTL = 5"
definition hardMaxTTL :: u32 where "hardMaxTTL = 604800"
definition maxCacheTypes :: nat where "maxCacheTypes = 64"

lemmas cache_consts = staleTTL_def servfailTTL_def maxNegativeTTL_def maxEntryBytes_def maxCacheBytes_def
  refreshBackoff_def bogusCryptoTTL_def bogusLookupTTL_def hardMaxTTL_def maxCacheTypes_def

record cacheKey =
  ck_name :: string
  ck_qtype :: u16
  ck_qclass :: u16
  ck_do :: bool
  ck_set :: string
  ck_ecs :: pfx
  ck_val :: bool

text \<open>
  What is stored besides the reply. Of the verdict the cache only asks whether its status is
  bogus; the upstream's own block and the reply's EDE are of an opaque type.
\<close>

record 'i entryMeta =
  em_block :: "'i option"
  em_ede :: "'i option"
  em_fallback :: bool
  em_bogus :: bool
  em_lookupFailure :: bool
  em_local :: bool
  em_expires :: instant

record 'i cacheEntry =
  ce_key :: cacheKey
  ce_wire :: bytes
  ce_meta :: "'i entryMeta"
  ce_stored :: instant
  ce_expires :: instant
  ce_servfail :: bool
  ce_noStale :: bool
  ce_refreshing :: bool
  ce_nextRefresh :: instant
  ce_otherType :: bool

record cachePolicy =
  cp_capacity :: int
  cp_minTTL :: u32
  cp_maxTTL :: u32
  cp_staleWindow :: duration
  cp_blockedTTL :: u32

type_synonym elem = nat

record 'i respCache =
  rc_m :: "cacheKey \<rightharpoonup> elem"
  rc_lru :: "elem list"
  rc_heap :: "elem \<Rightarrow> 'i cacheEntry"
  rc_next :: elem
  rc_bytes :: int
  rc_types :: "(u16 \<times> int) list"
  rc_otherTypes :: int
  rc_hits :: nat
  rc_misses :: nat
  rc_staleHits :: nat
  rc_insertions :: nat
  rc_evictions :: nat
  rc_expired :: nat

definition no_key :: cacheKey where
  "no_key = \<lparr>ck_name = [], ck_qtype = 0, ck_qclass = 0, ck_do = False, ck_set = [], ck_ecs = no_pfx, ck_val = False\<rparr>"

definition no_meta :: "'i entryMeta" where
  "no_meta = \<lparr>em_block = None, em_ede = None, em_fallback = False, em_bogus = False, em_lookupFailure = False,
     em_local = False, em_expires = zero_time\<rparr>"

definition no_cacheEntry :: "'i cacheEntry" where
  "no_cacheEntry = \<lparr>ce_key = no_key, ce_wire = [], ce_meta = no_meta, ce_stored = zero_time, ce_expires = zero_time,
     ce_servfail = False, ce_noStale = False, ce_refreshing = False, ce_nextRefresh = zero_time, ce_otherType = False\<rparr>"

definition rc_init :: "'i respCache" where
  "rc_init = \<lparr>rc_m = Map.empty, rc_lru = [], rc_heap = (\<lambda>_. no_cacheEntry), rc_next = 0, rc_bytes = 0, rc_types = [],
     rc_otherTypes = 0, rc_hits = 0, rc_misses = 0, rc_staleHits = 0, rc_insertions = 0, rc_evictions = 0, rc_expired = 0\<rparr>"

section \<open>Operations of the LRU\<close>

text \<open>\<^verbatim>\<open>countType\<close> of the entry at an element; a missing key of \<^verbatim>\<open>types\<close> reads as 0.\<close>

definition type_count :: "(u16 \<times> int) list \<Rightarrow> u16 \<Rightarrow> int" where
  "type_count ts t = (case map_of ts t of None \<Rightarrow> 0 | Some n \<Rightarrow> n)"

definition countType :: "elem \<Rightarrow> int \<Rightarrow> 'i respCache \<Rightarrow> 'i respCache" where
  "countType i delta c =
     (let e0 = rc_heap c i;
          t = ck_qtype (ce_key e0);
          e = (if delta > 0 \<and> map_of (rc_types c) t = None \<and> length (rc_types c) \<ge> maxCacheTypes
               then e0\<lparr>ce_otherType := True\<rparr> else e0);
          c1 = c\<lparr>rc_heap := (rc_heap c)(i := e)\<rparr>
      in if ce_otherType e then c1\<lparr>rc_otherTypes := rc_otherTypes c + delta\<rparr>
         else let n = type_count (rc_types c) t + delta in
           c1\<lparr>rc_types := (if n > 0 then AList.update t n (rc_types c) else AList.delete t (rc_types c))\<rparr>)"

definition removeLocked :: "elem \<Rightarrow> 'i respCache \<Rightarrow> 'i respCache" where
  "removeLocked i c =
     (let e = rc_heap c i in
      countType i (-1) (c\<lparr>rc_lru := remove1 i (rc_lru c), rc_m := (rc_m c)(ce_key e := None),
        rc_bytes := rc_bytes c - int (length (ce_wire e))\<rparr>))"

lemma countType_lru [simp]: "rc_lru (countType i d c) = rc_lru c"
  by (simp add: countType_def Let_def)

function evictLocked :: "int \<Rightarrow> 'i respCache \<Rightarrow> 'i respCache" where
  "evictLocked capacity c =
     (if rc_lru c \<noteq> [] \<and> (int (length (rc_lru c)) > capacity \<or> rc_bytes c > maxCacheBytes)
      then let c' = removeLocked (last (rc_lru c)) c in evictLocked capacity (c'\<lparr>rc_evictions := rc_evictions c' + 1\<rparr>)
      else c)"
  by pat_completeness auto
termination
  by (relation "measure (\<lambda>(_, c). length (rc_lru c))")
    (auto simp: removeLocked_def Let_def length_remove1 dest: last_in_set split: if_splits)

declare evictLocked.simps [simp del]

record 'i cacheHit =
  ch_wire :: bytes
  ch_meta :: "'i entryMeta"
  ch_stored :: instant
  ch_stale :: bool

definition rc_get :: "cacheKey \<Rightarrow> instant \<Rightarrow> duration \<Rightarrow> 'i respCache \<Rightarrow> 'i cacheHit option \<times> 'i respCache" where
  "rc_get k now staleWindow c = (case rc_m c k of
     None \<Rightarrow> (None, c\<lparr>rc_misses := rc_misses c + 1\<rparr>)
   | Some i \<Rightarrow>
       let e = rc_heap c i; stale = (\<not> now < ce_expires e) in
       if stale \<and> (ce_servfail e \<or> ce_noStale e \<or> time_Sub now (ce_expires e) \<ge> staleWindow)
       then let c' = removeLocked i c in (None, c'\<lparr>rc_misses := rc_misses c' + 1, rc_expired := rc_expired c' + 1\<rparr>)
       else (Some \<lparr>ch_wire = ce_wire e, ch_meta = ce_meta e, ch_stored = ce_stored e, ch_stale = stale\<rparr>,
         c\<lparr>rc_lru := i # remove1 i (rc_lru c), rc_hits := rc_hits c + 1,
            rc_staleHits := (if stale then rc_staleHits c + 1 else rc_staleHits c)\<rparr>))"

section \<open>Lifetimes\<close>

definition clamp :: "u32 \<Rightarrow> cachePolicy \<Rightarrow> u32" where
  "clamp ttl0 p = (let ttl = max ttl0 (cp_minTTL p);
     ttl' = (if cp_maxTTL p > 0 then min ttl (cp_maxTTL p) else ttl) in min ttl' hardMaxTTL)"

definition map_ttls :: "(u32 \<Rightarrow> u32) \<Rightarrow> 'd rr list \<Rightarrow> 'd rr list" where
  "map_ttls f sec = map (\<lambda>r. if rr_Type r \<noteq> TypeOPT then r\<lparr>rr_Ttl := f (rr_Ttl r)\<rparr> else r) sec"

definition msg_ttls :: "(u32 \<Rightarrow> u32) \<Rightarrow> ('d, 'q) msg \<Rightarrow> ('d, 'q) msg" where
  "msg_ttls f m = m\<lparr>m_Answer := map_ttls f (m_Answer m), m_Ns := map_ttls f (m_Ns m), m_Extra := map_ttls f (m_Extra m)\<rparr>"

definition clampTTLs :: "('d, 'q) msg \<Rightarrow> cachePolicy \<Rightarrow> ('d, 'q) msg" where
  "clampTTLs m p = msg_ttls (\<lambda>t. clamp t p) m"

definition capTTLs :: "('d, 'q) msg \<Rightarrow> u32 \<Rightarrow> ('d, 'q) msg" where
  "capTTLs m ttl = msg_ttls (\<lambda>t. if t > ttl then ttl else t) m"

definition answersType :: "'d rr list \<Rightarrow> u16 \<Rightarrow> bool" where
  "answersType answer qtype \<longleftrightarrow>
     list_ex (\<lambda>r. rr_Type r = qtype \<or> qtype = TypeANY \<and> rr_Type r \<noteq> TypeRRSIG) answer"

definition min_ttl :: "'d rr list \<Rightarrow> u32" where
  "min_ttl sec = foldl (\<lambda>t r. min t (rr_Ttl r)) (-1) sec"

text \<open>The index of the first SOA record of the authority section.\<close>

definition first_soa :: "'d rr list \<Rightarrow> nat option" where
  "first_soa ns = find (\<lambda>i. rr_Type (ns ! i) = TypeSOA) [0..<length ns]"

record ('d, 'q) prepared =
  pr_msg :: "('d, 'q) msg"
  pr_ttl :: u32
  pr_servfail :: bool
  pr_ok :: bool

definition prepareForCache :: "('d, 'q) msg \<Rightarrow> u16 \<Rightarrow> cachePolicy \<Rightarrow> ('d, 'q) prepared" where
  "prepareForCache m0 qtype p =
     (if m_Truncated m0 then \<lparr>pr_msg = m0, pr_ttl = 0, pr_servfail = False, pr_ok = False\<rparr>
      else if m_Rcode m0 = RcodeServerFailure then \<lparr>pr_msg = m0, pr_ttl = servfailTTL, pr_servfail = True, pr_ok = True\<rparr>
      else if m_Rcode m0 \<noteq> RcodeSuccess \<and> m_Rcode m0 \<noteq> RcodeNameError
      then \<lparr>pr_msg = m0, pr_ttl = 0, pr_servfail = False, pr_ok = False\<rparr>
      else let m = clampTTLs m0 p; ttl = min_ttl (m_Answer m) in
        if m_Rcode m = RcodeSuccess \<and> answersType (m_Answer m) qtype
        then \<lparr>pr_msg = m, pr_ttl = ttl, pr_servfail = False, pr_ok = (ttl > 0)\<rparr>
        else case first_soa (m_Ns m) of
          None \<Rightarrow> \<lparr>pr_msg = m, pr_ttl = 0, pr_servfail = False, pr_ok = False\<rparr>
        | Some i \<Rightarrow>
            let soa = m_Ns m ! i;
                neg = min (clamp (min (rr_Ttl soa) (rr_Minttl soa)) p) maxNegativeTTL;
                ns = map (\<lambda>r. r\<lparr>rr_Ttl := min (rr_Ttl r) neg\<rparr>) (m_Ns m);
                ttl' = min ttl neg
            in \<lparr>pr_msg = m\<lparr>m_Ns := ns[i := (ns ! i)\<lparr>rr_Ttl := neg\<rparr>]\<rparr>, pr_ttl = ttl', pr_servfail = False, pr_ok = (ttl' > 0)\<rparr>)"

text \<open>
  The switch at the start of \<^verbatim>\<open>store\<close>: the message with its rewritten TTLs, the lifetime, and the
  flags \<^verbatim>\<open>servfail\<close> and \<^verbatim>\<open>noStale\<close>; \<open>None\<close> when the answer is not cached.
\<close>

definition lifetime ::
  "cacheKey \<Rightarrow> ('d, 'q) msg \<Rightarrow> instant \<Rightarrow> cachePolicy \<Rightarrow> 'i entryMeta \<Rightarrow> (('d, 'q) msg \<times> u32 \<times> bool \<times> bool) option" where
  "lifetime k m now p meta =
     (if em_block meta \<noteq> None then
        if cp_blockedTTL p > 0 then Some (m, min (cp_blockedTTL p) hardMaxTTL, False, False) else None
      else if em_bogus meta then
        if em_local meta then None
        else let r = prepareForCache m (ck_qtype k) p;
                 ttl = (if em_lookupFailure meta then bogusLookupTTL
                        else if \<not> pr_ok r \<or> pr_ttl r > bogusCryptoTTL then bogusCryptoTTL else pr_ttl r)
             in Some (pr_msg r, ttl, em_lookupFailure meta, True)
      else let r = prepareForCache m (ck_qtype k) p in
        if pr_ok r \<and> em_expires meta \<noteq> zero_time then
          let left = max (time_Sub (em_expires meta) now) 0 div Second;
              ttl = min (pr_ttl r) (of_int (min left (uint hardMaxTTL)))
          in if ttl > 0 then Some (capTTLs (pr_msg r) ttl, ttl, pr_servfail r, False) else None
        else if pr_ok r then Some (pr_msg r, pr_ttl r, pr_servfail r, False) else None)"

definition rc_insert :: "'i cacheEntry \<Rightarrow> 'i respCache \<Rightarrow> 'i respCache" where
  "rc_insert e c =
     (let i = rc_next c;
          c1 = c\<lparr>rc_heap := (rc_heap c)(i := e), rc_next := i + 1, rc_lru := i # rc_lru c,
                 rc_m := (rc_m c)(ce_key e \<mapsto> i), rc_bytes := rc_bytes c + int (length (ce_wire e))\<rparr>;
          c2 = countType i 1 c1
      in c2\<lparr>rc_insertions := rc_insertions c2 + 1\<rparr>)"

definition rc_store ::
  "(('d, 'q) msg \<Rightarrow> bytes option) \<Rightarrow> cacheKey \<Rightarrow> ('d, 'q) msg \<Rightarrow> instant \<Rightarrow> cachePolicy \<Rightarrow> 'i entryMeta \<Rightarrow>
   'i respCache \<Rightarrow> 'i respCache" where
  "rc_store Pack k m now p meta c =
     (if cp_capacity p \<le> 0 then c
      else case lifetime k m now p meta of
        None \<Rightarrow> c
      | Some (m', ttl, servfail, noStale) \<Rightarrow>
          (case Pack (m'\<lparr>m_Compress := True\<rparr>) of
             None \<Rightarrow> c
           | Some wire \<Rightarrow>
               if int (length wire) > maxEntryBytes then c
               else
                 let keep = (case rc_m c k of None \<Rightarrow> False
                       | Some i \<Rightarrow> servfail \<and> \<not> ce_servfail (rc_heap c i) \<and> time_Sub now (ce_expires (rc_heap c i)) < cp_staleWindow p);
                     c1 = (case rc_m c k of None \<Rightarrow> c | Some i \<Rightarrow> removeLocked i c)
                 in if keep then c
                    else evictLocked (cp_capacity p)
                      (rc_insert (no_cacheEntry\<lparr>ce_key := k, ce_wire := wire, ce_meta := meta, ce_stored := now,
                         ce_expires := now + uint ttl * Second, ce_servfail := servfail, ce_noStale := noStale\<rparr>) c1)))"

section \<open>Replies and refreshes\<close>

definition reply_ttl :: "bool \<Rightarrow> u32 \<Rightarrow> u32 \<Rightarrow> u32" where
  "reply_ttl stale age ttl = (if stale then staleTTL else if ttl > age then ttl - age else 0)"

definition ch_reply ::
  "(bytes \<Rightarrow> ('d, 'q) msg option) \<Rightarrow> 'i cacheHit \<Rightarrow> u16 \<Rightarrow> 'q \<Rightarrow> instant \<Rightarrow> ('d, 'q) msg option" where
  "ch_reply Unpack h reqId reqQuestion now =
     map_option (\<lambda>m. let age = of_int (max (time_Sub now (ch_stored h)) 0 div Second) in
       (msg_ttls (reply_ttl (ch_stale h) age) m)\<lparr>m_Id := reqId, m_Question := [reqQuestion], m_Compress := True\<rparr>)
     (Unpack (ch_wire h))"

definition beginRefresh :: "cacheKey \<Rightarrow> instant \<Rightarrow> 'i respCache \<Rightarrow> bool \<times> 'i respCache" where
  "beginRefresh k now c = (case rc_m c k of
     None \<Rightarrow> (False, c)
   | Some i \<Rightarrow> if ce_refreshing (rc_heap c i) \<or> now < ce_nextRefresh (rc_heap c i) then (False, c)
       else (True, c\<lparr>rc_heap := (rc_heap c)(i := (rc_heap c i)\<lparr>ce_refreshing := True\<rparr>)\<rparr>))"

definition endRefresh :: "cacheKey \<Rightarrow> instant \<Rightarrow> 'i respCache \<Rightarrow> 'i respCache" where
  "endRefresh k now c = (case rc_m c k of
     None \<Rightarrow> c
   | Some i \<Rightarrow> c\<lparr>rc_heap := (rc_heap c)(i := (rc_heap c i)\<lparr>ce_refreshing := False, ce_nextRefresh := now + refreshBackoff\<rparr>)\<rparr>)"

definition rc_trim :: "int \<Rightarrow> 'i respCache \<Rightarrow> 'i respCache" where
  "rc_trim capacity c = evictLocked capacity c"

definition rc_flush :: "'i respCache \<Rightarrow> 'i respCache" where
  "rc_flush c = c\<lparr>rc_m := Map.empty, rc_types := [], rc_otherTypes := 0, rc_lru := [], rc_bytes := 0\<rparr>"

definition rc_len :: "'i respCache \<Rightarrow> nat" where
  "rc_len c = card (dom (rc_m c))"

section \<open>The invariant\<close>

text \<open>
  The key map and the list hold the same elements, no element twice; the byte count and the counts
  by record type are those of the entries in the list, and at most 64 types are counted by name.
\<close>

definition tally :: "('a \<Rightarrow> bool) \<Rightarrow> 'a list \<Rightarrow> int" where
  "tally P xs = (\<Sum>x\<leftarrow>xs. if P x then 1 else 0)"

definition of_type :: "'i respCache \<Rightarrow> u16 \<Rightarrow> elem \<Rightarrow> bool" where
  "of_type c t i \<longleftrightarrow> \<not> ce_otherType (rc_heap c i) \<and> ck_qtype (ce_key (rc_heap c i)) = t"

definition types_ok :: "'i respCache \<Rightarrow> bool" where
  "types_ok c \<longleftrightarrow> distinct (map fst (rc_types c)) \<and> length (rc_types c) \<le> maxCacheTypes \<and>
     (\<forall>t. type_count (rc_types c) t = tally (of_type c t) (rc_lru c)) \<and>
     rc_otherTypes c = tally (\<lambda>i. ce_otherType (rc_heap c i)) (rc_lru c)"

definition links_ok :: "'i respCache \<Rightarrow> bool" where
  "links_ok c \<longleftrightarrow> distinct (rc_lru c) \<and> (\<forall>i \<in> set (rc_lru c). i < rc_next c) \<and>
     (\<forall>k i. rc_m c k = Some i \<longleftrightarrow> i \<in> set (rc_lru c) \<and> ce_key (rc_heap c i) = k) \<and>
     rc_bytes c = (\<Sum>i\<leftarrow>rc_lru c. int (length (ce_wire (rc_heap c i))))"

definition rc_inv :: "'i respCache \<Rightarrow> bool" where
  "rc_inv c \<longleftrightarrow> links_ok c \<and> types_ok c"

lemma tally_remove1: "i \<in> set xs \<Longrightarrow> tally P (remove1 i xs) = tally P xs - (if P i then 1 else 0)"
  unfolding tally_def using sum_list_map_remove1 [of i xs "\<lambda>x. if P x then 1 else (0::int)"] by simp

lemma tally_Cons [simp]: "tally P (x # xs) = (if P x then 1 else 0) + tally P xs"
  by (simp add: tally_def)

lemma tally_Nil [simp]: "tally P [] = 0"
  by (simp add: tally_def)

lemma tally_cong: "(\<And>x. x \<in> set xs \<Longrightarrow> P x = Q x) \<Longrightarrow> tally P xs = tally Q xs"
  by (induction xs) auto

lemma tally_nonneg: "0 \<le> tally P xs"
  by (induction xs) auto

lemma tally_pos: "x \<in> set xs \<Longrightarrow> P x \<Longrightarrow> 0 < tally P xs"
  by (induction xs) (auto simp: tally_nonneg add_pos_nonneg add_nonneg_pos)

lemma length_AList_update: "length (AList.update k v al) = (if k \<in> fst ` set al then length al else Suc (length al))"
  by (induction al) auto

lemma map_of_None_iff: "map_of al k = None \<longleftrightarrow> k \<notin> fst ` set al"
  by (simp add: map_of_eq_None_iff)

lemma type_count_update: "type_count (AList.update t n ts) t' = (if t' = t then n else type_count ts t')"
  by (simp add: type_count_def update_conv')

lemma type_count_delete: "type_count (AList.delete t ts) t' = (if t' = t then 0 else type_count ts t')"
  by (simp add: type_count_def delete_conv')

text \<open>Removing an element.\<close>

lemma countType_dec:
  "countType i (-1) c = (if ce_otherType (rc_heap c i) then c\<lparr>rc_otherTypes := rc_otherTypes c - 1\<rparr>
     else let t = ck_qtype (ce_key (rc_heap c i)); n = type_count (rc_types c) t - 1 in
       c\<lparr>rc_types := (if n > 0 then AList.update t n (rc_types c) else AList.delete t (rc_types c))\<rparr>)"
  by (simp add: countType_def Let_def)

lemma removeLocked_simps [simp]:
  "rc_lru (removeLocked i c) = remove1 i (rc_lru c)"
  "rc_m (removeLocked i c) = (rc_m c)(ce_key (rc_heap c i) := None)"
  "rc_heap (removeLocked i c) = rc_heap c"
  "rc_next (removeLocked i c) = rc_next c"
  "rc_bytes (removeLocked i c) = rc_bytes c - int (length (ce_wire (rc_heap c i)))"
  by (simp_all add: removeLocked_def countType_dec Let_def)

lemma removeLocked_links:
  assumes "links_ok c" and "i \<in> set (rc_lru c)"
  shows "links_ok (removeLocked i c)"
proof -
  have d: "distinct (rc_lru c)" and m: "\<And>k j. rc_m c k = Some j \<longleftrightarrow> j \<in> set (rc_lru c) \<and> ce_key (rc_heap c j) = k"
    and b: "rc_bytes c = (\<Sum>i\<leftarrow>rc_lru c. int (length (ce_wire (rc_heap c i))))"
    using assms(1) by (auto simp: links_ok_def)
  have "rc_bytes c - int (length (ce_wire (rc_heap c i))) =
      (\<Sum>i\<leftarrow>remove1 i (rc_lru c). int (length (ce_wire (rc_heap c i))))"
    using sum_list_map_remove1 [OF assms(2), of "\<lambda>i. int (length (ce_wire (rc_heap c i)))"] b by simp
  moreover have "((rc_m c)(ce_key (rc_heap c i) := None)) k = Some j \<longleftrightarrow>
      j \<in> set (remove1 i (rc_lru c)) \<and> ce_key (rc_heap c j) = k" for k j
  proof (cases "k = ce_key (rc_heap c i)")
    case True
    have "j = i" if "j \<in> set (rc_lru c)" "ce_key (rc_heap c j) = k"
      using m [of k j] m [of k i] that True assms(2) by simp
    with True show ?thesis using set_remove1_eq [OF d, of i] by auto
  next
    case False
    then have "ce_key (rc_heap c j) = k \<Longrightarrow> j \<noteq> i" by blast
    with False m [of k j] show ?thesis using set_remove1_eq [OF d, of i] by auto
  qed
  moreover have "\<forall>j \<in> set (remove1 i (rc_lru c)). j < rc_next c"
    using assms(1) by (auto simp: links_ok_def dest: set_remove1_subset [THEN subsetD])
  ultimately show ?thesis using d unfolding links_ok_def removeLocked_simps by (simp add: distinct_remove1)
qed

lemma of_type_heap: "rc_heap c' = rc_heap c \<Longrightarrow> of_type c' = of_type c"
  by (intro ext) (simp add: of_type_def)

lemma removeLocked_types:
  assumes "types_ok c" and "i \<in> set (rc_lru c)"
  shows "types_ok (removeLocked i c)"
proof -
  define t where "t = ck_qtype (ce_key (rc_heap c i))"
  have cnt: "type_count (rc_types c) u = tally (of_type c u) (rc_lru c)" for u
    using assms(1) by (simp add: types_ok_def)
  have ot: "of_type (removeLocked i c) = of_type c" by (rule of_type_heap) simp
  show ?thesis
  proof (cases "ce_otherType (rc_heap c i)")
    case True
    then have "rc_types (removeLocked i c) = rc_types c" "rc_otherTypes (removeLocked i c) = rc_otherTypes c - 1"
      by (simp_all add: removeLocked_def countType_dec Let_def)
    moreover have "\<not> of_type c u i" for u using True by (simp add: of_type_def)
    ultimately show ?thesis
      using assms True by (simp add: types_ok_def ot tally_remove1)
  next
    case False
    define n where "n = type_count (rc_types c) t - 1"
    have new: "rc_types (removeLocked i c) = (if n > 0 then AList.update t n (rc_types c) else AList.delete t (rc_types c))"
      "rc_otherTypes (removeLocked i c) = rc_otherTypes c"
      using False by (simp_all add: removeLocked_def countType_dec Let_def t_def n_def)
    have i: "of_type c u i \<longleftrightarrow> u = t" for u using False by (auto simp: of_type_def t_def)
    have "0 \<le> n" using tally_pos [OF assms(2), of "of_type c t"] i cnt [of t] by (simp add: n_def)
    then have "type_count (rc_types (removeLocked i c)) u = tally (of_type c u) (remove1 i (rc_lru c))" for u
      using cnt [of u] i by (auto simp: new(1) type_count_update type_count_delete tally_remove1 [OF assms(2)] n_def)
    moreover have "n > 0 \<Longrightarrow> t \<in> fst ` set (rc_types c)"
      using map_of_None_iff [of "rc_types c" t] by (auto simp: n_def type_count_def split: option.splits)
    then have "length (rc_types (removeLocked i c)) \<le> maxCacheTypes"
      using assms(1) length_delete_le [of t "rc_types c"] by (auto simp: new(1) length_AList_update types_ok_def)
    ultimately show ?thesis
      using assms False by (auto simp: types_ok_def ot new(2) tally_remove1 distinct_update distinct_delete new(1))
  qed
qed

lemma removeLocked_inv [inv_intros]: "rc_inv c \<Longrightarrow> i \<in> set (rc_lru c) \<Longrightarrow> rc_inv (removeLocked i c)"
  by (simp add: rc_inv_def removeLocked_links removeLocked_types)

lemma rc_inv_mem: "rc_inv c \<Longrightarrow> rc_m c k = Some i \<longleftrightarrow> i \<in> set (rc_lru c) \<and> ce_key (rc_heap c i) = k"
  by (simp add: rc_inv_def links_ok_def)

lemma rc_inv_counters:
  "rc_inv (c\<lparr>rc_hits := a\<rparr>) = rc_inv c" "rc_inv (c\<lparr>rc_misses := a\<rparr>) = rc_inv c" "rc_inv (c\<lparr>rc_staleHits := a\<rparr>) = rc_inv c"
  "rc_inv (c\<lparr>rc_insertions := a\<rparr>) = rc_inv c" "rc_inv (c\<lparr>rc_evictions := a\<rparr>) = rc_inv c" "rc_inv (c\<lparr>rc_expired := a\<rparr>) = rc_inv c"
  by (simp_all add: rc_inv_def links_ok_def types_ok_def of_type_def [abs_def])

lemma evictLocked_inv [inv_intros]: "rc_inv c \<Longrightarrow> rc_inv (evictLocked capacity c)"
proof (induction capacity c rule: evictLocked.induct)
  case (1 capacity c)
  have "rc_lru c \<noteq> [] \<Longrightarrow> rc_inv (removeLocked (last (rc_lru c)) c)" using "1.prems" by (simp add: removeLocked_inv)
  with 1 show ?case by (subst evictLocked.simps) (auto simp: Let_def rc_inv_counters)
qed

lemma evictLocked_bounds:
  "0 \<le> capacity \<Longrightarrow> rc_inv c \<Longrightarrow>
   int (length (rc_lru (evictLocked capacity c))) \<le> capacity \<and> rc_bytes (evictLocked capacity c) \<le> maxCacheBytes"
proof (induction capacity c rule: evictLocked.induct)
  case (1 capacity c)
  have "rc_lru c = [] \<Longrightarrow> rc_bytes c = 0" using "1.prems" by (simp add: rc_inv_def links_ok_def)
  moreover have "rc_lru c \<noteq> [] \<Longrightarrow> rc_inv (removeLocked (last (rc_lru c)) c)" using "1.prems" by (simp add: removeLocked_inv)
  ultimately show ?case
    using 1 by (subst (1 2) evictLocked.simps) (auto simp: Let_def rc_inv_counters maxCacheBytes_def)
qed

text \<open>Inserting an entry under a free key.\<close>

lemma rc_insert_simps:
  fixes c :: "'i respCache" and e :: "'i cacheEntry"
  assumes "\<not> ce_otherType e"
  defines "other \<equiv> map_of (rc_types c) (ck_qtype (ce_key e)) = None \<and> length (rc_types c) \<ge> maxCacheTypes"
  shows "rc_lru (rc_insert e c) = rc_next c # rc_lru c" "rc_m (rc_insert e c) = (rc_m c)(ce_key e \<mapsto> rc_next c)"
    "rc_heap (rc_insert e c) = (rc_heap c)(rc_next c := (if other then e\<lparr>ce_otherType := True\<rparr> else e))"
    "rc_next (rc_insert e c) = rc_next c + 1" "rc_bytes (rc_insert e c) = rc_bytes c + int (length (ce_wire e))"
    "rc_otherTypes (rc_insert e c) = rc_otherTypes c + (if other then 1 else 0)"
    "rc_types (rc_insert e c) = (if other then rc_types c
       else let t = ck_qtype (ce_key e); n = type_count (rc_types c) t + 1 in
         if n > 0 then AList.update t n (rc_types c) else AList.delete t (rc_types c))"
  using assms(1) by (auto simp: rc_insert_def countType_def Let_def other_def)

lemma rc_insert_links:
  assumes "links_ok c" and "rc_m c (ce_key e) = None" and "\<not> ce_otherType e"
  shows "links_ok (rc_insert e c)"
proof -
  let ?i = "rc_next c"
  have fresh: "?i \<notin> set (rc_lru c)" and m: "\<And>k j. rc_m c k = Some j \<longleftrightarrow> j \<in> set (rc_lru c) \<and> ce_key (rc_heap c j) = k"
    using assms(1) by (auto simp: links_ok_def)
  have key: "ce_key (rc_heap (rc_insert e c) j) = (if j = ?i then ce_key e else ce_key (rc_heap c j))"
    and wire: "ce_wire (rc_heap (rc_insert e c) j) = (if j = ?i then ce_wire e else ce_wire (rc_heap c j))" for j
    by (simp_all add: rc_insert_simps(3) [OF assms(3)])
  have "(\<Sum>j\<leftarrow>rc_lru c. int (length (ce_wire (rc_heap (rc_insert e c) j)))) = (\<Sum>j\<leftarrow>rc_lru c. int (length (ce_wire (rc_heap c j))))"
    using fresh by (intro arg_cong [where f = sum_list] map_cong) (auto simp: wire)
  moreover have "((rc_m c)(ce_key e \<mapsto> ?i)) k = Some j \<longleftrightarrow>
      j \<in> set (?i # rc_lru c) \<and> ce_key (rc_heap (rc_insert e c) j) = k" for k j
    using m [of k j] fresh assms(2) by (cases "k = ce_key e") (auto simp: key)
  ultimately show ?thesis
    using assms(1) fresh unfolding links_ok_def rc_insert_simps(1,2,4,5) [OF assms(3)] by (auto simp: wire)
qed

lemma rc_insert_types:
  assumes "types_ok c" and "links_ok c" and "\<not> ce_otherType e"
  shows "types_ok (rc_insert e c)"
proof -
  let ?i = "rc_next c" and ?t = "ck_qtype (ce_key e)"
  define other where "other = (map_of (rc_types c) ?t = None \<and> length (rc_types c) \<ge> maxCacheTypes)"
  note simps = rc_insert_simps [OF assms(3), where c = c, folded other_def]
  have fresh: "?i \<notin> set (rc_lru c)" using assms(2) by (auto simp: links_ok_def)
  have old: "tally (of_type (rc_insert e c) u) (rc_lru c) = tally (of_type c u) (rc_lru c)"
    "tally (\<lambda>i. ce_otherType (rc_heap (rc_insert e c) i)) (rc_lru c) = tally (\<lambda>i. ce_otherType (rc_heap c i)) (rc_lru c)" for u
    using fresh by (auto intro!: tally_cong simp: of_type_def simps(3) split: if_splits)
  have new: "of_type (rc_insert e c) u ?i \<longleftrightarrow> \<not> other \<and> u = ?t" "ce_otherType (rc_heap (rc_insert e c) ?i) = other" for u
    using assms(3) by (auto simp: of_type_def simps(3))
  have cnt: "type_count (rc_types c) u = tally (of_type c u) (rc_lru c)" for u using assms(1) by (simp add: types_ok_def)
  then have pos: "type_count (rc_types c) ?t + 1 > 0" using tally_nonneg [of "of_type c ?t" "rc_lru c"] by simp
  then have types: "rc_types (rc_insert e c) = (if other then rc_types c else AList.update ?t (type_count (rc_types c) ?t + 1) (rc_types c))"
    by (simp add: simps(7) Let_def)
  have "length (rc_types (rc_insert e c)) \<le> maxCacheTypes"
    using assms(1) by (auto simp: types length_AList_update types_ok_def other_def map_of_None_iff)
  then show ?thesis
    using assms(1) cnt unfolding types_ok_def simps(1,6)
    by (auto simp: old new types type_count_update distinct_update)
qed

lemma rc_insert_inv [inv_intros]:
  "rc_inv c \<Longrightarrow> rc_m c (ce_key e) = None \<Longrightarrow> \<not> ce_otherType e \<Longrightarrow> rc_inv (rc_insert e c)"
  by (simp add: rc_inv_def rc_insert_links rc_insert_types)

text \<open>Moving an element to the front, and changing the refresh fields of an entry.\<close>

lemma rc_inv_move:
  assumes "rc_inv c" and "i \<in> set (rc_lru c)"
  shows "rc_inv (c\<lparr>rc_lru := i # remove1 i (rc_lru c)\<rparr>)"
proof -
  have d: "distinct (rc_lru c)" using assms(1) by (simp add: rc_inv_def links_ok_def)
  have "of_type (c\<lparr>rc_lru := l\<rparr>) = of_type c" for l by (rule of_type_heap) simp
  moreover have "(\<Sum>j\<leftarrow>rc_lru c. f j) = (\<Sum>j\<leftarrow>i # remove1 i (rc_lru c). f j)" for f :: "elem \<Rightarrow> int"
    using sum_list_map_remove1 [OF assms(2), of f] by simp
  moreover have "set (i # remove1 i (rc_lru c)) = set (rc_lru c)" using set_remove1_eq [OF d] assms(2) by auto
  moreover have "distinct (i # remove1 i (rc_lru c))" using d set_remove1_eq [OF d] by simp
  ultimately show ?thesis using assms(1) unfolding rc_inv_def links_ok_def types_ok_def tally_def by simp
qed

lemma rc_inv_heap:
  assumes "rc_inv c"
    and "\<And>j. ce_key (h j) = ce_key (rc_heap c j) \<and> ce_wire (h j) = ce_wire (rc_heap c j) \<and> ce_otherType (h j) = ce_otherType (rc_heap c j)"
  shows "rc_inv (c\<lparr>rc_heap := h\<rparr>)"
proof -
  have "of_type (c\<lparr>rc_heap := h\<rparr>) = of_type c" using assms(2) by (intro ext) (simp add: of_type_def)
  with assms show ?thesis by (simp add: rc_inv_def links_ok_def types_ok_def)
qed

lemma rc_get_inv [inv_intros]: "rc_inv c \<Longrightarrow> rc_inv (snd (rc_get k now w c))"
  using rc_inv_mem [of c k] rc_inv_move [of c] removeLocked_inv [of c]
  by (auto simp: rc_get_def Let_def rc_inv_counters split: option.splits)

lemma beginRefresh_inv [inv_intros]: "rc_inv c \<Longrightarrow> rc_inv (snd (beginRefresh k now c))"
  by (auto simp: beginRefresh_def split: option.splits if_splits intro!: rc_inv_heap)

lemma endRefresh_inv [inv_intros]: "rc_inv c \<Longrightarrow> rc_inv (endRefresh k now c)"
  by (auto simp: endRefresh_def split: option.splits if_splits intro!: rc_inv_heap)

lemma rc_flush_inv [inv_intros]: "rc_inv c \<Longrightarrow> rc_inv (rc_flush c)"
  by (simp add: rc_inv_def links_ok_def types_ok_def rc_flush_def type_count_def)

lemma rc_init_inv: "rc_inv rc_init"
  by (simp add: rc_inv_def links_ok_def types_ok_def rc_init_def type_count_def)

text \<open>The state right before the new entry is inserted: the key is free.\<close>

definition rc_clear :: "cacheKey \<Rightarrow> 'i respCache \<Rightarrow> 'i respCache" where
  "rc_clear k c = (case rc_m c k of None \<Rightarrow> c | Some i \<Rightarrow> removeLocked i c)"

lemma rc_clear_inv: "rc_inv c \<Longrightarrow> rc_inv (rc_clear k c) \<and> rc_m (rc_clear k c) k = None"
  using rc_inv_mem [of c k] by (auto simp: rc_clear_def removeLocked_inv split: option.splits)

definition new_cacheEntry :: "cacheKey \<Rightarrow> bytes \<Rightarrow> 'i entryMeta \<Rightarrow> instant \<Rightarrow> u32 \<Rightarrow> bool \<Rightarrow> bool \<Rightarrow> 'i cacheEntry" where
  "new_cacheEntry k wire meta now ttl servfail noStale =
     no_cacheEntry\<lparr>ce_key := k, ce_wire := wire, ce_meta := meta, ce_stored := now,
       ce_expires := now + uint ttl * Second, ce_servfail := servfail, ce_noStale := noStale\<rparr>"

lemma new_cacheEntry_simps [simp]:
  "ce_key (new_cacheEntry k wire meta now ttl sf ns) = k" "ce_wire (new_cacheEntry k wire meta now ttl sf ns) = wire"
  "ce_meta (new_cacheEntry k wire meta now ttl sf ns) = meta" "ce_stored (new_cacheEntry k wire meta now ttl sf ns) = now"
  "ce_expires (new_cacheEntry k wire meta now ttl sf ns) = now + uint ttl * Second"
  "ce_servfail (new_cacheEntry k wire meta now ttl sf ns) = sf" "ce_noStale (new_cacheEntry k wire meta now ttl sf ns) = ns"
  "\<not> ce_otherType (new_cacheEntry k wire meta now ttl sf ns)"
  by (simp_all add: new_cacheEntry_def no_cacheEntry_def)

text \<open>A SERVFAIL (or a lookup failure) is dropped while the entry it would replace can still be served.\<close>

definition rc_keeps :: "cacheKey \<Rightarrow> bool \<Rightarrow> instant \<Rightarrow> cachePolicy \<Rightarrow> 'i respCache \<Rightarrow> bool" where
  "rc_keeps k servfail now p c = (case rc_m c k of None \<Rightarrow> False
     | Some i \<Rightarrow> servfail \<and> \<not> ce_servfail (rc_heap c i) \<and> time_Sub now (ce_expires (rc_heap c i)) < cp_staleWindow p)"

lemma rc_store_unfold:
  "rc_store Pack k m now p meta c =
     (if cp_capacity p \<le> 0 then c
      else case lifetime k m now p meta of
        None \<Rightarrow> c
      | Some (m', ttl, servfail, noStale) \<Rightarrow>
          (case Pack (m'\<lparr>m_Compress := True\<rparr>) of
             None \<Rightarrow> c
           | Some wire \<Rightarrow>
               if int (length wire) > maxEntryBytes \<or> rc_keeps k servfail now p c then c
               else evictLocked (cp_capacity p) (rc_insert (new_cacheEntry k wire meta now ttl servfail noStale) (rc_clear k c))))"
  unfolding rc_store_def rc_clear_def [symmetric] rc_keeps_def new_cacheEntry_def Let_def
  by (auto split: option.splits prod.splits)

lemma rc_store_cases:
  obtains (same) "rc_store Pack k m now p meta c = c"
  | (stored) wire m' ttl servfail noStale where "lifetime k m now p meta = Some (m', ttl, servfail, noStale)"
      "Pack (m'\<lparr>m_Compress := True\<rparr>) = Some wire" "int (length wire) \<le> maxEntryBytes" "0 < cp_capacity p"
      "rc_store Pack k m now p meta c =
        evictLocked (cp_capacity p) (rc_insert (new_cacheEntry k wire meta now ttl servfail noStale) (rc_clear k c))"
  unfolding rc_store_unfold by (force split: option.splits prod.splits if_splits)

lemma rc_insert_clear_inv: "rc_inv c \<Longrightarrow> rc_inv (rc_insert (new_cacheEntry k wire meta now ttl sf ns) (rc_clear k c))"
  using rc_clear_inv [of c k] by (intro rc_insert_inv) auto

lemma rc_store_inv [inv_intros]: "rc_inv c \<Longrightarrow> rc_inv (rc_store Pack k m now p meta c)"
  by (rule rc_store_cases [of Pack k m now p meta c]) (auto intro: evictLocked_inv rc_insert_clear_inv)

section \<open>Sequences of operations\<close>

datatype ('d, 'q, 'i) rc_op =
    OpGet cacheKey instant duration
  | OpStore cacheKey "('d, 'q) msg" instant cachePolicy "'i entryMeta"
  | OpBegin cacheKey instant
  | OpEnd cacheKey instant
  | OpTrim int
  | OpFlush

fun rc_step :: "(('d, 'q) msg \<Rightarrow> bytes option) \<Rightarrow> ('d, 'q, 'i) rc_op \<Rightarrow> 'i respCache \<Rightarrow> 'i respCache" where
  "rc_step Pack (OpGet k now w) c = snd (rc_get k now w c)"
| "rc_step Pack (OpStore k m now p meta) c = rc_store Pack k m now p meta c"
| "rc_step Pack (OpBegin k now) c = snd (beginRefresh k now c)"
| "rc_step Pack (OpEnd k now) c = endRefresh k now c"
| "rc_step Pack (OpTrim capacity) c = rc_trim capacity c"
| "rc_step Pack OpFlush c = rc_flush c"

interpretation rc: invariant_machine rc_init "rc_step Pack" rc_inv
  for Pack :: "('d, 'q) msg \<Rightarrow> bytes option"
proof
  show "rc_inv rc_init" by (rule rc_init_inv)
  fix c :: "'c respCache" and oper
  assume "rc_inv c"
  then show "rc_inv (rc_step Pack oper c)" by (cases oper) (auto intro: inv_intros simp: rc_trim_def)
qed

lemma rc_len_eq: "rc_inv c \<Longrightarrow> rc_len c = length (rc_lru c)"
proof -
  assume inv: "rc_inv c"
  then have d: "distinct (rc_lru c)" and m: "\<And>k i. rc_m c k = Some i \<longleftrightarrow> i \<in> set (rc_lru c) \<and> ce_key (rc_heap c i) = k"
    by (auto simp: rc_inv_def links_ok_def)
  have "dom (rc_m c) = (\<lambda>i. ce_key (rc_heap c i)) ` set (rc_lru c)" using m by (auto simp: dom_def image_iff)
  moreover have "inj_on (\<lambda>i. ce_key (rc_heap c i)) (set (rc_lru c))" using m by (intro inj_onI) (metis option.inject)
  ultimately show ?thesis using d by (simp add: rc_len_def card_image distinct_card)
qed

text \<open>
  C10: the cache is consistent after any sequence of lookups, stores, refreshes, trims and flushes:
  the key map and the LRU list hold the same elements, each once and under its own key, the byte
  count is the sum of the wire lengths, the counts by record type are exact (at most 64 types are
  counted by name), and the size reported is the length of the list.
\<close>

theorem cache_consistent:
  "let c = fold (rc_step Pack) opers rc_init in rc_inv c \<and> rc_len c = length (rc_lru c)"
  using rc.inv_run [of Pack opers] rc_len_eq by (simp add: Let_def)

lemma rc_store_bounds:
  assumes "rc_inv c"
  shows "rc_store Pack k m now p meta c = c \<or>
    int (length (rc_lru (rc_store Pack k m now p meta c))) \<le> cp_capacity p \<and>
    rc_bytes (rc_store Pack k m now p meta c) \<le> maxCacheBytes"
proof (rule rc_store_cases [of Pack k m now p meta c])
  fix wire m' ttl servfail noStale
  assume "0 < cp_capacity p" and "rc_store Pack k m now p meta c =
    evictLocked (cp_capacity p) (rc_insert (new_cacheEntry k wire meta now ttl servfail noStale) (rc_clear k c))"
  then show ?thesis using evictLocked_bounds [OF _ rc_insert_clear_inv [OF assms], of "cp_capacity p"] by simp
qed simp

text \<open>
  C27: the cache never grows beyond its bounds. In every reachable state, a store either leaves the
  cache as it is or ends with at most \<^verbatim>\<open>capacity\<close> entries and 64 MiB, and so does a trim.
\<close>

theorem cache_bounded:
  "let c = fold (rc_step Pack) opers rc_init; c' = rc_store Pack k m now p meta c; t = rc_trim (int n) c in
   (c' = c \<or> int (rc_len c') \<le> cp_capacity p \<and> rc_bytes c' \<le> maxCacheBytes) \<and>
   rc_len t \<le> n \<and> rc_bytes t \<le> maxCacheBytes"
proof -
  let ?c = "fold (rc_step Pack) opers rc_init"
  have inv: "rc_inv ?c" by (rule rc.inv_run)
  have "int (rc_len (rc_trim (int n) ?c)) \<le> int n \<and> rc_bytes (rc_trim (int n) ?c) \<le> maxCacheBytes"
    using evictLocked_bounds [OF _ inv, of "int n"] rc_len_eq [OF evictLocked_inv [OF inv]] by (simp add: rc_trim_def)
  then show ?thesis
    using rc_store_bounds [OF inv, of Pack k m now p meta] rc_len_eq [OF rc_store_inv [OF inv, of Pack k m now p meta]]
    by (auto simp: Let_def)
qed

section \<open>What a lookup returns\<close>

lemma evictLocked_heap [simp]: "rc_heap (evictLocked capacity c) = rc_heap c"
proof (induction capacity c rule: evictLocked.induct)
  case (1 capacity c)
  then show ?case by (subst evictLocked.simps) (simp add: Let_def)
qed

lemma evictLocked_subset: "set (rc_lru (evictLocked capacity c)) \<subseteq> set (rc_lru c)"
proof (induction capacity c rule: evictLocked.induct)
  case (1 capacity c)
  then show ?case by (subst evictLocked.simps) (auto simp: Let_def dest: set_remove1_subset [THEN subsetD])
qed

text \<open>Eviction takes the least recently used entries: an entry at the front that fits stays.\<close>

lemma evictLocked_keeps_front:
  assumes "rc_inv c" and "rc_lru c = i # rest" and "1 \<le> capacity" and "int (length (ce_wire (rc_heap c i))) \<le> maxCacheBytes"
  shows "i \<in> set (rc_lru (evictLocked capacity c))"
  using assms
proof (induction capacity c arbitrary: rest rule: evictLocked.induct)
  case (1 capacity c)
  show ?case
  proof (cases "int (length (rc_lru c)) > capacity \<or> rc_bytes c > maxCacheBytes")
    case False
    then show ?thesis using "1.prems" by (subst evictLocked.simps) auto
  next
    case True
    have "rest \<noteq> []"
    proof
      assume "rest = []"
      then have "rc_bytes c = int (length (ce_wire (rc_heap c i)))" "length (rc_lru c) = 1"
        using "1.prems" by (auto simp: rc_inv_def links_ok_def)
      with True "1.prems" show False by simp
    qed
    let ?c' = "removeLocked (last (rc_lru c)) c"
    have d: "distinct (i # rest)" using "1.prems" by (auto simp: rc_inv_def links_ok_def)
    have "last (rc_lru c) \<noteq> i" using d \<open>rest \<noteq> []\<close> "1.prems"(2) by auto
    then have lru: "rc_lru (?c'\<lparr>rc_evictions := n\<rparr>) = i # remove1 (last rest) rest" for n
      using "1.prems"(2) \<open>rest \<noteq> []\<close> by simp
    have "rc_inv ?c'" using "1.prems" by (intro removeLocked_inv) auto
    then have "i \<in> set (rc_lru (evictLocked capacity (?c'\<lparr>rc_evictions := rc_evictions ?c' + 1\<rparr>)))"
      using "1.prems" True lru by (intro "1.IH") (auto simp: rc_inv_counters)
    then show ?thesis using True "1.prems"(2) by (subst evictLocked.simps) (simp add: Let_def)
  qed
qed

lemma prepareForCache_pos: "pr_ok (prepareForCache m qtype p) \<Longrightarrow> 0 < pr_ttl (prepareForCache m qtype p)"
  by (auto simp: prepareForCache_def Let_def servfailTTL_def split: if_splits option.splits)

lemma lifetime_pos:
  assumes "lifetime k m now p meta = Some (m', ttl, sf, ns)"
  shows "0 < ttl"
proof (cases "em_block meta \<noteq> None")
  case True
  then show ?thesis using assms by (auto simp: lifetime_def hardMaxTTL_def split: if_splits)
next
  case False
  then show ?thesis
    using assms prepareForCache_pos [of m "ck_qtype k" p]
    by (auto simp: lifetime_def Let_def bogusLookupTTL_def bogusCryptoTTL_def split: if_splits)
qed

text \<open>
  What is stored is what is served. After a store that is not dropped, and until the lifetime
  computed for the answer ends, a lookup of the key returns the stored bytes and meta data, fresh.
\<close>

theorem store_then_get:
  assumes "rc_inv c" and "lifetime k m now p meta = Some (m', ttl, servfail, noStale)"
    and "Pack (m'\<lparr>m_Compress := True\<rparr>) = Some wire" and "int (length wire) \<le> maxEntryBytes" and "0 < cp_capacity p"
    and "\<not> rc_keeps k servfail now p c"
    and "now' < now + uint ttl * Second"
  shows "fst (rc_get k now' w (rc_store Pack k m now p meta c)) =
    Some \<lparr>ch_wire = wire, ch_meta = meta, ch_stored = now, ch_stale = False\<rparr>"
proof -
  let ?e = "new_cacheEntry k wire meta now ttl servfail noStale"
  let ?c1 = "rc_insert ?e (rc_clear k c)"
  let ?i = "rc_next (rc_clear k c)"
  have st: "rc_store Pack k m now p meta c = evictLocked (cp_capacity p) ?c1"
    using assms(2-6) by (simp add: rc_store_unfold)
  have inv: "rc_inv ?c1" using rc_insert_clear_inv [OF assms(1)] .
  have heap: "rc_heap ?c1 ?i = ?e \<or> rc_heap ?c1 ?i = ?e\<lparr>ce_otherType := True\<rparr>" by (simp add: rc_insert_simps)
  have "?i \<in> set (rc_lru (evictLocked (cp_capacity p) ?c1))"
    using assms(4,5) heap by (intro evictLocked_keeps_front [OF inv]) (auto simp: rc_insert_simps maxEntryBytes_def maxCacheBytes_def)
  then have "rc_m (evictLocked (cp_capacity p) ?c1) k = Some ?i"
    using rc_inv_mem [OF evictLocked_inv [OF inv]] heap by auto
  then show ?thesis using assms(7) heap unfolding st by (auto simp: rc_get_def Let_def)
qed

definition ex_key :: cacheKey where
  "ex_key = no_key\<lparr>ck_name := ''a.b'', ck_qtype := 1, ck_qclass := 1\<rparr>"

definition ex_msg :: "(unit, unit) msg" where
  "ex_msg = \<lparr>m_Id = 0, m_Rcode = 0, m_Truncated = False, m_Compress = False, m_Question = [],
     m_Answer = [\<lparr>rr_Type = 1, rr_Ttl = 300, rr_Minttl = 0, rr_Data = ()\<rparr>], m_Ns = [], m_Extra = []\<rparr>"

definition ex_policy :: cachePolicy where
  "ex_policy = \<lparr>cp_capacity = 10, cp_minTTL = 60, cp_maxTTL = 0, cp_staleWindow = 0, cp_blockedTTL = 0\<rparr>"

lemma ex_lifetime: "lifetime ex_key ex_msg 0 ex_policy no_meta = Some (ex_msg, 300, False, False)"
  by code_simp

theorem store_then_get_witness:
  "fst (rc_get ex_key 1000 0 (rc_store (\<lambda>m. Some [1, 2, 3]) ex_key ex_msg 0 ex_policy (no_meta :: unit entryMeta) rc_init)) =
     Some \<lparr>ch_wire = [1, 2, 3], ch_meta = no_meta, ch_stored = 0, ch_stale = False\<rparr>"
  by (rule store_then_get [OF rc_init_inv ex_lifetime])
    (simp_all add: maxEntryBytes_def ex_policy_def rc_keeps_def rc_init_def Second_def)

section \<open>Stale and bogus answers\<close>

text \<open>Every entry of a bogus answer is marked and short-lived, and every entry was stored before it expires.\<close>

definition entry_ok :: "'i cacheEntry \<Rightarrow> bool" where
  "entry_ok e \<longleftrightarrow> (em_bogus (ce_meta e) \<and> em_block (ce_meta e) = None \<longrightarrow>
     ce_noStale e \<and> ce_expires e \<le> ce_stored e + 30 * Second)"

definition rc_inv_entries :: "'i respCache \<Rightarrow> bool" where
  "rc_inv_entries c \<longleftrightarrow> rc_inv c \<and> (\<forall>i \<in> set (rc_lru c). entry_ok (rc_heap c i))"

lemma lifetime_bogus:
  assumes "lifetime k m now p meta = Some (m', ttl, sf, ns)" and "em_bogus meta" and "em_block meta = None"
  shows "ns \<and> uint ttl \<le> 30"
proof -
  have "ns \<and> ttl \<le> 30"
    using assms by (auto simp: lifetime_def Let_def bogusLookupTTL_def bogusCryptoTTL_def not_less split: if_splits)
  then show ?thesis by (simp add: word_le_def)
qed

lemma new_entry_ok:
  "lifetime k m now p meta = Some (m', ttl, sf, ns) \<Longrightarrow> entry_ok (new_cacheEntry k wire meta now ttl sf ns)"
  using lifetime_bogus [of k m now p meta m' ttl sf ns] by (auto simp: entry_ok_def Second_def)

lemma entry_ok_fields:
  "entry_ok (e\<lparr>ce_otherType := a\<rparr>) = entry_ok e" "entry_ok (e\<lparr>ce_refreshing := b\<rparr>) = entry_ok e"
  "entry_ok (e\<lparr>ce_nextRefresh := t\<rparr>) = entry_ok e"
  by (simp_all add: entry_ok_def)

lemma rc_clear_simps [simp]: "rc_heap (rc_clear k c) = rc_heap c" "rc_next (rc_clear k c) = rc_next c"
  by (simp_all add: rc_clear_def split: option.splits)

lemma rc_clear_subset: "set (rc_lru (rc_clear k c)) \<subseteq> set (rc_lru c)"
  by (auto simp: rc_clear_def split: option.splits dest: set_remove1_subset [THEN subsetD])

lemma rc_store_entries: "rc_inv_entries c \<Longrightarrow> rc_inv_entries (rc_store Pack k m now p meta c)"
proof (rule rc_store_cases [of Pack k m now p meta c])
  fix wire m' ttl sf ns
  let ?e = "new_cacheEntry k wire meta now ttl sf ns"
  assume inv: "rc_inv_entries c" and life: "lifetime k m now p meta = Some (m', ttl, sf, ns)"
    and st: "rc_store Pack k m now p meta c = evictLocked (cp_capacity p) (rc_insert ?e (rc_clear k c))"
  have "entry_ok (rc_heap (rc_insert ?e (rc_clear k c)) i)" if "i \<in> set (rc_lru (rc_insert ?e (rc_clear k c)))" for i
    using that inv new_entry_ok [OF life] rc_clear_subset [of k c]
    by (auto simp: rc_insert_simps rc_inv_entries_def entry_ok_fields)
  then show ?thesis
    using inv rc_store_inv [of c Pack k m now p meta] evictLocked_subset unfolding st rc_inv_entries_def by fastforce
qed simp

interpretation rce: invariant_machine rc_init "rc_step Pack" rc_inv_entries
  for Pack :: "('d, 'q) msg \<Rightarrow> bytes option"
proof
  show "rc_inv_entries rc_init" using rc_init_inv by (simp add: rc_inv_entries_def rc_init_def)
  fix c :: "'c respCache" and oper
  assume c: "rc_inv_entries c"
  then have inv: "rc_inv (rc_step Pack oper c)" using rc.inv_step by (auto simp: rc_inv_entries_def)
  have mem: "rc_m c k = Some i \<Longrightarrow> i \<in> set (rc_lru c)" for k i using c rc_inv_mem by (auto simp: rc_inv_entries_def)
  show "rc_inv_entries (rc_step Pack oper c)"
  proof (cases oper)
    case (OpStore k m now p meta)
    then show ?thesis using rc_store_entries [OF c] by simp
  next
    case (OpGet k now w)
    then show ?thesis
      using c inv mem [of k] by (auto simp: rc_inv_entries_def rc_get_def Let_def split: option.splits if_splits dest: set_remove1_subset [THEN subsetD])
  next
    case (OpTrim n)
    then show ?thesis using c inv evictLocked_subset by (fastforce simp: rc_inv_entries_def rc_trim_def)
  qed (use c inv in \<open>auto simp: rc_inv_entries_def beginRefresh_def endRefresh_def rc_flush_def entry_ok_fields split: option.splits if_splits\<close>)
qed

text \<open>
  C28: in every reachable state a lookup serves an expired answer only when serve-stale is on (a
  positive window); an answer that failed DNSSEC validation (bogus, not blocked by the
  upstream) is never served stale and never longer than 30 s after it was stored.
\<close>

theorem served_answers:
  assumes "fst (rc_get k now w (fold (rc_step Pack) opers rc_init)) = Some h"
  shows "(ch_stale h \<longrightarrow> 0 < w) \<and>
    (em_bogus (ch_meta h) \<and> em_block (ch_meta h) = None \<longrightarrow> \<not> ch_stale h \<and> now < ch_stored h + 30 * Second)"
proof -
  let ?c = "fold (rc_step Pack) opers rc_init"
  have inv: "rc_inv_entries ?c" by (rule rce.inv_run)
  obtain i where i: "rc_m ?c k = Some i" and h: "h = \<lparr>ch_wire = ce_wire (rc_heap ?c i), ch_meta = ce_meta (rc_heap ?c i),
      ch_stored = ce_stored (rc_heap ?c i), ch_stale = (\<not> now < ce_expires (rc_heap ?c i))\<rparr>"
    and fresh: "\<not> (\<not> now < ce_expires (rc_heap ?c i) \<and> (ce_servfail (rc_heap ?c i) \<or> ce_noStale (rc_heap ?c i) \<or>
      time_Sub now (ce_expires (rc_heap ?c i)) \<ge> w))"
    using assms by (auto simp: rc_get_def Let_def split: option.splits if_splits)
  have ok: "entry_ok (rc_heap ?c i)" using inv i rc_inv_mem by (auto simp: rc_inv_entries_def)
  have "0 < w" if "\<not> now < ce_expires (rc_heap ?c i)"
  proof -
    have "0 \<le> time_Sub now (ce_expires (rc_heap ?c i))" using that by (simp add: time_Sub_def min_duration_def max_duration_def)
    with fresh that show ?thesis by auto
  qed
  with ok fresh show ?thesis by (auto simp: h entry_ok_def)
qed

definition ex_bogus :: "unit entryMeta" where
  "ex_bogus = no_meta\<lparr>em_bogus := True\<rparr>"

definition ex_hit :: "unit cacheHit" where
  "ex_hit = \<lparr>ch_wire = [1, 2, 3], ch_meta = ex_bogus, ch_stored = 0, ch_stale = False\<rparr>"

theorem served_answers_witness:
  "fst (rc_get ex_key 1000 0 (fold (rc_step (\<lambda>m. Some [1, 2, 3])) [OpStore ex_key ex_msg 0 ex_policy ex_bogus] rc_init)) = Some ex_hit \<and>
   \<not> ch_stale ex_hit \<and> (1000 :: int) < ch_stored ex_hit + 30 * Second"
proof -
  have "fst (rc_get ex_key 1000 0 (fold (rc_step (\<lambda>m. Some [1, 2, 3])) [OpStore ex_key ex_msg 0 ex_policy ex_bogus] rc_init)) = Some ex_hit"
    by code_simp
  with served_answers [OF this] show ?thesis by (simp add: ex_hit_def ex_bogus_def no_meta_def)
qed

text \<open>
  C29: a SERVFAIL never replaces data that can still be served: while the entry of the key is not
  itself a SERVFAIL and is fresh or within the serve-stale window, storing a SERVFAIL reply leaves
  the cache as it is.
\<close>

theorem servfail_keeps_entry:
  assumes "rc_m c k = Some i" and "\<not> ce_servfail (rc_heap c i)" and "time_Sub now (ce_expires (rc_heap c i)) < cp_staleWindow p"
    and "m_Rcode m = RcodeServerFailure" and "em_block meta = None" and "\<not> em_bogus meta" and "em_expires meta = zero_time"
  shows "rc_store Pack k m now p meta c = c"
proof -
  have "lifetime k m now p meta = None \<or> lifetime k m now p meta = Some (m, servfailTTL, True, False)"
    using assms(4-7) by (simp add: lifetime_def prepareForCache_def Let_def)
  moreover have "rc_keeps k True now p c" using assms(1-3) by (simp add: rc_keeps_def)
  ultimately show ?thesis by (auto simp: rc_store_unfold split: option.splits)
qed

definition ex_cache :: "unit respCache" where
  "ex_cache = rc_init\<lparr>rc_m := [ex_key \<mapsto> 0], rc_lru := [0], rc_next := 1, rc_types := [(1, 1)], rc_bytes := 1,
     rc_heap := (rc_heap rc_init)(0 := new_cacheEntry ex_key [7] no_meta 0 300 False False)\<rparr>"

theorem servfail_keeps_entry_witness:
  "rc_store (\<lambda>m. Some [9]) ex_key (ex_msg\<lparr>m_Rcode := RcodeServerFailure\<rparr>) (301 * Second)
     (ex_policy\<lparr>cp_staleWindow := 3600 * Second\<rparr>) no_meta ex_cache = ex_cache"
  by (rule servfail_keeps_entry [where i = 0])
    (simp_all add: ex_cache_def no_meta_def time_Sub_def Second_def min_duration_def max_duration_def)

text \<open>
  Refreshes of a stale entry are single-flight. A refresh that was begun keeps every other
  \<^verbatim>\<open>beginRefresh\<close> of the key from starting one, at any time, until it ends; afterwards the next one
  starts no earlier than 5 s later, and then it does.
\<close>

theorem refresh_single_flight:
  assumes "beginRefresh k t0 c = (True, c1)"
  shows "\<not> fst (beginRefresh k t c1) \<and>
    (fst (beginRefresh k t2 (endRefresh k t1 c1)) \<longleftrightarrow> t1 + 5 * Second \<le> t2)"
  using assms by (auto simp: beginRefresh_def endRefresh_def refreshBackoff_def split: option.splits if_splits)

theorem refresh_single_flight_witness:
  "fst (beginRefresh ex_key 0 ex_cache) \<and> \<not> fst (beginRefresh ex_key 1 (snd (beginRefresh ex_key 0 ex_cache))) \<and>
   fst (beginRefresh ex_key (7 * Second) (endRefresh ex_key (2 * Second) (snd (beginRefresh ex_key 0 ex_cache))))"
proof -
  have b: "fst (beginRefresh ex_key 0 ex_cache)"
    by (simp add: beginRefresh_def ex_cache_def new_cacheEntry_def no_cacheEntry_def zero_time_def)
  then have "beginRefresh ex_key 0 ex_cache = (True, snd (beginRefresh ex_key 0 ex_cache))" by (simp add: prod_eq_iff)
  from refresh_single_flight [OF this, of 1 "7 * Second" "2 * Second"] b show ?thesis by (simp add: Second_def)
qed

section \<open>Bounds of the lifetimes\<close>

lemma clamp_le: "clamp t p \<le> hardMaxTTL"
  by (simp add: clamp_def Let_def)

lemma min_ttl_foldl_le: "foldl (\<lambda>t r. min t (rr_Ttl r)) a sec \<le> a \<and> (\<forall>r \<in> set sec. foldl (\<lambda>t r. min t (rr_Ttl r)) a sec \<le> rr_Ttl r)"
proof (induction sec arbitrary: a)
  case (Cons r sec)
  have "foldl (\<lambda>t r. min t (rr_Ttl r)) (min a (rr_Ttl r)) sec \<le> min a (rr_Ttl r)" using Cons by blast
  with Cons show ?case by (auto intro: order_trans)
qed simp

lemma min_ttl_le: "r \<in> set sec \<Longrightarrow> min_ttl sec \<le> rr_Ttl r"
  using min_ttl_foldl_le [of "-1" sec] by (auto simp: min_ttl_def)

lemma answersType_clamped:
  assumes "answersType (map_ttls f sec) qtype" and "\<forall>r \<in> set sec. rr_Type r \<noteq> TypeOPT" and "\<And>t. f t \<le> b"
  shows "min_ttl (map_ttls f sec) \<le> b"
proof -
  obtain r where r: "r \<in> set (map_ttls f sec)" using assms(1) by (auto simp: answersType_def list_ex_iff)
  then have "rr_Ttl r \<le> b" using assms(2,3) by (auto simp: map_ttls_def)
  with min_ttl_le [OF r] show ?thesis by (rule order_trans)
qed

text \<open>
  The lifetimes the cache computes. For a reply without an OPT record in its answer section
  (RFC 6891 allows it only in the additional section), a cacheable answer lives at least a second
  and at most 7 days; a reply that is not a SERVFAIL and holds no data of the queried type (NXDOMAIN,
  NODATA) at most an hour; and a SERVFAIL 5 s.
\<close>

theorem prepareForCache_bounds:
  assumes "pr_ok (prepareForCache m qtype p)" and "\<forall>r \<in> set (m_Answer m). rr_Type r \<noteq> TypeOPT"
  shows "0 < pr_ttl (prepareForCache m qtype p) \<and> pr_ttl (prepareForCache m qtype p) \<le> hardMaxTTL \<and>
    (m_Rcode m \<noteq> RcodeServerFailure \<and> \<not> (m_Rcode m = RcodeSuccess \<and> answersType (m_Answer m) qtype) \<longrightarrow>
       pr_ttl (prepareForCache m qtype p) \<le> maxNegativeTTL) \<and>
    (m_Rcode m = RcodeServerFailure \<longrightarrow> pr_ttl (prepareForCache m qtype p) = 5)"
proof -
  let ?r = "prepareForCache m qtype p"
  have types: "answersType (map_ttls f sec) qtype = answersType sec qtype" for f and sec :: "'c rr list"
    by (induction sec) (auto simp: answersType_def map_ttls_def)
  have ans: "m_Answer (clampTTLs m p) = map_ttls (\<lambda>t. clamp t p) (m_Answer m)" "m_Rcode (clampTTLs m p) = m_Rcode m"
    by (simp_all add: clampTTLs_def msg_ttls_def)
  have "pr_ttl ?r \<le> hardMaxTTL" if "m_Rcode m = RcodeSuccess" "answersType (m_Answer m) qtype"
  proof -
    have "min_ttl (map_ttls (\<lambda>t. clamp t p) (m_Answer m)) \<le> hardMaxTTL"
      using that(2) assms(2) clamp_le by (intro answersType_clamped [where qtype = qtype]) (auto simp: types)
    with assms(1) that show ?thesis
      by (auto simp: prepareForCache_def Let_def ans types dns_consts split: if_splits)
  qed
  moreover have "pr_ttl ?r \<le> maxNegativeTTL"
    if "m_Rcode m \<noteq> RcodeServerFailure" "\<not> (m_Rcode m = RcodeSuccess \<and> answersType (m_Answer m) qtype)"
    using assms(1) that by (auto simp: prepareForCache_def Let_def ans types min.coboundedI2 split: if_splits option.splits)
  moreover have "pr_ttl ?r = 5" if "m_Rcode m = RcodeServerFailure"
    using assms(1) that by (auto simp: prepareForCache_def servfailTTL_def split: if_splits)
  moreover have "(5 :: u32) \<le> hardMaxTTL" "maxNegativeTTL \<le> hardMaxTTL" by (simp_all add: cache_consts)
  ultimately show ?thesis using prepareForCache_pos [OF assms(1)] by (metis order_trans)
qed

theorem prepareForCache_bounds_witness:
  "pr_ok (prepareForCache ex_msg 1 ex_policy) \<and> 0 < pr_ttl (prepareForCache ex_msg 1 ex_policy) \<and>
   pr_ttl (prepareForCache ex_msg 1 ex_policy) \<le> hardMaxTTL"
proof -
  have "pr_ok (prepareForCache ex_msg 1 ex_policy)" by code_simp
  moreover have "\<forall>r \<in> set (m_Answer ex_msg). rr_Type r \<noteq> TypeOPT" by (simp add: ex_msg_def TypeOPT_def)
  ultimately show ?thesis using prepareForCache_bounds [of ex_msg 1 ex_policy] by blast
qed

text \<open>
  The hypothesis of the bound is needed: an OPT record in the answer section of a reply to a query
  of type ANY escapes the clamp and gives the entry its TTL field as lifetime.
\<close>

lemma opt_answer_escapes_cap:
  "pr_ok (prepareForCache (ex_msg\<lparr>m_Answer := [\<lparr>rr_Type = TypeOPT, rr_Ttl = 0x00800000, rr_Minttl = 0, rr_Data = ()\<rparr>]\<rparr>) TypeANY ex_policy) \<and>
   hardMaxTTL < pr_ttl (prepareForCache (ex_msg\<lparr>m_Answer := [\<lparr>rr_Type = TypeOPT, rr_Ttl = 0x00800000, rr_Minttl = 0, rr_Data = ()\<rparr>]\<rparr>) TypeANY ex_policy)"
  by code_simp

end
