(* ===== verification/Throttle.thy ===== *)
theory Throttle
  imports GoStrings "HOL-Library.AList"
begin

text \<open>
  Sign-in throttling, \<^verbatim>\<open>internal/auth/throttle.go\<close>: failure records per key, attempts in flight,
  lockouts of clients, devices and sessions, the growing delay of usernames and the reports of
  new lockouts. The failure table is an association list (its size is bounded and asked for), the
  pending attempts a map. The rate limiter of \<^verbatim>\<open>golang.org/x/time/rate\<close> is an argument \<open>AllowN\<close> on a
  state of its own; the mutex makes every method one step. Log lines are left out.
\<close>

section \<open>State\<close>

definition maxFailures :: int where "maxFailures = 5"
definition failureWindow :: duration where "failureWindow = 15 * Minute"
definition lockoutDuration :: duration where "lockoutDuration = 15 * Minute"
definition userDelayBase :: duration where "userDelayBase = Second"
definition userDelayMax :: duration where "userDelayMax = 30 * Second"
definition maxThrottleKeys :: nat where "maxThrottleKeys = 32768"

lemmas throttle_consts = maxFailures_def failureWindow_def lockoutDuration_def userDelayBase_def
  userDelayMax_def Minute_def Second_def

record failRecord =
  fr_count :: int
  fr_first :: instant
  fr_last :: instant
  fr_lockedUntil :: instant

record 'g throttle =
  th_fails :: "(string \<times> failRecord) list"
  th_pending :: "string \<rightharpoonup> int"
  th_global :: 'g

definition newThrottle :: "'g \<Rightarrow> 'g throttle" where
  "newThrottle g = \<lparr>th_fails = [], th_pending = Map.empty, th_global = g\<rparr>"

section \<open>Operations\<close>

definition fr_current :: "failRecord \<Rightarrow> instant \<Rightarrow> bool \<Rightarrow> int" where
  "fr_current r now user =
     (if user \<and> failureWindow \<le> time_Sub now (fr_last r) then 0
      else if \<not> user \<and> failureWindow < time_Sub now (fr_first r) then 0
      else fr_count r)"

definition sessionThrottleKey :: "string \<Rightarrow> string" where
  "sessionThrottleKey ident = ''s:'' @ ident"

definition isUserKey :: "string \<Rightarrow> bool" where
  "isUserKey k \<longleftrightarrow> strings_HasPrefix k ''u:''"

definition userDelay :: "int \<Rightarrow> duration" where
  "userDelay n =
     (let shift = n - maxFailures in
      if shift < 0 then 0
      else if shift \<ge> 6 then userDelayMax
      else min userDelayMax (push_bit (nat shift) userDelayBase))"

text \<open>The refusals of \<^verbatim>\<open>allow\<close>, all of them \<^verbatim>\<open>apperr.TooMany\<close>, by their text.\<close>

datatype throttle_error = WaitSeconds int | WaitMinutes int | AtOnce | LoginRate

definition ceil_div :: "int \<Rightarrow> int \<Rightarrow> int" where
  "ceil_div a b = - ((- a) div b)"

definition pend :: "'g throttle \<Rightarrow> string \<Rightarrow> int" where
  "pend t k = (case th_pending t k of None \<Rightarrow> 0 | Some n \<Rightarrow> n)"

definition locked_until :: "'g throttle \<Rightarrow> string list \<Rightarrow> instant" where
  "locked_until t keys =
     foldl (\<lambda>until k. case map_of (th_fails t) k of
         None \<Rightarrow> until
       | Some r \<Rightarrow> if until < fr_lockedUntil r then fr_lockedUntil r else until) zero_time keys"

definition too_many_pending :: "'g throttle \<Rightarrow> instant \<Rightarrow> string \<Rightarrow> bool" where
  "too_many_pending t now k \<longleftrightarrow>
     pend t k \<noteq> 0 \<and>
     maxFailures \<le> pend t k + (case map_of (th_fails t) k of None \<Rightarrow> 0 | Some r \<Rightarrow> fr_current r now (isUserKey k))"

definition reserve_key :: "'g throttle \<Rightarrow> string \<Rightarrow> 'g throttle" where
  "reserve_key t k = t\<lparr>th_pending := (th_pending t)(k \<mapsto> pend t k + 1)\<rparr>"

text \<open>
  \<^verbatim>\<open>allow\<close> returns the keys that its release function frees. The waits it reports are below a few
  minutes, where the floating-point ceiling of the code is the integer one.
\<close>

definition throttle_allow ::
    "('g \<Rightarrow> instant \<Rightarrow> bool \<times> 'g) \<Rightarrow> instant \<Rightarrow> string list \<Rightarrow> 'g throttle \<Rightarrow> (throttle_error + string list) \<times> 'g throttle" where
  "throttle_allow AllowN now keys t =
     (let wait = time_Sub (locked_until t keys) now in
      if wait > 0 then
        if wait < Minute then (Inl (WaitSeconds (ceil_div wait Second)), t)
        else (Inl (WaitMinutes (ceil_div wait Minute)), t)
      else if list_ex (too_many_pending t now) keys then (Inl AtOnce, t)
      else
        let (ok, g) = AllowN (th_global t) now in
        if \<not> ok then (Inl LoginRate, t\<lparr>th_global := g\<rparr>)
        else (Inr keys, foldl reserve_key (t\<lparr>th_global := g\<rparr>) keys))"

definition release_key :: "'g throttle \<Rightarrow> string \<Rightarrow> 'g throttle" where
  "release_key t k =
     (let n = pend t k - 1 in
      t\<lparr>th_pending := (th_pending t)(k := if n > 0 then Some n else None)\<rparr>)"

definition throttle_release :: "string list \<Rightarrow> 'g throttle \<Rightarrow> 'g throttle" where
  "throttle_release keys t = foldl release_key t keys"

definition sweepLocked :: "instant \<Rightarrow> 'g throttle \<Rightarrow> 'g throttle" where
  "sweepLocked now t =
     t\<lparr>th_fails := filter (\<lambda>(k, r). \<not> (fr_lockedUntil r \<le> now \<and> failureWindow < time_Sub now (fr_last r))) (th_fails t)\<rparr>"

text \<open>The loop body of \<^verbatim>\<open>fail\<close>: the record of a key, found or made, and its update.\<close>

definition fail_slot :: "instant \<Rightarrow> string \<Rightarrow> 'g throttle \<Rightarrow> 'g throttle \<times> failRecord option" where
  "fail_slot now k t =
     (case map_of (th_fails t) k of
        Some r \<Rightarrow> (t, Some r)
      | None \<Rightarrow>
          let t' = (if maxThrottleKeys \<le> length (th_fails t) then sweepLocked now t else t) in
          if maxThrottleKeys \<le> length (th_fails t') then (t', None)
          else (t', Some \<lparr>fr_count = 0, fr_first = now, fr_last = now, fr_lockedUntil = zero_time\<rparr>))"

definition fail_update :: "instant \<Rightarrow> bool \<Rightarrow> failRecord \<Rightarrow> failRecord \<times> bool" where
  "fail_update now user r =
     (let r1 = (if user \<and> failureWindow \<le> time_Sub now (fr_last r) then r\<lparr>fr_count := 0\<rparr>
                else if \<not> user \<and> failureWindow < time_Sub now (fr_first r) then r\<lparr>fr_count := 0, fr_first := now\<rparr>
                else r);
          r2 = r1\<lparr>fr_count := fr_count r1 + 1, fr_last := now\<rparr> in
      if fr_count r2 < maxFailures then (r2, False)
      else if user then (r2\<lparr>fr_lockedUntil := now + userDelay (fr_count r2)\<rparr>, fr_count r2 = maxFailures)
      else (r2\<lparr>fr_lockedUntil := now + lockoutDuration, fr_count := 0, fr_first := now\<rparr>, True))"

definition fail_key :: "instant \<Rightarrow> 'g throttle \<times> string list \<Rightarrow> string \<Rightarrow> 'g throttle \<times> string list" where
  "fail_key now st k =
     (case fail_slot now k (fst st) of
        (t, None) \<Rightarrow> (t, snd st)
      | (t, Some r) \<Rightarrow>
          let (r', new) = fail_update now (isUserKey k) r in
          (t\<lparr>th_fails := AList.update k r' (th_fails t)\<rparr>, if new then snd st @ [k] else snd st))"

definition throttle_fail :: "instant \<Rightarrow> string list \<Rightarrow> 'g throttle \<Rightarrow> 'g throttle \<times> string list" where
  "throttle_fail now keys t = foldl (fail_key now) (t, []) keys"

definition throttle_succeed :: "string list \<Rightarrow> 'g throttle \<Rightarrow> 'g throttle" where
  "throttle_succeed keys t = foldl (\<lambda>t k. t\<lparr>th_fails := AList.delete k (th_fails t)\<rparr>) t keys"

text \<open>Reports of new lockouts (\<^verbatim>\<open>recordFailure\<close>): they name the client, never a username or a session.\<close>

datatype lockoutKind = LockoutClient | LockoutDevice | LockoutSession | LockoutUsername

record Lockout =
  lo_Kind :: lockoutKind
  lo_Client :: string
  lo_For :: duration

definition failing_client :: "string list \<Rightarrow> string" where
  "failing_client keys =
     foldl (\<lambda>c k. if strings_HasPrefix k ''c:'' \<and> k \<noteq> ''c:unknown'' then strings_TrimPrefix k ''c:'' else c) [] keys"

definition lockout_of :: "string \<Rightarrow> string \<Rightarrow> Lockout" where
  "lockout_of client k =
     (let l = \<lparr>lo_Kind = LockoutUsername, lo_Client = client, lo_For = lockoutDuration\<rparr> in
      if strings_HasPrefix k ''c:'' then l\<lparr>lo_Kind := LockoutClient\<rparr>
      else if strings_HasPrefix k ''d:'' then l\<lparr>lo_Kind := LockoutDevice\<rparr>
      else if strings_HasPrefix k ''s:'' then l\<lparr>lo_Kind := LockoutSession\<rparr>
      else l\<lparr>lo_Kind := LockoutUsername, lo_For := userDelay maxFailures\<rparr>)"

definition recordFailure :: "instant \<Rightarrow> string list \<Rightarrow> 'g throttle \<Rightarrow> 'g throttle \<times> Lockout list" where
  "recordFailure now keys t =
     (let (t', locked) = throttle_fail now keys t in (t', map (lockout_of (failing_client keys)) locked))"

section \<open>The record of one key\<close>

definition rec_of :: "'g throttle \<Rightarrow> string \<Rightarrow> failRecord option" where
  "rec_of t k = map_of (th_fails t) k"

definition new_failRecord :: "instant \<Rightarrow> failRecord" where
  "new_failRecord now = \<lparr>fr_count = 0, fr_first = now, fr_last = now, fr_lockedUntil = zero_time\<rparr>"

text \<open>
  Everything the operations do to a key, seen through \<open>rec_of\<close> and \<open>pend\<close>: the proofs below only
  use these facts. A failure of another key keeps the record or, in a sweep, drops a stale one.
\<close>

definition stale_rec :: "instant \<Rightarrow> failRecord \<Rightarrow> bool" where
  "stale_rec now r \<longleftrightarrow> fr_lockedUntil r \<le> now \<and> failureWindow < time_Sub now (fr_last r)"

lemma map_of_filter_distinct:
  "distinct (map fst xs) \<Longrightarrow>
   map_of (filter (\<lambda>(k, r). P r) xs) k = (case map_of xs k of None \<Rightarrow> None | Some r \<Rightarrow> if P r then Some r else None)"
  by (induction xs) (auto split: option.splits dest: map_of_SomeD simp: rev_image_eqI)

definition th_keys_ok :: "'g throttle \<Rightarrow> bool" where
  "th_keys_ok t \<longleftrightarrow> distinct (map fst (th_fails t))"

lemma rec_of_sweep:
  "th_keys_ok t \<Longrightarrow> rec_of (sweepLocked now t) k =
     (case rec_of t k of None \<Rightarrow> None | Some r \<Rightarrow> if stale_rec now r then None else Some r)"
  using map_of_filter_distinct [of "th_fails t" "\<lambda>r. \<not> stale_rec now r" k]
  by (auto simp: rec_of_def sweepLocked_def stale_rec_def th_keys_ok_def split: option.splits)

lemma rec_of_succeed: "rec_of (throttle_succeed keys t) k = (if k \<in> set keys then None else rec_of t k)"
  unfolding throttle_succeed_def
  by (induction keys arbitrary: t) (auto simp: rec_of_def delete_conv')

lemma sweep_keys_ok [inv_intros]: "th_keys_ok t \<Longrightarrow> th_keys_ok (sweepLocked now t)"
  by (simp add: th_keys_ok_def sweepLocked_def distinct_map_filter)

lemma sweep_fields [simp]:
  "th_pending (sweepLocked now t) = th_pending t" "th_global (sweepLocked now t) = th_global t"
  "pend (sweepLocked now t) = pend t"
  by (simp_all add: sweepLocked_def pend_def fun_eq_iff)

lemma length_sweep_le: "length (th_fails (sweepLocked now t)) \<le> length (th_fails t)"
  by (simp add: sweepLocked_def)

text \<open>The three outcomes of recording a failure of a key.\<close>

lemma fail_key_cases:
  obtains (full) "rec_of t k = None" "fail_key now (t, l) k = (sweepLocked now t, l)"
      "maxThrottleKeys \<le> length (th_fails (sweepLocked now t))"
  | (rec) r t' r' new where "fail_key now (t, l) k = (t'\<lparr>th_fails := AList.update k r' (th_fails t')\<rparr>, if new then l @ [k] else l)"
      "fail_update now (isUserKey k) r = (r', new)" "t' = t \<or> t' = sweepLocked now t"
      "rec_of t k = Some r \<and> t' = t \<or> rec_of t k = None \<and> r = new_failRecord now \<and> length (th_fails t') < maxThrottleKeys"
proof (cases "map_of (th_fails t) k")
  case None
  define t' where "t' = (if maxThrottleKeys \<le> length (th_fails t) then sweepLocked now t else t)"
  obtain r' new where u: "fail_update now (isUserKey k) (new_failRecord now) = (r', new)" by fastforce
  show ?thesis
  proof (cases "maxThrottleKeys \<le> length (th_fails t')")
    case True
    then have "t' = sweepLocked now t" by (auto simp: t'_def split: if_splits)
    with True None full show ?thesis by (simp add: fail_key_def fail_slot_def rec_of_def t'_def Let_def split: if_splits)
  next
    case False
    then have "fail_slot now k t = (t', Some (new_failRecord now))"
      using None by (simp add: fail_slot_def t'_def new_failRecord_def Let_def)
    then have "fail_key now (t, l) k = (t'\<lparr>th_fails := AList.update k r' (th_fails t')\<rparr>, if new then l @ [k] else l)"
      using u by (simp add: fail_key_def)
    with rec [OF this u] False None show ?thesis by (auto simp: rec_of_def t'_def)
  qed
next
  case (Some r)
  obtain r' new where u: "fail_update now (isUserKey k) r = (r', new)" by fastforce
  with Some have "fail_key now (t, l) k = (t\<lparr>th_fails := AList.update k r' (th_fails t)\<rparr>, if new then l @ [k] else l)"
    by (simp add: fail_key_def fail_slot_def)
  with rec [OF this u] Some show ?thesis by (auto simp: rec_of_def)
qed

lemma fail_key_fields [simp]:
  "th_pending (fst (fail_key now (t, l) k)) = th_pending t" "th_global (fst (fail_key now (t, l) k)) = th_global t"
  by (cases rule: fail_key_cases [of t k now l]; force)+

lemma fail_key_keys_ok [inv_intros]: "th_keys_ok t \<Longrightarrow> th_keys_ok (fst (fail_key now (t, l) k))"
  by (cases rule: fail_key_cases [of t k now l])
    (auto simp: th_keys_ok_def distinct_update dest: sweep_keys_ok [unfolded th_keys_ok_def, of t now])

lemma fail_key_length:
  assumes "length (th_fails t) \<le> maxThrottleKeys"
  shows "length (th_fails (fst (fail_key now (t, l) k))) \<le> maxThrottleKeys"
proof (cases rule: fail_key_cases [of t k now l])
  case full
  then show ?thesis using length_sweep_le [of now t] assms by simp
next
  case (rec r t' r' new)
  have "length (AList.update k r' xs) \<le> Suc (length xs)" for xs :: "(string \<times> failRecord) list"
    by (induction xs) auto
  moreover have "k \<in> fst ` set xs \<Longrightarrow> length (AList.update k r' xs) = length xs" for xs :: "(string \<times> failRecord) list"
    by (induction xs) auto
  moreover have "rec_of t k = Some r \<Longrightarrow> k \<in> fst ` set (th_fails t)"
    by (force simp: rec_of_def dest: map_of_SomeD)
  ultimately show ?thesis using rec(1,4) assms by (auto simp: Suc_le_eq) (metis less_eq_Suc_le order_trans)
qed

text \<open>What recording a failure can do to the record of a key: a rule for predicates on that record.\<close>

lemma fail_key_rec:
  assumes "th_keys_ok t" and "P (rec_of t k)"
    and drop: "\<And>r. P (Some r) \<Longrightarrow> stale_rec now r \<Longrightarrow> P None"
    and upd: "\<And>r. k = k' \<Longrightarrow> P (Some r) \<Longrightarrow> P (Some (fst (fail_update now (isUserKey k) r)))"
    and new: "k = k' \<Longrightarrow> P None \<Longrightarrow> P (Some (fst (fail_update now (isUserKey k) (new_failRecord now))))"
  shows "P (rec_of (fst (fail_key now (t, l) k')) k)"
proof -
  have swept: "P (rec_of (sweepLocked now t) k)"
    using assms(2) drop by (auto simp: rec_of_sweep [OF assms(1)] split: option.splits)
  show ?thesis
  proof (cases rule: fail_key_cases [of t k' now l])
    case full
    then show ?thesis using swept by simp
  next
    case (rec r t' r' nw)
    show ?thesis
    proof (cases "k = k'")
      case True
      then have "fst (fail_update now (isUserKey k) r) = r'" using rec(2) by simp
      then have "P (Some r')" using True rec(4) assms(2) upd [of r] new by auto
      with True rec(1) show ?thesis by (simp add: rec_of_def update_conv')
    next
      case False
      with rec(1) have "rec_of (fst (fail_key now (t, l) k')) k = rec_of t' k" by (simp add: rec_of_def update_conv')
      with rec(3) swept assms(2) show ?thesis by auto
    qed
  qed
qed

lemma foldl_fail_keys_ok: "th_keys_ok (fst st) \<Longrightarrow> th_keys_ok (fst (foldl (fail_key now) st keys))"
proof (induction keys arbitrary: st)
  case (Cons k keys)
  then show ?case using fail_key_keys_ok [of "fst st" now "snd st" k] by simp
qed simp

lemma foldl_fail_fields:
  "th_pending (fst (foldl (fail_key now) st keys)) = th_pending (fst st) \<and>
   th_global (fst (foldl (fail_key now) st keys)) = th_global (fst st)"
proof (induction keys arbitrary: st)
  case (Cons k keys)
  show ?case using Cons [of "fail_key now st k"] fail_key_fields [of now "fst st" "snd st" k] by simp
qed simp

lemma fail_fields [simp]:
  "th_pending (fst (throttle_fail now keys t)) = th_pending t" "th_global (fst (throttle_fail now keys t)) = th_global t"
  "pend (fst (throttle_fail now keys t)) = pend t"
  using foldl_fail_fields [of now "(t, [])" keys] by (simp_all add: throttle_fail_def pend_def fun_eq_iff)

lemma foldl_fail_length:
  "length (th_fails (fst st)) \<le> maxThrottleKeys \<Longrightarrow> length (th_fails (fst (foldl (fail_key now) st keys))) \<le> maxThrottleKeys"
proof (induction keys arbitrary: st)
  case (Cons k keys)
  then show ?case using fail_key_length [of "fst st" now "snd st" k] by simp
qed simp

lemma foldl_fail_rec:
  assumes "th_keys_ok (fst st)" and "P (rec_of (fst st) k)"
    and drop: "\<And>r. P (Some r) \<Longrightarrow> stale_rec now r \<Longrightarrow> P None"
    and upd: "\<And>r. k \<in> set keys \<Longrightarrow> P (Some r) \<Longrightarrow> P (Some (fst (fail_update now (isUserKey k) r)))"
    and new: "k \<in> set keys \<Longrightarrow> P None \<Longrightarrow> P (Some (fst (fail_update now (isUserKey k) (new_failRecord now))))"
  shows "P (rec_of (fst (foldl (fail_key now) st keys)) k)"
  using assms(1,2,4,5)
proof (induction keys arbitrary: st)
  case (Cons k' keys)
  have "P (rec_of (fst (fail_key now (fst st, snd st) k')) k)"
    by (rule fail_key_rec [OF Cons.prems(1,2) drop]) (use Cons.prems(3,4) in auto)
  then show ?case using Cons fail_key_keys_ok [OF Cons.prems(1), of now "snd st" k'] by simp
qed simp

lemma release_fields [simp]:
  "th_fails (throttle_release keys t) = th_fails t" "th_global (throttle_release keys t) = th_global t"
  "rec_of (throttle_release keys t) = rec_of t"
proof -
  show "th_fails (throttle_release keys t) = th_fails t" "th_global (throttle_release keys t) = th_global t"
    unfolding throttle_release_def by (induction keys arbitrary: t) (auto simp: release_key_def Let_def)
  then show "rec_of (throttle_release keys t) = rec_of t" by (simp add: rec_of_def fun_eq_iff)
qed

lemma succeed_fields [simp]:
  "th_pending (throttle_succeed keys t) = th_pending t" "th_global (throttle_succeed keys t) = th_global t"
  "pend (throttle_succeed keys t) = pend t"
  unfolding throttle_succeed_def by (induction keys arbitrary: t) (auto simp: pend_def fun_eq_iff)

lemma foldl_pend_fields [simp]:
  "th_fails (foldl reserve_key t keys) = th_fails t"
  "th_global (foldl reserve_key t keys) = th_global t"
  by (induction keys arbitrary: t) (auto simp: reserve_key_def)

lemma allow_fields [simp]:
  "th_fails (snd (throttle_allow AllowN now keys t)) = th_fails t"
  "rec_of (snd (throttle_allow AllowN now keys t)) = rec_of t"
  by (auto simp: throttle_allow_def Let_def rec_of_def fun_eq_iff split: prod.splits)

section \<open>Sequences of operations\<close>

text \<open>
  The clock and the throttle. Readings of Go's clock carry a monotonic part, so time only advances
  (\<open>TTick\<close>); every method reads it once.
\<close>

datatype th_op =
    TTick nat
  | TAllow "string list"
  | TRelease "string list"
  | TFail "string list"
  | TSucceed "string list"
  | TSweep

fun th_step :: "('g \<Rightarrow> instant \<Rightarrow> bool \<times> 'g) \<Rightarrow> th_op \<Rightarrow> instant \<times> 'g throttle \<Rightarrow> instant \<times> 'g throttle" where
  "th_step AllowN (TTick d) (now, t) = (now + int d, t)"
| "th_step AllowN (TAllow keys) (now, t) = (now, snd (throttle_allow AllowN now keys t))"
| "th_step AllowN (TRelease keys) (now, t) = (now, throttle_release keys t)"
| "th_step AllowN (TFail keys) (now, t) = (now, fst (throttle_fail now keys t))"
| "th_step AllowN (TSucceed keys) (now, t) = (now, throttle_succeed keys t)"
| "th_step AllowN TSweep (now, t) = (now, sweepLocked now t)"

definition rec_ok :: "instant \<Rightarrow> string \<Rightarrow> failRecord \<Rightarrow> bool" where
  "rec_ok now k r \<longleftrightarrow>
     0 \<le> fr_count r \<and> fr_first r \<le> now \<and> fr_last r \<le> now \<and>
     (isUserKey k \<or> fr_count r < maxFailures) \<and>
     (fr_lockedUntil r = zero_time \<or>
      fr_lockedUntil r \<le> fr_last r + (if isUserKey k then userDelayMax else lockoutDuration))"

definition rec_ok_opt :: "instant \<Rightarrow> string \<Rightarrow> failRecord option \<Rightarrow> bool" where
  "rec_ok_opt now k ro \<longleftrightarrow> (case ro of None \<Rightarrow> True | Some r \<Rightarrow> rec_ok now k r)"

definition pend_pos :: "'g throttle \<Rightarrow> bool" where
  "pend_pos t \<longleftrightarrow> (\<forall>k n. th_pending t k = Some n \<longrightarrow> 0 < n)"

definition th_inv :: "instant \<times> 'g throttle \<Rightarrow> bool" where
  "th_inv = (\<lambda>(now, t). th_keys_ok t \<and> length (th_fails t) \<le> maxThrottleKeys \<and>
     pend_pos t \<and> (\<forall>k. rec_ok_opt now k (rec_of t k)))"

lemma userDelay_le: "0 \<le> userDelay n \<and> userDelay n \<le> userDelayMax"
  by (auto simp: userDelay_def Let_def throttle_consts push_bit_eq_mult)

lemma rec_ok_update:
  "rec_ok now k r \<Longrightarrow> rec_ok now k (fst (fail_update now (isUserKey k) r))"
  using userDelay_le by (auto simp: rec_ok_def fail_update_def Let_def lockoutDuration_def throttle_consts)

lemma rec_ok_new: "rec_ok now k (new_failRecord now)"
  by (simp add: rec_ok_def new_failRecord_def maxFailures_def)

lemma rec_ok_mono: "rec_ok now k r \<Longrightarrow> now \<le> now' \<Longrightarrow> rec_ok now' k r"
  by (auto simp: rec_ok_def)

lemma fail_rec_ok:
  "th_keys_ok t \<Longrightarrow> rec_ok_opt now k (rec_of t k) \<Longrightarrow> rec_ok_opt now k (rec_of (fst (throttle_fail now keys t)) k)"
  unfolding throttle_fail_def
  by (rule foldl_fail_rec [where P = "rec_ok_opt now k"]) (auto simp: rec_ok_opt_def rec_ok_update rec_ok_new)

lemma pend_nonneg: "pend_pos t \<Longrightarrow> 0 \<le> pend t k"
  by (force simp: pend_pos_def pend_def split: option.splits)

lemma pend_pos_fields [simp]:
  "pend_pos (sweepLocked now t) = pend_pos t" "pend_pos (fst (throttle_fail now keys t)) = pend_pos t"
  "pend_pos (throttle_succeed keys t) = pend_pos t" "pend_pos (t\<lparr>th_global := g\<rparr>) = pend_pos t"
  by (simp_all add: pend_pos_def)

lemma pend_pos_reserve: "pend_pos t \<Longrightarrow> pend_pos (reserve_key t k)"
  using pend_nonneg [of t k] by (simp add: pend_pos_def reserve_key_def)

lemma pend_pos_allow: "pend_pos t \<Longrightarrow> pend_pos (snd (throttle_allow AllowN now keys t))"
proof -
  have "pend_pos (foldl reserve_key t' keys)"
    if "pend_pos t'" for t' :: "'a throttle"
    using that by (induction keys arbitrary: t') (auto intro: pend_pos_reserve)
  moreover assume "pend_pos t"
  ultimately show ?thesis by (simp add: throttle_allow_def Let_def split: prod.splits)
qed

lemma pend_pos_release: "pend_pos t \<Longrightarrow> pend_pos (throttle_release keys t)"
proof -
  have "pend_pos t' \<Longrightarrow> pend_pos (release_key t' k)" for t' :: "'a throttle" and k
    by (simp add: pend_pos_def release_key_def Let_def)
  then show "pend_pos t \<Longrightarrow> pend_pos (throttle_release keys t)"
    unfolding throttle_release_def by (induction keys arbitrary: t) auto
qed

lemma succeed_length: "length (th_fails (throttle_succeed keys t)) \<le> length (th_fails t)"
  unfolding throttle_succeed_def
proof (induction keys arbitrary: t)
  case (Cons k keys)
  have "length (AList.delete k (th_fails t)) \<le> length (th_fails t)" by (rule length_delete_le)
  with Cons [of "t\<lparr>th_fails := AList.delete k (th_fails t)\<rparr>"] show ?case by simp
qed simp

lemma succeed_keys_ok: "th_keys_ok t \<Longrightarrow> th_keys_ok (throttle_succeed keys t)"
  unfolding throttle_succeed_def
  by (induction keys arbitrary: t) (auto simp: th_keys_ok_def distinct_delete)

lemma th_step_inv: "th_inv s \<Longrightarrow> th_inv (th_step AllowN oper s)"
proof -
  assume inv: "th_inv s"
  obtain now t where s: "s = (now, t)" by (cases s)
  have keys: "th_keys_ok t" and len: "length (th_fails t) \<le> maxThrottleKeys"
    and pos: "pend_pos t" and recs: "\<And>k. rec_ok_opt now k (rec_of t k)"
    using inv by (auto simp: th_inv_def s)
  show ?thesis
  proof (cases oper)
    case (TTick d)
    have "rec_ok_opt (now + int d) k (rec_of t k)" for k
      using recs [of k] by (auto simp: rec_ok_opt_def split: option.splits intro: rec_ok_mono)
    with TTick keys len pos show ?thesis by (simp add: s th_inv_def)
  next
    case (TAllow ks)
    then show ?thesis using keys len recs pend_pos_allow [OF pos] by (simp add: s th_inv_def th_keys_ok_def)
  next
    case (TRelease ks)
    then show ?thesis using keys len recs pend_pos_release [OF pos, of ks] by (simp add: s th_inv_def th_keys_ok_def)
  next
    case (TFail ks)
    have "th_keys_ok (fst (throttle_fail now ks t))" "length (th_fails (fst (throttle_fail now ks t))) \<le> maxThrottleKeys"
      using foldl_fail_keys_ok [of "(t, [])"] foldl_fail_length [of "(t, [])"] keys len by (simp_all add: throttle_fail_def)
    with TFail show ?thesis using pos fail_rec_ok [OF keys recs] by (simp add: s th_inv_def)
  next
    case (TSucceed ks)
    then show ?thesis using pos recs succeed_keys_ok [OF keys, of ks] order_trans [OF succeed_length len]
      by (simp add: s th_inv_def rec_of_succeed rec_ok_opt_def)
  next
    case TSweep
    have "rec_ok_opt now k (rec_of (sweepLocked now t) k)" for k
      using recs [of k] by (auto simp: rec_of_sweep [OF keys] rec_ok_opt_def split: option.splits)
    with TSweep show ?thesis using pos sweep_keys_ok [OF keys] order_trans [OF length_sweep_le len] by (simp add: s th_inv_def)
  qed
qed

interpretation th: invariant_machine "(t0, newThrottle g)" "th_step AllowN" th_inv
  for t0 :: instant and g :: 'g and AllowN :: "'g \<Rightarrow> instant \<Rightarrow> bool \<times> 'g"
proof
  show "th_inv (t0, newThrottle g)"
    by (simp add: th_inv_def newThrottle_def th_keys_ok_def pend_pos_def rec_of_def rec_ok_opt_def)
qed (rule th_step_inv)

section \<open>Lockouts\<close>

text \<open>From the failure that locks a key on, until \<open>L\<close>, its record keeps the lock.\<close>

definition lock_kept :: "instant \<Rightarrow> string \<Rightarrow> instant \<times> 'g throttle \<Rightarrow> bool" where
  "lock_kept L k = (\<lambda>(now, t). th_keys_ok t \<and> L \<le> now + lockoutDuration \<and>
     (now < L \<longrightarrow> (\<exists>r. rec_of t k = Some r \<and> L \<le> fr_lockedUntil r)))"

lemma update_keeps_lock:
  "\<not> isUserKey k \<Longrightarrow> L \<le> now + lockoutDuration \<Longrightarrow> L \<le> fr_lockedUntil r \<Longrightarrow>
   L \<le> fr_lockedUntil (fst (fail_update now (isUserKey k) r))"
  by (simp add: fail_update_def Let_def)

lemma lock_kept_step:
  assumes "lock_kept L k s" and "\<not> isUserKey k" and "\<And>ks. oper = TSucceed ks \<Longrightarrow> k \<notin> set ks"
  shows "lock_kept L k (th_step AllowN oper s)"
proof -
  obtain now t where s: "s = (now, t)" by (cases s)
  have keys: "th_keys_ok t" and L: "L \<le> now + lockoutDuration"
    and lck: "now < L \<Longrightarrow> \<exists>r. rec_of t k = Some r \<and> L \<le> fr_lockedUntil r"
    using assms(1) by (auto simp: lock_kept_def s)
  show ?thesis
  proof (cases oper)
    case (TTick d)
    with keys L lck show ?thesis by (auto simp: s lock_kept_def)
  next
    case (TFail ks)
    have "(\<exists>r. rec_of (fst (throttle_fail now ks t)) k = Some r \<and> L \<le> fr_lockedUntil r)" if "now < L"
      unfolding throttle_fail_def
      by (rule foldl_fail_rec [where P = "\<lambda>ro. \<exists>r. ro = Some r \<and> L \<le> fr_lockedUntil r"])
        (use keys lck [OF that] that update_keeps_lock [OF assms(2) L] in \<open>auto simp: stale_rec_def\<close>)
    moreover have "th_keys_ok (fst (throttle_fail now ks t))"
      using foldl_fail_keys_ok [of "(t, [])"] keys by (simp add: throttle_fail_def)
    ultimately show ?thesis using TFail L by (simp add: s lock_kept_def)
  next
    case TSweep
    then show ?thesis using keys L lck sweep_keys_ok [OF keys]
      by (auto simp: s lock_kept_def rec_of_sweep [OF keys] stale_rec_def)
  qed (use keys L lck assms(3) succeed_keys_ok [OF keys] in \<open>auto simp: s lock_kept_def rec_of_succeed th_keys_ok_def\<close>)
qed

definition no_success :: "string \<Rightarrow> th_op \<Rightarrow> bool" where
  "no_success k oper = (case oper of TSucceed ks \<Rightarrow> k \<notin> set ks | _ \<Rightarrow> True)"

lemma lock_kept_run:
  "lock_kept L k s \<Longrightarrow> \<not> isUserKey k \<Longrightarrow> list_all (no_success k) opers \<Longrightarrow> lock_kept L k (fold (th_step AllowN) opers s)"
proof (induction opers arbitrary: s)
  case (Cons oper opers)
  have "lock_kept L k (th_step AllowN oper s)"
    by (rule lock_kept_step [OF Cons.prems(1,2)]) (use Cons.prems(3) in \<open>auto simp: no_success_def\<close>)
  with Cons show ?case by simp
qed simp

lemma locked_until_ge: "k \<in> set keys \<Longrightarrow> rec_of t k = Some r \<Longrightarrow> fr_lockedUntil r \<le> locked_until t keys"
proof -
  let ?f = "\<lambda>until k. case map_of (th_fails t) k of None \<Rightarrow> until
       | Some r \<Rightarrow> if until < fr_lockedUntil r then fr_lockedUntil r else until"
  have mono: "u \<le> foldl ?f u ks" for u ks
  proof (induction ks arbitrary: u)
    case (Cons x ks)
    have "u \<le> ?f u x" by (auto split: option.splits)
    also have "?f u x \<le> foldl ?f (?f u x) ks" by (rule Cons)
    finally show ?case by simp
  qed simp
  assume "k \<in> set keys" and r: "rec_of t k = Some r"
  then obtain xs ys where "keys = xs @ k # ys" by (auto simp: in_set_conv_decomp)
  moreover have "fr_lockedUntil r \<le> ?f (foldl ?f zero_time xs) k" using r by (simp add: rec_of_def)
  ultimately show ?thesis
    using order_trans [OF _ mono [of "?f (foldl ?f zero_time xs) k" ys]] by (simp add: locked_until_def)
qed

lemma allow_locked:
  "k \<in> set keys \<Longrightarrow> rec_of t k = Some r \<Longrightarrow> now < fr_lockedUntil r \<Longrightarrow>
   \<exists>n. throttle_allow AllowN now keys t = (Inl (WaitSeconds n), t) \<or> throttle_allow AllowN now keys t = (Inl (WaitMinutes n), t)"
  using locked_until_ge [of k keys t r] by (auto simp: throttle_allow_def Let_def)

text \<open>The keys \<^verbatim>\<open>fail\<close> reports have just been locked.\<close>

lemma fail_reports_lock:
  assumes "th_keys_ok t" and "k \<in> set (snd (throttle_fail now keys t))" and "\<not> isUserKey k"
  shows "\<exists>r. rec_of (fst (throttle_fail now keys t)) k = Some r \<and> now + lockoutDuration \<le> fr_lockedUntil r"
proof -
  let ?P = "\<lambda>ro. \<exists>r. ro = Some r \<and> now + lockoutDuration \<le> fr_lockedUntil r"
  have pos: "0 < lockoutDuration" by (simp add: throttle_consts)
  have upd: "?P (Some (fst (fail_update now (isUserKey k) r)))" if "?P (Some r)" for r
    using that update_keeps_lock [OF assms(3) order.refl] by simp
  have "k \<in> set (snd (foldl (fail_key now) st keys)) \<longrightarrow> ?P (rec_of (fst (foldl (fail_key now) st keys)) k)"
    if "th_keys_ok (fst st)" "k \<in> set (snd st) \<longrightarrow> ?P (rec_of (fst st) k)" for st
    using that
  proof (induction keys arbitrary: st)
    case (Cons k' keys)
    obtain t l where st: "st = (t, l)" by (cases st)
    have old: "?P (rec_of (fst (fail_key now (t, l) k')) k)" if "?P (rec_of t k)"
      by (rule fail_key_rec) (use that Cons.prems(1) upd pos in \<open>auto simp: st stale_rec_def\<close>)
    have "k \<in> set (snd (fail_key now (t, l) k')) \<longrightarrow> ?P (rec_of (fst (fail_key now (t, l) k')) k)"
    proof (cases rule: fail_key_cases [of t k' now l])
      case full
      then show ?thesis using old Cons.prems(2) by (auto simp: st)
    next
      case (rec r t' r' new)
      show ?thesis
      proof (cases "k \<in> set l")
        case True
        with old Cons.prems(2) show ?thesis by (simp add: st)
      next
        case False
        show ?thesis
        proof
          assume "k \<in> set (snd (fail_key now (t, l) k'))"
          with False rec(1) have "new" "k = k'" by (auto split: if_splits)
          then have "now + lockoutDuration \<le> fr_lockedUntil r'"
            using rec(2) assms(3) by (auto simp: fail_update_def Let_def split: if_splits)
          with \<open>k = k'\<close> rec(1) show "?P (rec_of (fst (fail_key now (t, l) k')) k)"
            by (simp add: rec_of_def update_conv')
        qed
      qed
    qed
    then show ?case using Cons.IH [of "fail_key now st k'"] fail_key_keys_ok [of t now l k'] Cons.prems(1) by (simp add: st)
  qed simp
  from this [of "(t, [])"] assms(1,2) show ?thesis by (simp add: throttle_fail_def)
qed

text \<open>
  C30: a locked key stays locked for 15 minutes. When \<^verbatim>\<open>fail\<close>, called in any reachable state,
  reports a client, device or session key, then \<^verbatim>\<open>allow\<close> refuses every attempt on that key, without
  touching the state or the global rate, until 15 minutes have passed, whatever happens in between
  except a successful sign-in of that very key (further failures, sweeps, releases, other keys).
\<close>

theorem lockout_holds:
  assumes "fold (th_step AllowN) before (t0, newThrottle g) = (now, t)"
    and "throttle_fail now keys t = (t', locked)" and "k \<in> set locked" and "\<not> isUserKey k"
    and "fold (th_step AllowN) after (now, t') = (now2, t2)" and "list_all (no_success k) after"
    and "now2 < now + 15 * Minute" and "k \<in> set keys2"
  shows "\<exists>n. throttle_allow AllowN now2 keys2 t2 = (Inl (WaitSeconds n), t2) \<or>
             throttle_allow AllowN now2 keys2 t2 = (Inl (WaitMinutes n), t2)"
proof -
  have keys: "th_keys_ok t" using th.inv_run [of AllowN before t0 g] assms(1) by (simp add: th_inv_def)
  have "\<exists>r. rec_of t' k = Some r \<and> now + lockoutDuration \<le> fr_lockedUntil r"
    using fail_reports_lock [OF keys, of k now keys] assms(2-4) by simp
  moreover have "th_keys_ok t'" using foldl_fail_keys_ok [of "(t, [])" now keys] keys assms(2) by (simp add: throttle_fail_def)
  ultimately have "lock_kept (now + lockoutDuration) k (now, t')" by (auto simp: lock_kept_def)
  then have "lock_kept (now + lockoutDuration) k (now2, t2)"
    using lock_kept_run [OF _ assms(4,6), of _ "(now, t')" AllowN] assms(5) by simp
  then obtain r where "rec_of t2 k = Some r" "now2 < fr_lockedUntil r"
    using assms(7) by (auto simp: lock_kept_def lockoutDuration_def)
  then show ?thesis by (rule allow_locked [OF assms(8)])
qed

definition ex_client :: string where "ex_client = ''c:192.0.2.7/32''"

definition ex_locked :: "unit throttle" where
  "ex_locked = fst (throttle_fail 0 [ex_client] (snd (fold (th_step (\<lambda>g now. (True, g)))
     (replicate 4 (TFail [ex_client])) (0, newThrottle ()))))"

theorem lockout_holds_witness:
  "\<exists>n. throttle_allow (\<lambda>g now. (True, g)) Second [''u:admin'', ex_client] ex_locked = (Inl (WaitSeconds n), ex_locked) \<or>
     throttle_allow (\<lambda>g now. (True, g)) Second [''u:admin'', ex_client] ex_locked = (Inl (WaitMinutes n), ex_locked)"
proof -
  define before where "before = replicate 4 (TFail [ex_client])"
  obtain now t where b: "fold (th_step (\<lambda>g now. (True, g))) before (0, newThrottle ()) = (now, t)" by fastforce
  have "fst (fold (th_step (\<lambda>g now. (True, g))) (replicate 4 (TFail [ex_client])) (0, newThrottle ())) = 0" by code_simp
  then have now: "now = 0" using b by (simp add: before_def)
  have f: "throttle_fail now [ex_client] t = (ex_locked, [ex_client])"
  proof (rule prod_eqI)
    show "fst (throttle_fail now [ex_client] t) = fst (ex_locked, [ex_client])" using b now by (simp add: ex_locked_def before_def)
    have "snd (throttle_fail 0 [ex_client] (snd (fold (th_step (\<lambda>g now. (True, g)))
       (replicate 4 (TFail [ex_client])) (0, newThrottle ())))) = [ex_client]" by code_simp
    with b now show "snd (throttle_fail now [ex_client] t) = snd (ex_locked, [ex_client])" by (simp add: before_def)
  qed
  have nu: "\<not> isUserKey ex_client" by code_simp
  have a: "fold (th_step (\<lambda>g now. (True, g))) [TTick 1000000000] (now, ex_locked) = (Second, ex_locked)"
    by (simp add: now Second_def)
  show ?thesis
    by (rule lockout_holds [OF b f _ nu a]) (simp_all add: no_success_def now time_consts)
qed

section \<open>Five failures\<close>

text \<open>A run of failures of one key: the throttle after it and what each call reported.\<close>

fun fail_times :: "string \<Rightarrow> instant list \<Rightarrow> 'g throttle \<Rightarrow> 'g throttle \<times> string list list" where
  "fail_times k [] t = (t, [])"
| "fail_times k (now # ts) t =
     (let (t1, locked) = throttle_fail now [k] t; (t2, out) = fail_times k ts t1 in (t2, locked # out))"

lemma fail_one:
  assumes "rec_of t k = Some r" and "fail_update now (isUserKey k) r = (r', new)"
  shows "\<exists>t'. throttle_fail now [k] t = (t', if new then [k] else []) \<and> rec_of t' k = Some r'"
  using assms by (simp add: throttle_fail_def fail_key_def fail_slot_def rec_of_def update_conv')

lemma fail_first:
  assumes "rec_of t k = None" and "length (th_fails t) < maxThrottleKeys"
    and "fail_update now (isUserKey k) (new_failRecord now) = (r', new)"
  shows "\<exists>t'. throttle_fail now [k] t = (t', if new then [k] else []) \<and> rec_of t' k = Some r'"
  using assms by (simp add: throttle_fail_def fail_key_def fail_slot_def rec_of_def update_conv' new_failRecord_def)

lemma time_Sub_small: "0 \<le> t - u \<Longrightarrow> t - u \<le> 900000000000 \<Longrightarrow> time_Sub t u = t - u"
  by (simp add: time_Sub_def min_duration_def max_duration_def)

lemma fail_update_early:
  assumes "fr_count r < 4" and "fr_first r \<le> fr_last r" and "fr_last r \<le> now" and "now < fr_first r + 15 * Minute"
  shows "fail_update now user r = (r\<lparr>fr_count := fr_count r + 1, fr_last := now\<rparr>, False)"
  using assms by (simp add: fail_update_def Let_def throttle_consts time_Sub_small)

lemma fail_update_fifth:
  assumes "fr_count r = 4" and "fr_first r \<le> fr_last r" and "fr_last r \<le> now" and "now < fr_first r + 15 * Minute"
  shows "\<exists>r'. fail_update now user r = (r', True) \<and>
    fr_lockedUntil r' = now + (if user then Second else 15 * Minute)"
  using assms by (simp add: fail_update_def Let_def throttle_consts time_Sub_small userDelay_def)

text \<open>
  The fifth failure decides. Five failures of a key within 15 minutes, from a state that has no
  record of it and room for one, report the key exactly once, at the fifth: a client, device or
  session key is then locked for 15 minutes, a username is delayed by one second.
\<close>

theorem fifth_failure_locks:
  assumes "rec_of t k = None" and "length (th_fails t) < maxThrottleKeys"
    and "t1 \<le> t2" and "t2 \<le> t3" and "t3 \<le> t4" and "t4 \<le> t5" and "t5 < t1 + 15 * Minute"
  shows "\<exists>t'. fail_times k [t1, t2, t3, t4, t5] t = (t', [[], [], [], [], [k]]) \<and>
    (\<exists>r. rec_of t' k = Some r \<and> fr_lockedUntil r = t5 + (if isUserKey k then Second else 15 * Minute))"
proof -
  let ?r = "\<lambda>n now. \<lparr>fr_count = n, fr_first = t1, fr_last = now, fr_lockedUntil = zero_time\<rparr>"
  have step: "\<exists>t'. throttle_fail now [k] t = (t', []) \<and> rec_of t' k = Some (?r (n + 1) now)"
    if "rec_of t k = Some (?r n u)" "n < 4" "t1 \<le> u" "u \<le> now" "now < t1 + 15 * Minute" for t :: "'a throttle" and n u now
    using fail_one [OF that(1) fail_update_early] that(2-) by simp
  have m: "0 < Minute" by (simp add: time_consts)
  obtain ta where a: "throttle_fail t1 [k] t = (ta, [])" "rec_of ta k = Some (?r 1 t1)"
    using fail_first [OF assms(1,2) fail_update_early] m by (auto simp: new_failRecord_def)
  obtain tb where b: "throttle_fail t2 [k] ta = (tb, [])" "rec_of tb k = Some (?r 2 t2)"
    using step [OF a(2), of t2] assms by auto
  obtain tc where c: "throttle_fail t3 [k] tb = (tc, [])" "rec_of tc k = Some (?r 3 t3)"
    using step [OF b(2), of t3] assms by auto
  obtain td where d: "throttle_fail t4 [k] tc = (td, [])" "rec_of td k = Some (?r 4 t4)"
    using step [OF c(2), of t4] assms by auto
  obtain r' where u: "fail_update t5 (isUserKey k) (?r 4 t4) = (r', True)"
      "fr_lockedUntil r' = t5 + (if isUserKey k then Second else 15 * Minute)"
    using fail_update_fifth [of "?r 4 t4" t5 "isUserKey k"] assms by auto
  obtain te where e: "throttle_fail t5 [k] td = (te, [k])" "rec_of te k = Some r'"
    using fail_one [OF d(2) u(1)] by auto
  show ?thesis using a(1) b(1) c(1) d(1) e u(2) by simp
qed

theorem fifth_failure_locks_witness:
  "\<exists>t'. fail_times ex_client [0, Second, Minute, Minute, 14 * Minute] (newThrottle ()) = (t', [[], [], [], [], [ex_client]]) \<and>
     (\<exists>r. rec_of t' ex_client = Some r \<and> fr_lockedUntil r = 14 * Minute + (if isUserKey ex_client then Second else 15 * Minute))"
  by (rule fifth_failure_locks) (simp_all add: rec_of_def newThrottle_def maxThrottleKeys_def time_consts)

section \<open>Attempts in flight\<close>

text \<open>
  The way the sign-in code uses the throttle: an attempt reserves its keys, runs its password check,
  records the outcome and releases the keys. A failed attempt may also count for a username it was
  not checked against (a browser that is known by its device); every other key it counts for is one
  it reserved. Keys of an attempt are distinct, since their kinds are.
\<close>

datatype attempt_op =
    ATick nat
  | ABegin "string list"
  | AFail "string list" "string list"
  | ASucceed "string list"
  | AAbort "string list"
  | ASweep

definition reserved :: "string list \<Rightarrow> string list \<Rightarrow> bool" where
  "reserved checked counted \<longleftrightarrow>
     distinct checked \<and> filter (\<lambda>k. \<not> isUserKey k) counted = filter (\<lambda>k. \<not> isUserKey k) checked"

fun at_step :: "('g \<Rightarrow> instant \<Rightarrow> bool \<times> 'g) \<Rightarrow> attempt_op \<Rightarrow> instant \<times> 'g throttle \<Rightarrow> instant \<times> 'g throttle" where
  "at_step AllowN (ATick d) s = th_step AllowN (TTick d) s"
| "at_step AllowN (ABegin checked) s = (if distinct checked then th_step AllowN (TAllow checked) s else s)"
| "at_step AllowN (AFail checked counted) s =
     (if reserved checked counted then th_step AllowN (TRelease checked) (th_step AllowN (TFail counted) s) else s)"
| "at_step AllowN (ASucceed checked) s = th_step AllowN (TRelease checked) (th_step AllowN (TSucceed checked) s)"
| "at_step AllowN (AAbort checked) s = th_step AllowN (TRelease checked) s"
| "at_step AllowN ASweep s = th_step AllowN TSweep s"

definition fails_now :: "'g throttle \<Rightarrow> instant \<Rightarrow> string \<Rightarrow> int" where
  "fails_now t now k = (case rec_of t k of None \<Rightarrow> 0 | Some r \<Rightarrow> fr_current r now (isUserKey k))"

definition at_inv :: "instant \<times> 'g throttle \<Rightarrow> bool" where
  "at_inv s \<longleftrightarrow> th_inv s \<and> (\<forall>k. \<not> isUserKey k \<longrightarrow> pend (snd s) k + fails_now (snd s) (fst s) k \<le> maxFailures)"

lemma pend_release_key: "pend (release_key t k) k' = (if k = k' then max 0 (pend t k - 1) else pend t k')"
  by (simp add: release_key_def pend_def Let_def)

lemma pend_release:
  assumes "pend_pos t" and "distinct keys"
  shows "pend (throttle_release keys t) k = (if k \<in> set keys then max 0 (pend t k - 1) else pend t k)"
  unfolding throttle_release_def using assms(2)
  by (induction keys arbitrary: t) (auto simp: pend_release_key)

lemma pend_release_le:
  "pend_pos t \<Longrightarrow> pend (throttle_release keys t) k \<le> pend t k"
proof (induction keys arbitrary: t)
  case (Cons x keys)
  have "pend_pos (release_key t x)" using pend_pos_release [OF Cons.prems, of "[x]"] by (simp add: throttle_release_def)
  then have "pend (throttle_release keys (release_key t x)) k \<le> pend (release_key t x) k" by (rule Cons.IH)
  also have "\<dots> \<le> pend t k" using pend_nonneg [OF Cons.prems, of k] by (simp add: pend_release_key)
  finally show ?case by (simp add: throttle_release_def)
qed (simp add: throttle_release_def)

lemma pend_reserve:
  "distinct keys \<Longrightarrow> pend (foldl reserve_key t keys) k =
     (if k \<in> set keys then pend t k + 1 else pend t k)"
proof (induction keys arbitrary: t)
  case (Cons x keys)
  have "pend (reserve_key t x) k = (if k = x then pend t k + 1 else pend t k)"
    by (simp add: pend_def reserve_key_def)
  with Cons show ?case by auto
qed simp

lemma fails_now_release [simp]: "fails_now (throttle_release keys t) = fails_now t"
  by (simp add: fails_now_def fun_eq_iff)

lemma fr_current_bounds:
  "rec_ok now k r \<Longrightarrow> 0 \<le> fr_current r now' (isUserKey k) \<and> fr_current r now' (isUserKey k) \<le> fr_count r"
  by (auto simp: rec_ok_def fr_current_def)

lemma fails_now_bounds:
  assumes "th_inv (now, t)" and "\<not> isUserKey k"
  shows "0 \<le> fails_now t now' k \<and> fails_now t now' k < maxFailures"
proof (cases "rec_of t k")
  case (Some r)
  then have ok: "rec_ok now k r" using assms(1) by (auto simp: th_inv_def rec_ok_opt_def dest: spec [of _ k])
  then show ?thesis using fr_current_bounds [OF ok, of now'] Some assms(2) by (auto simp: fails_now_def rec_ok_def)
qed (simp add: fails_now_def maxFailures_def)

lemma fails_now_tick:
  assumes "th_inv (now, t)" and "\<not> isUserKey k"
  shows "fails_now t (now + int d) k \<le> fails_now t now k"
proof (cases "rec_of t k")
  case (Some r)
  then have ok: "rec_ok now k r" using assms(1) by (auto simp: th_inv_def rec_ok_opt_def dest: spec [of _ k])
  have "time_Sub now u \<le> time_Sub (now + int d) u" for u by (simp add: time_Sub_def)
  then show ?thesis
    using fr_current_bounds [OF ok, of now] Some assms(2) by (auto simp: fails_now_def fr_current_def) (meson not_le order_trans)+
qed (simp add: fails_now_def)

definition cur :: "instant \<Rightarrow> failRecord option \<Rightarrow> int" where
  "cur now ro = (case ro of None \<Rightarrow> 0 | Some r \<Rightarrow> fr_current r now False)"

lemma fails_now_cur: "\<not> isUserKey k \<Longrightarrow> fails_now t now k = cur now (rec_of t k)"
  by (simp add: fails_now_def cur_def split: option.splits)

lemma cur_update:
  "0 \<le> fr_current r now False \<Longrightarrow> cur now (Some (fst (fail_update now False r))) \<le> fr_current r now False + 1"
proof -
  assume "0 \<le> fr_current r now False"
  moreover have "time_Sub now now = 0" "\<not> failureWindow < 0" by (simp_all add: time_Sub_def time_consts failureWindow_def)
  ultimately show ?thesis
    by (cases "failureWindow < time_Sub now (fr_first r)") (simp_all add: cur_def fr_current_def fail_update_def Let_def)
qed

lemma foldl_fail_cur_other:
  assumes "th_keys_ok (fst st)" and "k \<notin> set keys" and "cur now (rec_of (fst st) k) \<le> c" and "0 \<le> c"
  shows "cur now (rec_of (fst (foldl (fail_key now) st keys)) k) \<le> c"
  by (rule foldl_fail_rec [where P = "\<lambda>ro. cur now ro \<le> c", OF assms(1,3)]) (use assms(2,4) in \<open>auto simp: cur_def\<close>)

lemma fail_key_cur_self:
  assumes "\<not> isUserKey k" and "\<And>r. rec_of t k = Some r \<Longrightarrow> 0 \<le> fr_current r now False"
  shows "cur now (rec_of (fst (fail_key now (t, l) k)) k) \<le> cur now (rec_of t k) + 1"
proof (cases rule: fail_key_cases [of t k now l])
  case full
  then have "rec_of (sweepLocked now t) k = None"
    by (force simp: rec_of_def sweepLocked_def map_of_eq_None_iff)
  with full show ?thesis by (simp add: cur_def)
next
  case (rec r t' r' new)
  have nonneg: "0 \<le> fr_current r now False \<and> fr_current r now False = cur now (rec_of t k)"
    using rec(4) assms(2) by (auto simp: cur_def new_failRecord_def fr_current_def)
  have "rec_of (fst (fail_key now (t, l) k)) k = Some r'" using rec(1) by (simp add: rec_of_def update_conv')
  moreover have "r' = fst (fail_update now False r)" using rec(2) assms(1) by simp
  ultimately show ?thesis using cur_update [of r now] nonneg by simp
qed

lemma fail_fails_now:
  assumes inv: "th_inv (now, t)" and nu: "\<not> isUserKey k" and once: "distinct (filter (\<lambda>k. \<not> isUserKey k) keys)"
  shows "fails_now (fst (throttle_fail now keys t)) now k \<le> fails_now t now k + (if k \<in> set keys then 1 else 0)"
proof (cases "k \<in> set keys")
  case False
  then show ?thesis using foldl_fail_cur_other [of "(t, [])" k keys now "fails_now t now k"] inv fails_now_bounds [OF inv nu, of now]
    by (simp add: throttle_fail_def fails_now_cur [OF nu] th_inv_def)
next
  case True
  then obtain xs ys where ks: "keys = xs @ k # ys" "k \<notin> set xs" by (auto dest: split_list_first)
  have ys: "k \<notin> set ys" using once nu by (auto simp: ks)
  define c where "c = fails_now t now k"
  have c: "0 \<le> c" using fails_now_bounds [OF inv nu, of now] by (simp add: c_def)
  obtain t1 l1 where t1: "foldl (fail_key now) (t, []) xs = (t1, l1)" by fastforce
  have k1: "th_keys_ok t1" using foldl_fail_keys_ok [of "(t, [])" now xs] inv by (simp add: t1 th_inv_def)
  have c1: "cur now (rec_of t1 k) \<le> c"
    using foldl_fail_cur_other [of "(t, [])" k xs now c] ks(2) inv c by (simp add: t1 c_def fails_now_cur [OF nu] th_inv_def)
  have "rec_ok_opt now k (rec_of t1 k)"
    using fail_rec_ok [of t now k xs] inv by (simp add: throttle_fail_def t1 th_inv_def)
  then have "\<And>r. rec_of t1 k = Some r \<Longrightarrow> 0 \<le> fr_current r now False"
    using fr_current_bounds [of now k _ now] nu by (auto simp: rec_ok_opt_def)
  then have c2: "cur now (rec_of (fst (fail_key now (t1, l1) k)) k) \<le> c + 1"
    using fail_key_cur_self [OF nu, of t1 now l1] c1 by fastforce
  have "cur now (rec_of (fst (foldl (fail_key now) (fail_key now (t1, l1) k) ys)) k) \<le> c + 1"
    by (rule foldl_fail_cur_other [OF fail_key_keys_ok [OF k1] ys c2]) (use c in simp)
  then show ?thesis using True by (simp add: throttle_fail_def ks t1 fails_now_cur [OF nu] flip: c_def [unfolded fails_now_cur [OF nu]])
qed

lemma allow_at_bound:
  assumes inv: "th_inv (now, t)" and nu: "\<not> isUserKey k" and "distinct keys"
    and "pend t k + fails_now t now k \<le> maxFailures"
  shows "pend (snd (throttle_allow AllowN now keys t)) k + fails_now t now k \<le> maxFailures"
proof -
  have "pend t k + 1 + fails_now t now k \<le> maxFailures" if "k \<in> set keys" "\<not> list_ex (too_many_pending t now) keys"
  proof -
    have "\<not> too_many_pending t now k" using that by (auto simp: list_ex_iff)
    then show ?thesis using fails_now_bounds [OF inv nu, of now]
      by (auto simp: too_many_pending_def fails_now_def rec_of_def)
  qed
  moreover have "pend (t\<lparr>th_global := g\<rparr>) = pend t" for g by (simp add: pend_def fun_eq_iff)
  ultimately show ?thesis using assms(3,4) by (auto simp: throttle_allow_def Let_def pend_reserve split: prod.splits)
qed

lemma at_step_inv: "at_inv s \<Longrightarrow> at_inv (at_step AllowN oper s)"
proof -
  assume inv: "at_inv s"
  obtain now t where s: "s = (now, t)" by (cases s)
  have th: "th_inv (now, t)" and le: "\<And>k. \<not> isUserKey k \<Longrightarrow> pend t k + fails_now t now k \<le> maxFailures"
    using inv by (auto simp: at_inv_def s)
  have th': "th_inv (at_step AllowN oper s)"
    using th by (cases oper) (auto simp: s simp del: th_step.simps intro!: th_step_inv)
  have pos: "pend_pos t" using th by (simp add: th_inv_def)
  show ?thesis
  proof (cases oper)
    case (ATick d)
    have "pend t k + fails_now t (now + int d) k \<le> maxFailures" if "\<not> isUserKey k" for k
      using le [OF that] fails_now_tick [OF th that, of d] by linarith
    with ATick th' show ?thesis by (simp add: at_inv_def s)
  next
    case (ABegin ks)
    have "fails_now (snd (throttle_allow AllowN now ks t)) = fails_now t" by (simp add: fails_now_def fun_eq_iff)
    with ABegin show ?thesis using th' le allow_at_bound [OF th _ _ le] by (auto simp: at_inv_def s)
  next
    case (AFail ks cs)
    have "pend (throttle_release ks (fst (throttle_fail now cs t))) k + fails_now (fst (throttle_fail now cs t)) now k \<le> maxFailures"
      if nu: "\<not> isUserKey k" and res: "reserved ks cs" for k
    proof -
      have d: "distinct ks" and once: "distinct (filter (\<lambda>k. \<not> isUserKey k) cs)"
        and same: "filter (\<lambda>k. \<not> isUserKey k) cs = filter (\<lambda>k. \<not> isUserKey k) ks"
        using res by (auto simp: reserved_def)
      have mem: "k \<in> set cs \<longleftrightarrow> k \<in> set ks" using arg_cong [OF same, of set] nu by auto
      have "fails_now (fst (throttle_fail now cs t)) now k \<le> fails_now t now k + (if k \<in> set cs then 1 else 0)"
        by (rule fail_fails_now [OF th nu once])
      moreover have "pend (throttle_release ks (fst (throttle_fail now cs t))) k = (if k \<in> set ks then max 0 (pend t k - 1) else pend t k)"
        using pend_release [of "fst (throttle_fail now cs t)" ks k] pos d by simp
      moreover have "fails_now (fst (throttle_fail now cs t)) now k < maxFailures"
        using fails_now_bounds [OF th_step_inv [OF th, of AllowN "TFail cs", simplified] nu, of now] by simp
      ultimately show ?thesis using le [OF nu] mem by (auto split: if_splits)
    qed
    with AFail show ?thesis using th' inv by (auto simp: at_inv_def s)
  next
    case (ASucceed ks)
    have "fails_now (throttle_succeed ks t) now k \<le> fails_now t now k" if "\<not> isUserKey k" for k
      using fails_now_bounds [OF th that, of now] by (auto simp: fails_now_def rec_of_succeed)
    moreover have "pend (throttle_release ks (throttle_succeed ks t)) k \<le> pend t k" for k
      using pend_release_le [of "throttle_succeed ks t" ks k] pos by simp
    ultimately have "pend (throttle_release ks (throttle_succeed ks t)) k + fails_now (throttle_succeed ks t) now k \<le> maxFailures"
      if "\<not> isUserKey k" for k using le [OF that] that by (meson add_mono order_trans)
    with ASucceed th' show ?thesis by (simp add: at_inv_def s)
  next
    case (AAbort ks)
    have "pend (throttle_release ks t) k + fails_now t now k \<le> maxFailures" if "\<not> isUserKey k" for k
      using le [OF that] pend_release_le [OF pos, of ks k] by linarith
    with AAbort th' show ?thesis by (simp add: at_inv_def s)
  next
    case ASweep
    have "fails_now (sweepLocked now t) now k \<le> fails_now t now k" if "\<not> isUserKey k" for k
      using fails_now_bounds [OF th that, of now] th by (auto simp: fails_now_def rec_of_sweep th_inv_def split: option.splits)
    then have "pend t k + fails_now (sweepLocked now t) now k \<le> maxFailures" if "\<not> isUserKey k" for k
      using le [OF that] that by (meson add_left_mono order_trans)
    with ASweep th' show ?thesis by (simp add: at_inv_def s)
  qed
qed

interpretation at: invariant_machine "(t0, newThrottle g)" "at_step AllowN" at_inv
  for t0 :: instant and g :: 'g and AllowN :: "'g \<Rightarrow> instant \<Rightarrow> bool \<times> 'g"
proof
  show "at_inv (t0, newThrottle g)"
    using th.inv_init [of t0 g] by (simp add: at_inv_def newThrottle_def pend_def fails_now_def rec_of_def maxFailures_def)
qed (rule at_step_inv)


section \<open>Usernames\<close>



end
