(* ===== verification/Decimals.thy ===== *)
theory Decimals
  imports GoStrings
begin

text \<open>
  Decimal numbers as Go prints and parses them (\<^verbatim>\<open>fmt\<close>, \<^verbatim>\<open>strconv\<close>), and the comparison of ASCII texts under
  simple case folding (\<^verbatim>\<open>strings.EqualFold\<close>).
\<close>

definition is_digit :: "char \<Rightarrow> bool" where
  "is_digit c \<longleftrightarrow> CHR ''0'' \<le> c \<and> c \<le> CHR ''9''"

text \<open>The value of a string of decimal digits.\<close>

definition digits_value :: "string \<Rightarrow> nat" where
  "digits_value s = foldl (\<lambda>n c. 10 * n + (of_char c - 48)) 0 s"

text \<open>\<^verbatim>\<open>%d\<close> of a number that is not negative.\<close>

fun decimal :: "nat \<Rightarrow> string" where
  "decimal n = (if n < 10 then [char_of (48 + n)] else decimal (n div 10) @ [char_of (48 + n mod 10)])"

declare decimal.simps [simp del]

text \<open>
  \<^verbatim>\<open>strings.EqualFold\<close> with a lower-case ASCII text: under simple folding the long s equals s and
  the Kelvin sign k.
\<close>

fun fold_ascii :: "string \<Rightarrow> string" where
  "fold_ascii [] = []"
| "fold_ascii (c # s) =
     (if c = CHR 0xE2 \<and> take 2 s = [CHR 0x84, CHR 0xAA] then CHR ''k'' # fold_ascii (drop 2 s)
      else if c = CHR 0xC5 \<and> take 1 s = [CHR 0xBF] then CHR ''s'' # fold_ascii (drop 1 s)
      else lower_char c # fold_ascii s)"

section \<open>Printing and reading numbers\<close>

lemma is_digit_iff: "is_digit c \<longleftrightarrow> 48 \<le> (of_char c :: nat) \<and> of_char c \<le> (57 :: nat)"
  by (simp add: is_digit_def less_eq_char_def)

lemma digit_char: "n < 10 \<Longrightarrow> is_digit (char_of (48 + n))" "n < 10 \<Longrightarrow> of_char (char_of (48 + n) :: char) = (48 + n :: nat)"
  by (simp_all add: is_digit_iff)

lemma char_of_digit: "is_digit c \<Longrightarrow> char_of (48 + (of_char c - 48 :: nat)) = c"
  by (simp add: is_digit_iff)

lemma digits_value_simps [simp]:
  "digits_value [] = 0" "digits_value [c] = of_char c - 48" "digits_value (s @ [c]) = 10 * digits_value s + (of_char c - 48)"
  by (simp_all add: digits_value_def)

lemma decimal_digits [simp]: "list_all is_digit (decimal n)" "decimal n \<noteq> []"
  by (induction n rule: decimal.induct) (subst decimal.simps; simp add: digit_char)+

lemma digits_value_decimal [simp]: "digits_value (decimal n) = n"
proof (induction n rule: decimal.induct)
  case (1 n)
  show ?case
  proof (cases "n < 10")
    case True
    then show ?thesis by (subst decimal.simps) (simp add: digit_char)
  next
    case False
    then show ?thesis using 1 by (subst decimal.simps) (simp add: digit_char)
  qed
qed

text \<open>A number as it is written: digits without a leading zero.\<close>

definition plain_number :: "string \<Rightarrow> bool" where
  "plain_number s \<longleftrightarrow> s \<noteq> [] \<and> list_all is_digit s \<and> \<not> (length s > 1 \<and> hd s = CHR ''0'')"

lemma decimal_digits_value: "plain_number s \<Longrightarrow> decimal (digits_value s) = s"
proof (induction s rule: rev_induct)
  case (snoc c s)
  have c: "is_digit c" using snoc.prems by (simp add: plain_number_def)
  have low: "(of_char c - 48 :: nat) < 10" using c unfolding is_digit_iff by linarith
  show ?case
  proof (cases "s = []")
    case True
    then show ?thesis using low char_of_digit [OF c] by (simp add: decimal.simps [of "of_char c - 48"])
  next
    case False
    then have nz: "hd s \<noteq> CHR ''0''" using snoc.prems by (auto simp: plain_number_def)
    then have IH: "decimal (digits_value s) = s" using snoc False by (auto simp: plain_number_def)
    have "digits_value s \<noteq> 0"
    proof
      assume "digits_value s = 0"
      then have "s = decimal 0" using IH by simp
      moreover have "decimal 0 = ''0''" by code_simp
      ultimately show False using nz by simp
    qed
    then show ?thesis
      using low IH char_of_digit [OF c] by (simp add: decimal.simps [of "10 * digits_value s + (of_char c - 48)"])
  qed
qed (simp add: plain_number_def)

lemma plain_decimal [simp]: "plain_number (decimal n)"
proof (induction n rule: decimal.induct)
  case (1 n)
  show ?case
  proof (cases "n < 10")
    case True
    then show ?thesis by (simp add: decimal.simps [of n] plain_number_def digit_char)
  next
    case False
    then have IH: "plain_number (decimal (n div 10))" using 1 by simp
    have "decimal (n div 10) \<noteq> ''0''"
    proof
      assume "decimal (n div 10) = ''0''"
      then have "n div 10 = digits_value ''0''" by (metis digits_value_decimal)
      then show False using False by (simp add: digits_value_def)
    qed
    then have "hd (decimal (n div 10)) \<noteq> CHR ''0''"
      using IH by (cases "decimal (n div 10)") (auto simp: plain_number_def)
    then show ?thesis using IH False by (simp add: decimal.simps [of n] plain_number_def digit_char)
  qed
qed

lemma digits_value_bound: "list_all is_digit s \<Longrightarrow> digits_value s < 10 ^ length s"
proof (induction s rule: rev_induct)
  case (snoc c s)
  then show ?case by (auto simp: is_digit_iff)
qed simp

lemma decimal_length: "n < 10 ^ k \<Longrightarrow> 0 < k \<Longrightarrow> length (decimal n) \<le> k"
proof (induction n arbitrary: k rule: decimal.induct)
  case (1 n)
  show ?case
  proof (cases "n < 10")
    case True
    then show ?thesis using 1(3) by (subst decimal.simps) simp
  next
    case False
    then have "k \<noteq> 1" using 1(2) by auto
    then obtain j where k: "k = Suc j" "0 < j" using 1(3) by (cases k) auto
    then have "n div 10 < 10 ^ j" using 1(2) by (simp add: less_mult_imp_div_less mult.commute)
    then have "length (decimal (n div 10)) \<le> j" using 1(1) [OF False] k(2) by simp
    then show ?thesis using False k(1) by (subst decimal.simps) simp
  qed
qed

lemma digit_props: "is_digit c \<Longrightarrow> of_char c < (128::nat) \<and> \<not> is_space c \<and> c \<noteq> CHR ''-'' \<and> c \<noteq> CHR ''/'' \<and> c \<noteq> CHR ''*''"
  by (auto simp: is_digit_iff is_space_def)

lemma decimal_chars:
  "ascii (decimal k)" "CHR ''-'' \<notin> set (decimal k)" "CHR ''/'' \<notin> set (decimal k)" "\<not> is_space (hd (decimal k))"
  "\<not> is_space (last (decimal k))" "decimal k \<noteq> ''*''"
proof -
  have d: "c \<in> set (decimal k) \<Longrightarrow> is_digit c" for c using decimal_digits(1) [of k] by (simp add: list_all_iff)
  show "ascii (decimal k)" "CHR ''-'' \<notin> set (decimal k)" "CHR ''/'' \<notin> set (decimal k)"
    using d digit_props by (auto simp: ascii_def list_all_iff)
  show "\<not> is_space (hd (decimal k))" "\<not> is_space (last (decimal k))"
    using d digit_props hd_in_set [OF decimal_digits(2)] last_in_set [OF decimal_digits(2)] by blast+
  show "decimal k \<noteq> ''*''" using d [of "CHR ''*''"] by (auto simp: is_digit_iff)
qed

lemma TrimSpace_ends:
  assumes "ascii s" and "s \<noteq> []" and "\<not> is_space (hd s)" and "\<not> is_space (last s)"
  shows "strings_TrimSpace s = s"
proof -
  have "dropWhile is_space s = s" using assms(2,3) by (cases s) auto
  moreover have "dropWhile is_space (rev s) = rev s" using assms(2,4) by (cases s rule: rev_cases) auto
  ultimately show ?thesis using TrimSpace_ascii [OF assms(1)] by simp
qed

lemma CutByte_append: "c \<notin> set xs \<Longrightarrow> strings_CutByte (xs @ c # ys) c = Some (xs, ys)"
proof -
  assume c: "c \<notin> set xs"
  have "takeWhile (\<lambda>x. x \<noteq> c) (xs @ c # ys) = xs" "dropWhile (\<lambda>x. x \<noteq> c) (xs @ c # ys) = c # ys"
    using c by (induction xs) auto
  then show ?thesis by (simp add: strings_CutByte_def)
qed

end
