(* ===== verification/Forwarded.thy ===== *)
theory Forwarded
  imports NetUtil Decimals
begin

text \<open>
  The effective client behind a reverse proxy, \<^verbatim>\<open>internal/netutil/forwarded.go\<close>: the scan of the
  \<^verbatim>\<open>X-Forwarded-For\<close> lines from the right, the accepted forms of an entry and the check of
  \<^verbatim>\<open>X-Forwarded-Proto\<close>. The address parser \<^verbatim>\<open>netip.ParseAddr\<close> is an argument.
\<close>

section \<open>Definitions\<close>

definition MaxForwardedEntries :: nat where "MaxForwardedEntries = 16"
definition maxForwardedEntryLen :: nat where "maxForwardedEntryLen = 100"

datatype forwarded_error = ErrForwardedFor

definition validPortSuffix :: "string \<Rightarrow> bool" where
  "validPortSuffix s \<longleftrightarrow>
     \<not> (length s < 2 \<or> length s > 6 \<or> hd s \<noteq> CHR '':'') \<and>
     list_all is_digit (tl s) \<and> digits_value (tl s) \<le> 65535"

definition ParseForwardedAddr :: "(string \<Rightarrow> addr option) \<Rightarrow> string \<Rightarrow> addr option" where
  "ParseForwardedAddr ParseAddr s =
     (if s = [] \<or> length s > maxForwardedEntryLen then None
      else if strings_HasPrefix s ''['' then
        (case strings_IndexByte s (CHR '']'') of
           None \<Rightarrow> None
         | Some e \<Rightarrow>
             let host = drop 1 (take e s); rest = drop (e + 1) s in
             if rest \<noteq> [] \<and> \<not> validPortSuffix rest then None
             else case ParseAddr host of
                 None \<Rightarrow> None
               | Some ip \<Rightarrow> if \<not> Is6 ip then None else Some (Canon ip))
      else
        (case strings_IndexByte s (CHR '':'') of
           Some i \<Rightarrow>
             if count_list s (CHR '':'') = 1 then
               if \<not> validPortSuffix (drop i s) then None
               else case ParseAddr (take i s) of
                   None \<Rightarrow> None
                 | Some ip \<Rightarrow> if \<not> Is4 ip then None else Some ip
             else map_option Canon (ParseAddr s)
         | None \<Rightarrow> map_option Canon (ParseAddr s)))"

text \<open>
  The scan of one line from its end. It either decides the request (\<open>Inl\<close> with the error or the
  client) or goes on with the number of entries inspected and the left-most trusted client so far.
\<close>

function fwd_line ::
    "(string \<Rightarrow> addr option) \<Rightarrow> (addr \<Rightarrow> bool) \<Rightarrow> string \<Rightarrow> addr \<Rightarrow> nat \<Rightarrow> (forwarded_error + addr) + addr \<times> nat" where
  "fwd_line ParseAddr trusted line client inspected =
     (if inspected < MaxForwardedEntries then
        let j = strings_LastIndexByte line (CHR '','');
            entry = strings_TrimSpace (case j of None \<Rightarrow> line | Some j \<Rightarrow> drop (j + 1) line);
            continue = (\<lambda>client inspected. case j of
               None \<Rightarrow> Inr (client, inspected)
             | Some j \<Rightarrow> fwd_line ParseAddr trusted (take j line) client inspected) in
        if entry \<noteq> [] then
          case ParseForwardedAddr ParseAddr entry of
            None \<Rightarrow> Inl (Inl ErrForwardedFor)
          | Some ip \<Rightarrow> if \<not> trusted ip then Inl (Inr ip) else continue ip (inspected + 1)
        else continue client inspected
      else Inr (client, inspected))"
  by pat_completeness auto
termination
  by (relation "measure (\<lambda>(_, _, line, _). length line)")
    (auto simp: strings_LastIndexByte_def Let_def split: if_splits, (metis diff_less length_pos_if_in_set min.absorb1 min.commute
      less_imp_diff_less One_nat_def diff_Suc_less min_def not_less_iff_gr_or_eq)+)

declare fwd_line.simps [simp del]

fun fwd_lines ::
    "(string \<Rightarrow> addr option) \<Rightarrow> (addr \<Rightarrow> bool) \<Rightarrow> string list \<Rightarrow> addr \<Rightarrow> nat \<Rightarrow> forwarded_error + addr" where
  "fwd_lines ParseAddr trusted [] client inspected = Inr client"
| "fwd_lines ParseAddr trusted (line # ls) client inspected =
     (if inspected < MaxForwardedEntries then
        case fwd_line ParseAddr trusted line client inspected of
          Inl result \<Rightarrow> result
        | Inr (client, inspected) \<Rightarrow> fwd_lines ParseAddr trusted ls client inspected
      else Inr client)"

definition ForwardedClient ::
    "(string \<Rightarrow> addr option) \<Rightarrow> addr \<Rightarrow> string list \<Rightarrow> (addr \<Rightarrow> bool) option \<Rightarrow> forwarded_error + addr" where
  "ForwardedClient ParseAddr peer0 header trusted =
     (let peer = Canon peer0 in
      case trusted of
        None \<Rightarrow> Inr peer
      | Some f \<Rightarrow>
          if \<not> addr_IsValid peer \<or> \<not> f peer then Inr peer
          else fwd_lines ParseAddr f (rev header) peer 0)"

definition ForwardedHTTPS :: "string list \<Rightarrow> bool" where
  "ForwardedHTTPS header =
     (if header = [] then False
      else let l = last header;
             v = (case strings_LastIndexByte l (CHR '','') of None \<Rightarrow> l | Some i \<Rightarrow> drop (i + 1) l) in
        fold_ascii (strings_TrimSpace v) = ''https'')"

section \<open>The documented contract\<close>

text \<open>
  The lines joined with commas, split, trimmed, empty entries dropped; the 16 right-most of them
  walked from the right.
\<close>

definition fwd_entries :: "string \<Rightarrow> string list" where
  "fwd_entries s = filter (\<lambda>e. e \<noteq> []) (map strings_TrimSpace (strings_Split (CHR '','') s))"

fun fwd_walk ::
    "(string \<Rightarrow> addr option) \<Rightarrow> (addr \<Rightarrow> bool) \<Rightarrow> string list \<Rightarrow> addr \<Rightarrow> (forwarded_error + addr) + addr" where
  "fwd_walk ParseAddr trusted [] client = Inr client"
| "fwd_walk ParseAddr trusted (e # es) client =
     (case ParseForwardedAddr ParseAddr e of
        None \<Rightarrow> Inl (Inl ErrForwardedFor)
      | Some ip \<Rightarrow> if \<not> trusted ip then Inl (Inr ip) else fwd_walk ParseAddr trusted es ip)"

definition walk_result :: "(forwarded_error + addr) + addr \<Rightarrow> forwarded_error + addr" where
  "walk_result w = (case w of Inl r \<Rightarrow> r | Inr client \<Rightarrow> Inr client)"

lemma fwd_walk_append:
  "fwd_walk P f (es @ fs) client =
     (case fwd_walk P f es client of Inl r \<Rightarrow> Inl r | Inr c \<Rightarrow> fwd_walk P f fs c)"
  by (induction es arbitrary: client) (auto split: option.splits)

lemma fwd_entries_last:
  "strings_LastIndexByte s (CHR '','') = Some j \<Longrightarrow>
   fwd_entries s = fwd_entries (take j s) @ (let e = strings_TrimSpace (drop (j + 1) s) in if e \<noteq> [] then [e] else [])"
  using Split_append [of "CHR '',''" "take j s" "drop (j + 1) s"] LastIndexByte_Some [of s "CHR '',''" j]
  by (simp add: fwd_entries_def Split_no_sep_id Let_def)

lemma fwd_entries_single:
  "strings_LastIndexByte s (CHR '','') = None \<Longrightarrow>
   fwd_entries s = (let e = strings_TrimSpace s in if e \<noteq> [] then [e] else [])"
  by (simp add: fwd_entries_def LastIndexByte_None Split_no_sep_id Let_def)

definition inspected_of :: "nat \<Rightarrow> string \<Rightarrow> string list" where
  "inspected_of n s = take (MaxForwardedEntries - n) (rev (fwd_entries s))"

lemma fwd_line_walk:
  "fwd_line P f line client n =
     (case fwd_walk P f (inspected_of n line) client of
        Inl r \<Rightarrow> Inl r | Inr c \<Rightarrow> Inr (c, n + length (inspected_of n line)))"
proof (induction P f line client n rule: fwd_line.induct)
  case (1 P f line client n)
  show ?case
  proof (cases "n < MaxForwardedEntries")
    case False
    then show ?thesis by (simp add: fwd_line.simps inspected_of_def)
  next
    case True
    define j where "j = strings_LastIndexByte line (CHR '','')"
    define e where "e = strings_TrimSpace (case j of None \<Rightarrow> line | Some j \<Rightarrow> drop (j + 1) line)"
    have diff: "MaxForwardedEntries - n = Suc (MaxForwardedEntries - (n + 1))" using True by simp
    have ins: "inspected_of n line =
        (if e = [] then (case j of None \<Rightarrow> [] | Some j \<Rightarrow> inspected_of n (take j line))
         else e # (case j of None \<Rightarrow> [] | Some j \<Rightarrow> inspected_of (n + 1) (take j line)))"
      using fwd_entries_single [of line] fwd_entries_last [of line] diff
      by (auto simp: inspected_of_def e_def j_def Let_def split: option.splits)
    have IH: "fwd_line P f (take i line) c m =
        (case fwd_walk P f (inspected_of m (take i line)) c of Inl r \<Rightarrow> Inl r | Inr c' \<Rightarrow> Inr (c', m + length (inspected_of m (take i line))))"
      if "j = Some i" for i c m
      by (rule "1.IH" [OF True j_def e_def that])
    have unfold: "fwd_line P f line client n =
        (let continue = (\<lambda>client inspected. case j of None \<Rightarrow> Inr (client, inspected)
             | Some j \<Rightarrow> fwd_line P f (take j line) client inspected) in
         if e \<noteq> [] then case ParseForwardedAddr P e of None \<Rightarrow> Inl (Inl ErrForwardedFor)
           | Some ip \<Rightarrow> if \<not> f ip then Inl (Inr ip) else continue ip (n + 1)
         else continue client n)"
      using True by (simp add: fwd_line.simps [of P f line client n] Let_def e_def j_def)
    show ?thesis unfolding unfold ins Let_def
      by (cases j) (auto simp: IH split: option.splits sum.splits)
  qed
qed

lemma fwd_lines_walk:
  "fwd_lines P f ls client n = walk_result (fwd_walk P f (take (MaxForwardedEntries - n) (concat (map (rev \<circ> fwd_entries) ls))) client)"
proof (induction ls arbitrary: client n)
  case (Cons l ls)
  let ?xs = "rev (fwd_entries l)" and ?k = "MaxForwardedEntries - n"
  have "take ?k (?xs @ ys) = inspected_of n l @ take (MaxForwardedEntries - (n + length (inspected_of n l))) ys" for ys
    by (simp add: inspected_of_def min_def)
  with Cons show ?case
    by (auto simp: fwd_line_walk fwd_walk_append walk_result_def split: sum.splits)
qed (simp add: walk_result_def)

lemma fwd_entries_Join: "fwd_entries (strings_Join '','' header) = concat (map fwd_entries header)"
proof (induction "'',''" header rule: strings_Join.induct)
  case 1
  then show ?case by (simp add: fwd_entries_def strings_TrimSpace_def trim_front.simps)
next
  case (3 p q ps)
  have "fwd_entries (xs @ '','' @ ys) = fwd_entries xs @ fwd_entries ys" for xs ys
    using Split_append [of "CHR '',''" xs ys] by (simp add: fwd_entries_def)
  with 3 show ?case by simp
qed simp

lemma concat_rev: "concat (map (rev \<circ> g) (rev ls)) = rev (concat (map g ls))"
  by (induction ls) auto

text \<open>
  C20: the client of a request is the one the documentation promises. From a peer that is not
  trusted nothing is read. Otherwise the lines are joined with commas, split, trimmed, empty entries
  dropped and at most the 16 right-most inspected: from the right, trusted entries are skipped, the
  first other entry is the client, an unreadable one fails the request, and when all are trusted the
  left-most inspected one (or the peer) is the client. The scan of the code, which never joins or
  splits the lines, computes exactly this, and it always ends.
\<close>

theorem ForwardedClient_contract:
  "ForwardedClient ParseAddr peer header trusted =
     (if trusted = None \<or> \<not> addr_IsValid (Canon peer) \<or> \<not> the trusted (Canon peer) then Inr (Canon peer)
      else walk_result (fwd_walk ParseAddr (the trusted) (take 16 (rev (fwd_entries (strings_Join '','' header)))) (Canon peer)))"
  by (auto simp: ForwardedClient_def Let_def fwd_lines_walk fwd_entries_Join concat_rev MaxForwardedEntries_def split: option.splits)

lemma Canon_canonical: "Zone (Canon ip) = [] \<and> \<not> Is4In6 (Canon ip)"
proof (cases "Unmap ip")
  case (V6 a z)
  then have "\<not> Is4In6 (V6 a z)" using not_Is4In6_Unmap [of ip] by simp
  then show ?thesis by (simp add: Canon_def V6)
qed (auto simp: Canon_def)

lemma ParseForwardedAddr_canonical:
  "ParseForwardedAddr P s = Some ip \<Longrightarrow> Zone ip = [] \<and> \<not> Is4In6 ip"
proof -
  assume "ParseForwardedAddr P s = Some ip"
  then have "(\<exists>x. ip = Canon x) \<or> Is4 ip"
    by (auto simp: ParseForwardedAddr_def Let_def split: if_splits option.splits)
  moreover have "Is4 ip \<Longrightarrow> Zone ip = [] \<and> \<not> Is4In6 ip" by (cases ip) auto
  ultimately show ?thesis using Canon_canonical by blast
qed

lemma fwd_walk_canonical:
  "Zone client = [] \<and> \<not> Is4In6 client \<Longrightarrow> walk_result (fwd_walk P f es client) = Inr ip \<Longrightarrow> Zone ip = [] \<and> \<not> Is4In6 ip"
  by (induction es arbitrary: client)
    (auto simp: walk_result_def dest: ParseForwardedAddr_canonical split: option.splits if_splits)

lemma trim_entry: "CHR '','' \<notin> set e \<Longrightarrow> fwd_entries (pre @ CHR '','' # e) = fwd_entries pre @ fwd_entries e"
  by (simp add: fwd_entries_def Split_append)

text \<open>
  C32: a client cannot choose its address. Whatever headers a client sends (\<open>hs\<close>, \<open>pre\<close>), once the
  trusted proxy has appended the address it saw, which is not that of a trusted proxy, to the line or
  as a line of its own, that address is the client. And every client is reported in canonical form
  (no zone, no IPv4-mapped address), so address rules cannot be dodged by another spelling.
\<close>

theorem ForwardedClient_no_spoofing:
  assumes "addr_IsValid (Canon peer)" and "trusted (Canon peer)"
    and "CHR '','' \<notin> set e" and "ParseForwardedAddr ParseAddr (strings_TrimSpace e) = Some ip" and "\<not> trusted ip"
  shows "ForwardedClient ParseAddr peer (hs @ [pre @ '','' @ e]) (Some trusted) = Inr ip \<and>
    ForwardedClient ParseAddr peer (hs @ [e]) (Some trusted) = Inr ip \<and> Zone ip = [] \<and> \<not> Is4In6 ip"
proof -
  have ne: "strings_TrimSpace e \<noteq> []" using assms(4) by (auto simp: ParseForwardedAddr_def)
  have single: "fwd_entries e = [strings_TrimSpace e]"
    using assms(3) ne by (simp add: fwd_entries_def Split_no_sep_id)
  then have "fwd_entries (pre @ '','' @ e) = fwd_entries pre @ [strings_TrimSpace e]" using trim_entry [OF assms(3)] by simp
  with single show ?thesis using assms ParseForwardedAddr_canonical [OF assms(4)]
    by (simp add: ForwardedClient_def Let_def fwd_lines_walk walk_result_def MaxForwardedEntries_def)
qed

definition ex_ParseAddr :: "string \<Rightarrow> addr option" where
  "ex_ParseAddr s = (if s = ''192.0.2.9'' then Some (V4 0xC0000209) else if s = ''10.0.0.1'' then Some (V4 0x0A000001) else None)"

theorem ForwardedClient_no_spoofing_witness:
  "ForwardedClient ex_ParseAddr (V4 0x0A000001) [''10.0.0.1'', ''evil'' @ '','' @ '' 192.0.2.9:80''] (Some (\<lambda>a. a = V4 0x0A000001)) = Inr (V4 0xC0000209)"
proof -
  have "ParseForwardedAddr ex_ParseAddr ''192.0.2.9:80'' = Some (V4 0xC0000209)"
    by (simp add: ParseForwardedAddr_def maxForwardedEntryLen_def strings_HasPrefix_def strings_IndexByte_def
        validPortSuffix_def is_digit_def digits_value_def ex_ParseAddr_def)
  moreover have "strings_TrimSpace '' 192.0.2.9:80'' = ''192.0.2.9:80''" by (simp add: TrimSpace_ascii ascii_def is_space_def)
  ultimately show ?thesis
    using ForwardedClient_no_spoofing [of "V4 0x0A000001" "\<lambda>a. a = V4 0x0A000001" "'' 192.0.2.9:80''" ex_ParseAddr "V4 0xC0000209" "[''10.0.0.1'']" "''evil''"]
    by (simp add: addr_IsValid_def)
qed

theorem ForwardedClient_contract_witness:
  "ForwardedClient ex_ParseAddr (V4 0x0A000001) [''192.0.2.9:80, 10.0.0.1''] (Some (\<lambda>a. a = V4 0x0A000001)) = Inr (V4 0xC0000209)"
proof -
  have "fwd_entries ''192.0.2.9:80, 10.0.0.1'' = [''192.0.2.9:80'', ''10.0.0.1'']"
    by (simp add: fwd_entries_def TrimSpace_ascii ascii_def is_space_def)
  moreover have "ParseForwardedAddr ex_ParseAddr ''192.0.2.9:80'' = Some (V4 0xC0000209)"
    "ParseForwardedAddr ex_ParseAddr ''10.0.0.1'' = Some (V4 0x0A000001)"
    by (simp_all add: ParseForwardedAddr_def maxForwardedEntryLen_def strings_HasPrefix_def strings_IndexByte_def
        validPortSuffix_def is_digit_def digits_value_def ex_ParseAddr_def Canon_def)
  moreover have "Canon (V4 0x0A000001) = V4 0x0A000001" "addr_IsValid (V4 0x0A000001)" by (simp_all add: Canon_def addr_IsValid_def)
  ultimately show ?thesis
    unfolding ForwardedClient_contract by (simp add: walk_result_def)
qed

end
