(* ===== verification/ByteCodec.thy ===== *)
theory ByteCodec
  imports Prelude
begin

text \<open>
  Big-endian numbers and strings in byte sequences, as Go's package \<^verbatim>\<open>encoding/binary\<close> and the conversions
  between \<^verbatim>\<open>[]byte\<close> and \<^verbatim>\<open>string\<close> compute them, with their round trips.
\<close>

text \<open>\<^verbatim>\<open>binary.BigEndian\<close> on two and four bytes.\<close>

definition be16 :: "bytes \<Rightarrow> u16" where
  "be16 b = push_bit 8 (ucast (b ! 0)) OR ucast (b ! 1)"

definition be32 :: "bytes \<Rightarrow> u32" where
  "be32 b = push_bit 24 (ucast (b ! 0)) OR push_bit 16 (ucast (b ! 1)) OR push_bit 8 (ucast (b ! 2)) OR ucast (b ! 3)"

definition put16 :: "u16 \<Rightarrow> bytes" where
  "put16 v = [ucast (drop_bit 8 v), ucast v]"

definition put32 :: "u32 \<Rightarrow> bytes" where
  "put32 v = [ucast (drop_bit 24 v), ucast (drop_bit 16 v), ucast (drop_bit 8 v), ucast v]"

text \<open>Strings made of bytes.\<close>

definition byte_char :: "u8 \<Rightarrow> char" where
  "byte_char b = char_of (unat b)"

definition char_byte :: "char \<Rightarrow> u8" where
  "char_byte c = of_nat (of_char c)"

lemma length_put [simp]: "length (put16 v) = 2" "length (put32 w) = 4"
  by (auto simp: put16_def put32_def)

lemma put16_not_Nil [simp]: "put16 v \<noteq> []"
  by (simp add: put16_def)

lemma be16_put16 [simp]: "be16 (put16 v) = v"
  unfolding be16_def put16_def
  by (rule bit_eqI) (auto simp: bit_simps)

lemma be32_put32 [simp]: "be32 (put32 v) = v"
proof (rule bit_eqI)
  fix n assume "possible_bit TYPE(32 word) n"
  then have "n < 32" by simp
  then consider "n < 8" | "8 \<le> n \<and> n < 16" | "16 \<le> n \<and> n < 24" | "24 \<le> n \<and> n < 32"
    by fastforce
  then show "bit (be32 (put32 v)) n \<longleftrightarrow> bit v n"
    by cases (auto simp: be32_def put32_def bit_simps)
qed

lemma be32_zero [simp]: "be32 [0, 0, 0, 0] = 0"
  by (simp add: be32_def)

lemma unat_of_nat_byte: "n \<le> 255 \<Longrightarrow> unat (of_nat n :: u8) = n"
  by (simp add: unat_of_nat take_bit_eq_mod)

lemma unat_of_nat_u16: "n < 65536 \<Longrightarrow> unat (of_nat n :: u16) = n"
  by (simp add: unat_of_nat take_bit_eq_mod)

lemma byte_char_byte [simp]: "byte_char (char_byte c) = c"
  by (simp add: byte_char_def char_byte_def unat_of_nat take_bit_nat_def)

lemma be16_append [simp]: "2 \<le> length b \<Longrightarrow> be16 (b @ c) = be16 b"
  by (cases b) (auto simp: be16_def nth_append)

end
