(* ===== verification/DhcpPacket.thy ===== *)
theory DhcpPacket
  imports NetAddr GoStrings ByteCodec
begin

text \<open>
  The DHCPv4 packet codec, \<^verbatim>\<open>internal/dhcp/packet.go\<close>, and the host names a client may take,
  \<^verbatim>\<open>internal/dhcp/hostname.go\<close>. Packets are lists of bytes; the map of options is a partial function
  of the option code.
\<close>

section \<open>Constants\<close>

definition msgOffer :: u8 where "msgOffer = 2"
definition msgAck :: u8 where "msgAck = 5"
definition msgNak :: u8 where "msgNak = 6"

definition opRequest :: u8 where "opRequest = 1"
definition opReply :: u8 where "opReply = 2"

definition optPad :: u8 where "optPad = 0"
definition optSubnetMask :: u8 where "optSubnetMask = 1"
definition optRouter :: u8 where "optRouter = 3"
definition optDNS :: u8 where "optDNS = 6"
definition optHostName :: u8 where "optHostName = 12"
definition optRequestedIP :: u8 where "optRequestedIP = 50"
definition optLeaseTime :: u8 where "optLeaseTime = 51"
definition optMessageType :: u8 where "optMessageType = 53"
definition optServerID :: u8 where "optServerID = 54"
definition optParamRequest :: u8 where "optParamRequest = 55"
definition optMaxSize :: u8 where "optMaxSize = 57"
definition optRenewal :: u8 where "optRenewal = 58"
definition optRebinding :: u8 where "optRebinding = 59"
definition optClientID :: u8 where "optClientID = 61"
definition optRapidCommit :: u8 where "optRapidCommit = 80"
definition optClientFQDN :: u8 where "optClientFQDN = 81"
definition optEnd :: u8 where "optEnd = 255"

definition headerLen :: nat where "headerLen = 236"
definition minPacket :: nat where "minPacket = headerLen + 4"
definition maxPacket :: nat where "maxPacket = 1500"
definition minReply :: nat where "minReply = 300"
definition maxReply :: nat where "maxReply = 576"
definition flagBcast :: u16 where "flagBcast = push_bit 15 1"
definition maxOptLen :: nat where "maxOptLen = maxPacket"
definition hwEther :: u8 where "hwEther = 1"
definition hwEtherLen :: u8 where "hwEtherLen = 6"
definition magic :: bytes where "magic = [99, 130, 83, 99]"
definition maxClientID :: nat where "maxClientID = 255"

lemmas packet_consts = headerLen_def minPacket_def maxPacket_def minReply_def maxReply_def maxOptLen_def

lemmas option_codes = optPad_def optSubnetMask_def optRouter_def optDNS_def optHostName_def optRequestedIP_def
  optLeaseTime_def optMessageType_def optServerID_def optParamRequest_def optMaxSize_def optRenewal_def
  optRebinding_def optClientID_def optRapidCommit_def optClientFQDN_def optEnd_def

section \<open>Messages\<close>

datatype dhcp_error = errShort | errLong | errCookie | errOptTrunc | errNoEnd

record message =
  dm_op :: u8
  dm_htype :: u8
  dm_hlen :: u8
  dm_hops :: u8
  dm_xid :: u32
  dm_secs :: u16
  dm_flags :: u16
  dm_ciaddr :: addr
  dm_yiaddr :: addr
  dm_siaddr :: addr
  dm_giaddr :: addr
  dm_chaddr :: bytes
  dm_opts :: "u8 \<rightharpoonup> bytes"

definition addr4 :: "bytes \<Rightarrow> addr" where
  "addr4 b = V4 (be32 b)"

definition slice :: "nat \<Rightarrow> nat \<Rightarrow> 'a list \<Rightarrow> 'a list" where
  "slice i j b = drop i (take j b)"

function parse_opts :: "bytes \<Rightarrow> (u8 \<rightharpoonup> bytes) \<Rightarrow> dhcp_error + (u8 \<rightharpoonup> bytes)" where
  "parse_opts [] opts = Inl errNoEnd"
| "parse_opts (code # b) opts =
     (if code = optPad then parse_opts b opts
      else if code = optEnd then Inr opts
      else case b of
          [] \<Rightarrow> Inl errOptTrunc
        | l # b' \<Rightarrow>
            let n = unat l; old = (case opts code of None \<Rightarrow> [] | Some v \<Rightarrow> v) in
            if n > length b' then Inl errOptTrunc
            else if length old + n > maxOptLen then Inl errOptTrunc
            else parse_opts (drop n b') (opts(code \<mapsto> old @ take n b')))"
  by pat_completeness auto
termination by (relation "measure (length \<circ> fst)") auto

declare parse_opts.simps [simp del]

definition parseMessage :: "bytes \<Rightarrow> dhcp_error + message" where
  "parseMessage b =
     (if length b < minPacket then Inl errShort
      else if length b > maxPacket then Inl errLong
      else if slice 236 240 b \<noteq> magic then Inl errCookie
      else case parse_opts (drop minPacket b) Map.empty of
          Inl err \<Rightarrow> Inl err
        | Inr opts \<Rightarrow>
            Inr \<lparr>dm_op = b ! 0, dm_htype = b ! 1, dm_hlen = b ! 2, dm_hops = b ! 3, dm_xid = be32 (slice 4 8 b),
              dm_secs = be16 (slice 8 10 b), dm_flags = be16 (slice 10 12 b),
              dm_ciaddr = addr4 (slice 12 16 b), dm_yiaddr = addr4 (slice 16 20 b), dm_siaddr = addr4 (slice 20 24 b),
              dm_giaddr = addr4 (slice 24 28 b), dm_chaddr = slice 28 44 b, dm_opts = opts\<rparr>)"

text \<open>An option that is not there reads as the empty slice.\<close>

definition opt_val :: "message \<Rightarrow> u8 \<Rightarrow> bytes" where
  "opt_val m code = (case dm_opts m code of None \<Rightarrow> [] | Some v \<Rightarrow> v)"

definition dm_mac :: "message \<Rightarrow> bytes" where
  "dm_mac m = take 6 (dm_chaddr m)"

definition msgType :: "message \<Rightarrow> u8" where
  "msgType m = (let v = opt_val m optMessageType in if length v = 1 then v ! 0 else 0)"

definition addrOpt :: "message \<Rightarrow> u8 \<Rightarrow> addr" where
  "addrOpt m code = (let v = opt_val m code in if length v = 4 then addr4 v else NoAddr)"

definition maxSize :: "message \<Rightarrow> nat" where
  "maxSize m =
     (let v = opt_val m optMaxSize in
      if length v = 2 \<and> unat (be16 v) > maxReply then min (unat (be16 v)) maxPacket else maxReply)"

definition dm_params :: "message \<Rightarrow> bytes" where
  "dm_params m = opt_val m optParamRequest"

definition rapidCommit :: "message \<Rightarrow> bool" where
  "rapidCommit m \<longleftrightarrow> dm_opts m optRapidCommit = Some []"

section \<open>Host names\<close>

definition sanitize_char :: "char \<Rightarrow> char option" where
  "sanitize_char c =
     (if CHR ''A'' \<le> c \<and> c \<le> CHR ''Z'' then Some (lower_char c)
      else if CHR ''a'' \<le> c \<and> c \<le> CHR ''z'' \<or> CHR ''0'' \<le> c \<and> c \<le> CHR ''9'' then Some c
      else if c = CHR ''-'' \<or> c = CHR '' '' \<or> c = CHR ''_'' then Some (CHR ''-'')
      else None)"

fun sanitize_loop :: "string \<Rightarrow> string \<Rightarrow> string" where
  "sanitize_loop [] out = out"
| "sanitize_loop (c0 # s) out =
     (if length out < 63 then
        case sanitize_char c0 of
          None \<Rightarrow> sanitize_loop s out
        | Some c \<Rightarrow>
            if c = CHR ''-'' \<and> (out = [] \<or> last out = CHR ''-'') then sanitize_loop s out
            else sanitize_loop s (out @ [c])
      else out)"

definition SanitizeHostname :: "string \<Rightarrow> string" where
  "SanitizeHostname s0 =
     (let s = take 255 (takeWhile (\<lambda>c. c \<noteq> CHR ''.'') s0) in
      rev (dropWhile (\<lambda>c. c = CHR ''-'') (rev (sanitize_loop s []))))"

definition validLabel :: "string \<Rightarrow> bool" where
  "validLabel s \<longleftrightarrow> s \<noteq> [] \<and> SanitizeHostname s = s"

definition generatedForm :: "string \<Rightarrow> bool" where
  "generatedForm h =
     (let parts = strings_Split (CHR ''-'') h in
      length parts = 4 \<and> list_all (\<lambda>p. p \<noteq> [] \<and> length p \<le> 3 \<and> list_all (\<lambda>c. c \<in> set ''0123456789'') p) parts)"

definition clientName :: "string \<Rightarrow> string" where
  "clientName h = (if h = ''wpad'' \<or> h = ''localhost'' \<or> generatedForm h then [] else h)"

definition fqdnFirstLabel :: "bytes \<Rightarrow> string" where
  "fqdnFirstLabel v =
     (if length v < 4 then []
      else let name = drop 3 v in
        if v ! 0 AND 4 = 0 then map byte_char (takeWhile (\<lambda>c. byte_char c \<noteq> CHR ''.'') name)
        else let l = unat (name ! 0) in
          if l = 0 \<or> l > 63 \<or> 1 + l > length name then [] else map byte_char (slice 1 (1 + l) name))"

definition hostName :: "message \<Rightarrow> string" where
  "hostName m =
     (let v = opt_val m optHostName; h = SanitizeHostname (map byte_char v) in
      if length v > 0 \<and> h \<noteq> [] then clientName h
      else clientName (SanitizeHostname (fqdnFirstLabel (opt_val m optClientFQDN))))"

definition hexd :: "u8 \<Rightarrow> char" where
  "hexd n = ''0123456789abcdef'' ! unat n"

definition hexColon :: "bytes \<Rightarrow> string" where
  "hexColon b = strings_Join '':'' (map (\<lambda>c. [hexd (drop_bit 4 c), hexd (c AND 15)]) b)"

definition clientID :: "message \<Rightarrow> string" where
  "clientID m = (let v = opt_val m optClientID in if length v > maxClientID then [] else hexColon v)"

section \<open>Replies and requests\<close>

record option_spec =
  os_code :: u8
  os_data :: bytes
  os_alts :: "bytes list"
  os_onRequest :: bool

record replyFields =
  rf_typ :: u8
  rf_ciaddr :: addr
  rf_yiaddr :: addr

definition put4 :: "addr \<Rightarrow> bytes" where
  "put4 a = (case a of V4 v \<Rightarrow> put32 v | _ \<Rightarrow> [0, 0, 0, 0])"

definition AsSlice :: "addr \<Rightarrow> bytes" where
  "AsSlice a = (case a of V4 v \<Rightarrow> put32 v | V6 v z \<Rightarrow> map (\<lambda>i. ucast (drop_bit (8 * (15 - i)) v)) [0..<16] | NoAddr \<Rightarrow> [])"

text \<open>The closure \<^verbatim>\<open>add\<close>: the first data of an option that fits is appended.\<close>

definition add_option :: "nat \<Rightarrow> option_spec \<Rightarrow> bytes \<Rightarrow> bytes" where
  "add_option limit opt b =
     (case find (\<lambda>data. \<not> (length data > 255 \<or> length b + 2 + length data + 1 > limit)) (os_data opt # os_alts opt) of
        None \<Rightarrow> b
      | Some data \<Rightarrow> b @ [os_code opt, of_nat (length data)] @ data)"

definition plain_option :: "u8 \<Rightarrow> bytes \<Rightarrow> option_spec" where
  "plain_option code data = \<lparr>os_code = code, os_data = data, os_alts = [], os_onRequest = False\<rparr>"

definition add_requested :: "nat \<Rightarrow> option_spec list \<Rightarrow> u8 \<Rightarrow> bytes \<times> u8 set \<Rightarrow> bytes \<times> u8 set" where
  "add_requested limit opts code st =
     (if code \<in> snd st then st
      else case find (\<lambda>x. os_code x = code) opts of
          None \<Rightarrow> st
        | Some x \<Rightarrow> (add_option limit x (fst st), insert code (snd st)))"

definition add_rest :: "nat \<Rightarrow> option_spec \<Rightarrow> bytes \<times> u8 set \<Rightarrow> bytes \<times> u8 set" where
  "add_rest limit x st =
     (if os_code x \<notin> snd st \<and> \<not> os_onRequest x then (add_option limit x (fst st), insert (os_code x) (snd st)) else st)"

definition reply_header :: "message \<Rightarrow> replyFields \<Rightarrow> bytes" where
  "reply_header req f =
     [opReply, dm_htype req, dm_hlen req, 0] @ put32 (dm_xid req) @ [0, 0] @ put16 (dm_flags req AND flagBcast)
     @ put4 (rf_ciaddr f) @ put4 (rf_yiaddr f) @ replicate 8 0 @ take 16 (dm_chaddr req @ replicate 16 0) @ replicate 192 0 @ magic"

definition pad_reply :: "bytes \<Rightarrow> bytes" where
  "pad_reply b = b @ replicate (minReply - length b) optPad"

definition buildReply :: "message \<Rightarrow> replyFields \<Rightarrow> addr \<Rightarrow> option_spec list \<Rightarrow> bytes" where
  "buildReply req f serverID opts =
     (let limit = maxSize req;
          b = add_option limit (plain_option optMessageType [rf_typ f]) (reply_header req f);
          b = (if addr_IsValid serverID then add_option limit (plain_option optServerID (AsSlice serverID)) b else b);
          st = fold (add_requested limit opts) (dm_params req) (b, {optMessageType, optServerID});
          st = fold (add_rest limit) opts st in
      pad_reply (fst st @ [optEnd]))"

definition newRequest :: "u32 \<Rightarrow> addr \<Rightarrow> bytes \<Rightarrow> u8 \<Rightarrow> bytes" where
  "newRequest xid relay mac typ =
     pad_reply ([opRequest, hwEther, hwEtherLen, 1] @ put32 xid @ replicate 16 0 @ put4 relay @ take 6 mac @ replicate 202 0 @ magic
       @ [optMessageType, 1, typ] @ [optParamRequest, 4, optSubnetMask, optRouter, optDNS, optServerID] @ [optEnd])"

text \<open>\<^verbatim>\<open>encodeDomain\<close>: the labels of a name with their lengths, \<open>None\<close> for an invalid name.\<close>

definition encodeDomain :: "string \<Rightarrow> bytes option" where
  "encodeDomain name =
     (if name = [] \<or> length name > 253 then None
      else let labels = strings_Split (CHR ''.'') name in
        if list_ex (\<lambda>l. length l = 0 \<or> length l > 63) labels then None
        else Some (concat (map (\<lambda>l. of_nat (length l) # map char_byte l) labels) @ [0]))"

section \<open>Big-endian numbers\<close>

lemma length_put4 [simp]: "length (put4 a) = 4"
  by (auto simp: put4_def split: addr.splits)

definition addr_or_zero :: "addr \<Rightarrow> addr" where
  "addr_or_zero a = (case a of V4 v \<Rightarrow> V4 v | _ \<Rightarrow> V4 0)"

lemma addr4_put4 [simp]: "addr4 (put4 a) = addr_or_zero a"
  by (simp add: addr4_def put4_def addr_or_zero_def split: addr.splits)

section \<open>Encoded options\<close>

definition enc_opts :: "(u8 \<times> bytes) list \<Rightarrow> bytes" where
  "enc_opts es = concat (map (\<lambda>(c, d). c # of_nat (length d) # d) es)"

lemma enc_opts_simps [simp]:
  "enc_opts [] = []"
  "enc_opts ((c, d) # es) = c # of_nat (length d) # d @ enc_opts es"
  "enc_opts (es @ es') = enc_opts es @ enc_opts es'"
  by (simp_all add: enc_opts_def)

definition plain_codes :: "(u8 \<times> bytes) list \<Rightarrow> bool" where
  "plain_codes es \<longleftrightarrow> distinct (map fst es) \<and> list_all (\<lambda>(c, d). c \<noteq> optPad \<and> c \<noteq> optEnd \<and> length d \<le> 255) es"

text \<open>Reading what was written: options with distinct codes come back as the map they spell out.\<close>

lemma parse_opts_enc:
  assumes "plain_codes es" and "fst ` set es \<inter> dom opts = {}"
  shows "parse_opts (enc_opts es @ optEnd # rest) opts = Inr (opts ++ map_of es)"
  using assms
proof (induction es arbitrary: opts)
  case Nil
  then show ?case by (simp add: parse_opts.simps optPad_def optEnd_def)
next
  case (Cons e es)
  obtain c d where e: "e = (c, d)" by (cases e)
  have len: "unat (of_nat (length d) :: u8) = length d"
    using Cons.prems(1) by (simp add: e plain_codes_def unat_of_nat_byte)
  have fresh: "opts c = None" "c \<noteq> optPad" "c \<noteq> optEnd" "length d \<le> maxOptLen" "c \<notin> fst ` set es"
    using Cons.prems by (auto simp: e plain_codes_def packet_consts)
  have "fst ` set es \<inter> dom (opts(c \<mapsto> d)) = {}"
    using Cons.prems(2) fresh(5) by (simp add: e)
  moreover have "plain_codes es"
    using Cons.prems(1) by (simp add: e plain_codes_def)
  ultimately have "parse_opts (enc_opts es @ optEnd # rest) (opts(c \<mapsto> d)) = Inr ((opts(c \<mapsto> d)) ++ map_of es)"
    using Cons.IH by blast
  moreover have "opts(c \<mapsto> d) ++ map_of es = opts ++ map_of (e # es)"
    using fresh(5) by (simp add: e map_add_upd_left dom_map_of_conv_image_fst)
  moreover have "parse_opts (enc_opts (e # es) @ optEnd # rest) opts = parse_opts (enc_opts es @ optEnd # rest) (opts(c \<mapsto> d))"
    using fresh by (simp add: e parse_opts.simps(2) [of c] len)
  ultimately show ?case by metis
qed

section \<open>The options of a reply\<close>

definition enc_codes :: "(u8 \<times> bytes) list \<Rightarrow> u8 set" where
  "enc_codes es = fst ` set es"

lemma enc_codes_simps [simp]:
  "enc_codes [] = {}" "enc_codes (e # es) = insert (fst e) (enc_codes es)" "enc_codes (es @ es') = enc_codes es \<union> enc_codes es'"
  by (auto simp: enc_codes_def)

lemma maxSize_bounds: "maxReply \<le> maxSize m" "maxSize m \<le> maxPacket"
  by (auto simp: maxSize_def packet_consts Let_def)

definition datas :: "option_spec \<Rightarrow> bytes set" where
  "datas x = insert (os_data x) (set (os_alts x))"

definition no_room :: "nat \<Rightarrow> nat \<Rightarrow> option_spec \<Rightarrow> bool" where
  "no_room limit n x \<longleftrightarrow> (\<forall>d\<in>datas x. length d > 255 \<or> n + 2 + length d + 1 > limit)"

lemma no_room_mono: "no_room limit n x \<Longrightarrow> n \<le> n' \<Longrightarrow> no_room limit n' x"
  by (fastforce simp: no_room_def)

lemma add_option_cases:
  obtains (added) d where "d \<in> datas x" "length d \<le> 255"
      "add_option limit x b = b @ enc_opts [(os_code x, d)]" "length (add_option limit x b) + 1 \<le> limit"
    | (skipped) "add_option limit x b = b" "no_room limit (length b) x"
proof (cases "find (\<lambda>data. \<not> (length data > 255 \<or> length b + 2 + length data + 1 > limit)) (os_data x # os_alts x)")
  case None
  then have "no_room limit (length b) x"
    unfolding find_None_iff no_room_def datas_def by auto
  then show ?thesis
    using None by (intro skipped) (simp_all add: add_option_def del: find.simps)
next
  case (Some d)
  then have "d \<in> set (os_data x # os_alts x) \<and> length d \<le> 255 \<and> length b + 2 + length d + 1 \<le> limit"
    unfolding find_Some_iff by (metis linorder_not_less nth_mem)
  then show ?thesis
    using Some by (intro added [of d]) (auto simp: add_option_def datas_def simp del: find.simps)
qed

text \<open>What holds while the options are appended: the bytes after the fixed start are the encoding of
  options of the reply with distinct codes, and a code that is done but not there had no room.\<close>

definition reply_inv :: "nat \<Rightarrow> option_spec list \<Rightarrow> u8 set \<Rightarrow> bytes \<Rightarrow> (u8 \<times> bytes) list \<Rightarrow> bytes \<times> u8 set \<Rightarrow> bool" where
  "reply_inv limit opts D b0 es st \<longleftrightarrow>
     fst st = b0 @ enc_opts es \<and> distinct (map fst es) \<and> D \<subseteq> snd st \<and> enc_codes es \<subseteq> snd st - D
     \<and> length (fst st) + 1 \<le> limit
     \<and> (\<forall>(c, d)\<in>set es. length d \<le> 255 \<and> (\<exists>x\<in>set opts. os_code x = c \<and> d \<in> datas x))
     \<and> (\<forall>x\<in>set opts. os_code x \<in> snd st - D - enc_codes es \<longrightarrow> no_room limit (length (fst st)) x)"

lemma reply_inv_add:
  assumes inv: "reply_inv limit opts D b0 es st" and x: "x \<in> set opts" "os_code x \<notin> snd st"
    and dist: "distinct (map os_code opts)"
  shows "\<exists>es'. reply_inv limit opts D b0 es' (add_option limit x (fst st), insert (os_code x) (snd st))
    \<and> enc_codes es' \<subseteq> insert (os_code x) (enc_codes es)"
proof -
  have same: "y = x" if "y \<in> set opts" "os_code y = os_code x" for y
    using dist that x(1) by (auto simp: distinct_map inj_on_def)
  show ?thesis
  proof (cases rule: add_option_cases [of x limit "fst st"])
    case (added d)
    have "reply_inv limit opts D b0 (es @ [(os_code x, d)]) (add_option limit x (fst st), insert (os_code x) (snd st))"
      unfolding reply_inv_def
    proof (intro conjI)
      show "\<forall>y\<in>set opts. os_code y \<in> snd (add_option limit x (fst st), insert (os_code x) (snd st)) - D
          - enc_codes (es @ [(os_code x, d)]) \<longrightarrow> no_room limit (length (fst (add_option limit x (fst st), insert (os_code x) (snd st)))) y"
      proof (intro ballI impI)
        fix y assume y: "y \<in> set opts" "os_code y \<in> snd (add_option limit x (fst st), insert (os_code x) (snd st)) - D
          - enc_codes (es @ [(os_code x, d)])"
        then have "no_room limit (length (fst st)) y"
          using inv unfolding reply_inv_def by auto
        then show "no_room limit (length (fst (add_option limit x (fst st), insert (os_code x) (snd st)))) y"
          by (rule no_room_mono) (simp add: added(3))
      qed
    qed (use inv x added in \<open>auto simp: reply_inv_def enc_codes_def\<close>)
    moreover have "enc_codes (es @ [(os_code x, d)]) \<subseteq> insert (os_code x) (enc_codes es)"
      by simp
    ultimately show ?thesis by blast
  next
    case skipped
    have "reply_inv limit opts D b0 es (add_option limit x (fst st), insert (os_code x) (snd st))"
      unfolding reply_inv_def fst_conv snd_conv skipped(1)
    proof (intro conjI)
      show "\<forall>y\<in>set opts. os_code y \<in> insert (os_code x) (snd st) - D - enc_codes es \<longrightarrow> no_room limit (length (fst st)) y"
        using inv skipped(2) same unfolding reply_inv_def by blast
    qed (use inv in \<open>auto simp: reply_inv_def\<close>)
    then show ?thesis by blast
  qed
qed

lemma find_os_code: "find (\<lambda>x. os_code x = c) opts = Some x \<Longrightarrow> x \<in> set opts \<and> os_code x = c"
  by (auto simp: find_Some_iff)

lemma add_requested_fold:
  assumes "reply_inv limit opts D b0 es st" and "distinct (map os_code opts)"
  shows "\<exists>es'. reply_inv limit opts D b0 es' (fold (add_requested limit opts) ps st)
    \<and> enc_codes es' \<subseteq> enc_codes es \<union> set ps
    \<and> snd st \<subseteq> snd (fold (add_requested limit opts) ps st)
    \<and> set ps \<inter> os_code ` set opts \<subseteq> snd (fold (add_requested limit opts) ps st)"
  using assms(1)
proof (induction ps arbitrary: st es)
  case Nil
  then show ?case by auto
next
  case (Cons p ps)
  have step: "\<exists>es1. reply_inv limit opts D b0 es1 (add_requested limit opts p st) \<and> enc_codes es1 \<subseteq> insert p (enc_codes es)"
  proof (cases "p \<in> snd st \<or> find (\<lambda>x. os_code x = p) opts = None")
    case True
    then show ?thesis using Cons.prems by (auto simp: add_requested_def)
  next
    case False
    then obtain x where x: "find (\<lambda>x. os_code x = p) opts = Some x" "p \<notin> snd st" by auto
    then show ?thesis
      using reply_inv_add [OF Cons.prems _ _ assms(2), of x] find_os_code [OF x(1)] by (auto simp: add_requested_def)
  qed
  have grow: "snd st \<subseteq> snd (add_requested limit opts p st)"
    by (auto simp: add_requested_def split: option.splits)
  have hit: "p \<in> snd (add_requested limit opts p st)" if "p \<in> os_code ` set opts"
    using that by (auto simp: add_requested_def find_None_iff split: option.splits)
  from step obtain es1 where es1: "reply_inv limit opts D b0 es1 (add_requested limit opts p st)"
      "enc_codes es1 \<subseteq> insert p (enc_codes es)" by blast
  from Cons.IH [OF es1(1)] obtain es2 where "reply_inv limit opts D b0 es2 (fold (add_requested limit opts) (p # ps) st)"
      "enc_codes es2 \<subseteq> enc_codes es1 \<union> set ps"
      "snd (add_requested limit opts p st) \<subseteq> snd (fold (add_requested limit opts) (p # ps) st)"
      "set ps \<inter> os_code ` set opts \<subseteq> snd (fold (add_requested limit opts) (p # ps) st)" by auto
  then show ?case using es1 grow hit by (intro exI [of _ es2]) (auto simp del: fold.simps)
qed

definition always_codes :: "option_spec list \<Rightarrow> u8 set" where
  "always_codes xs = os_code ` {x \<in> set xs. \<not> os_onRequest x}"

lemma always_codes_simps [simp]:
  "always_codes [] = {}"
  "always_codes (x # xs) = (if os_onRequest x then always_codes xs else insert (os_code x) (always_codes xs))"
  by (auto simp: always_codes_def)

lemma add_rest_fold:
  assumes "reply_inv limit opts D b0 es st" and "distinct (map os_code opts)" and "set xs \<subseteq> set opts"
  shows "\<exists>es'. reply_inv limit opts D b0 es' (fold (add_rest limit) xs st)
    \<and> enc_codes es' \<subseteq> enc_codes es \<union> always_codes xs
    \<and> snd st \<subseteq> snd (fold (add_rest limit) xs st)
    \<and> always_codes xs \<subseteq> snd (fold (add_rest limit) xs st)"
  using assms(1,3)
proof (induction xs arbitrary: st es)
  case Nil
  then show ?case by auto
next
  case (Cons p ps)
  have step: "\<exists>es1. reply_inv limit opts D b0 es1 (add_rest limit p st)
      \<and> enc_codes es1 \<subseteq> enc_codes es \<union> always_codes [p]"
  proof (cases "os_code p \<notin> snd st \<and> \<not> os_onRequest p")
    case True
    then show ?thesis
      using reply_inv_add [OF Cons.prems(1) _ _ assms(2), of p] Cons.prems(2)
      by (simp add: add_rest_def)
  next
    case False
    then show ?thesis using Cons.prems(1) by (auto simp: add_rest_def)
  qed
  have grow: "snd st \<subseteq> snd (add_rest limit p st)"
    by (auto simp: add_rest_def)
  have hit: "os_code p \<in> snd (add_rest limit p st)" if "\<not> os_onRequest p"
    using that by (auto simp: add_rest_def)
  from step obtain es1 where es1: "reply_inv limit opts D b0 es1 (add_rest limit p st)"
      "enc_codes es1 \<subseteq> enc_codes es \<union> always_codes [p]" by blast
  from Cons.IH [OF es1(1)] Cons.prems(2) obtain es2 where "reply_inv limit opts D b0 es2 (fold (add_rest limit) (p # ps) st)"
      "enc_codes es2 \<subseteq> enc_codes es1 \<union> always_codes ps"
      "snd (add_rest limit p st) \<subseteq> snd (fold (add_rest limit) (p # ps) st)"
      "always_codes ps \<subseteq> snd (fold (add_rest limit) (p # ps) st)" by auto
  then show ?case using es1 grow hit by (intro exI [of _ es2]) (auto simp del: fold.simps split: if_splits)
qed

section \<open>A reply reads back as what it says\<close>

lemma length_reply_header: "length (dm_chaddr req) = 16 \<Longrightarrow> length (reply_header req f) = minPacket"
  by (simp add: reply_header_def packet_consts magic_def)

lemma reply_header_fields:
  assumes "length (dm_chaddr req) = 16"
    and b_def: "b = reply_header req f @ rest"
  shows "b ! 0 = opReply" "b ! 1 = dm_htype req" "b ! 2 = dm_hlen req" "b ! 3 = 0"
    "be32 (slice 4 8 b) = dm_xid req" "be16 (slice 8 10 b) = 0" "be16 (slice 10 12 b) = dm_flags req AND flagBcast"
    "addr4 (slice 12 16 b) = addr_or_zero (rf_ciaddr f)" "addr4 (slice 16 20 b) = addr_or_zero (rf_yiaddr f)"
    "addr4 (slice 20 24 b) = V4 0" "addr4 (slice 24 28 b) = V4 0"
    "slice 28 44 b = dm_chaddr req" "slice 236 240 b = magic" "drop minPacket b = rest"
proof -
  have two: "be16 [0, 0] = 0" by (simp add: be16_def)
  have rep: "replicate 8 (0::u8) = [0,0,0,0] @ [0,0,0,0]" by (simp add: eval_nat_numeral)
  show "b ! 0 = opReply" "b ! 1 = dm_htype req" "b ! 2 = dm_hlen req" "b ! 3 = 0"
    by (simp_all add: b_def reply_header_def)
  show "be32 (slice 4 8 b) = dm_xid req" "be16 (slice 8 10 b) = 0" "be16 (slice 10 12 b) = dm_flags req AND flagBcast"
    using two by (simp_all add: b_def reply_header_def slice_def)
  show "addr4 (slice 12 16 b) = addr_or_zero (rf_ciaddr f)" "addr4 (slice 16 20 b) = addr_or_zero (rf_yiaddr f)"
    by (simp_all add: b_def reply_header_def slice_def)
  show "addr4 (slice 20 24 b) = V4 0" "addr4 (slice 24 28 b) = V4 0"
    by (simp_all add: b_def reply_header_def slice_def rep) (simp_all add: addr4_def)
  show "slice 28 44 b = dm_chaddr req" "slice 236 240 b = magic"
    using assms(1) by (simp_all add: b_def reply_header_def slice_def magic_def)
  show "drop minPacket b = rest"
    using length_reply_header [OF assms(1)] by (simp add: b_def)
qed

text \<open>An option of the reply is there with one of its values, unless it is sent on request only and was
  not requested, or none of its values had room in the reply of \<open>n\<close> bytes.\<close>

definition option_answered :: "message \<Rightarrow> nat \<Rightarrow> message \<Rightarrow> option_spec \<Rightarrow> bool" where
  "option_answered req n m x \<longleftrightarrow>
     (let wanted = (\<not> os_onRequest x \<or> os_code x \<in> set (dm_params req)) in
      case dm_opts m (os_code x) of
        Some d \<Rightarrow> wanted \<and> d \<in> datas x
      | None \<Rightarrow> wanted \<longrightarrow> no_room (maxSize req) (n - 1) x)"

lemma reply_body:
  assumes ch: "length (dm_chaddr req) = 16" and dist: "distinct (map os_code opts)"
  obtains es dn where "buildReply req f (V4 s) opts =
      pad_reply (reply_header req f @ enc_opts ((optMessageType, [rf_typ f]) # (optServerID, put32 s) # es) @ [optEnd])"
    "reply_inv (maxSize req) opts {optMessageType, optServerID}
      (reply_header req f @ enc_opts [(optMessageType, [rf_typ f]), (optServerID, put32 s)]) es
      (reply_header req f @ enc_opts ((optMessageType, [rf_typ f]) # (optServerID, put32 s) # es), dn)"
    "enc_codes es \<subseteq> set (dm_params req) \<union> always_codes opts"
    "set (dm_params req) \<inter> os_code ` set opts \<subseteq> dn" "always_codes opts \<subseteq> dn"
proof -
  let ?limit = "maxSize req" and ?D = "{optMessageType, optServerID}"
  let ?b0 = "reply_header req f @ enc_opts [(optMessageType, [rf_typ f]), (optServerID, put32 s)]"
  have limit: "576 \<le> ?limit" using maxSize_bounds(1) [of req] by (simp add: packet_consts)
  have hl: "length (reply_header req f) = 240" using length_reply_header [OF ch] by (simp add: packet_consts)
  have b0: "add_option ?limit (plain_option optServerID (AsSlice (V4 s)))
      (add_option ?limit (plain_option optMessageType [rf_typ f]) (reply_header req f)) = ?b0"
    using limit hl by (simp add: add_option_def plain_option_def AsSlice_def)
  have inv0: "reply_inv ?limit opts ?D ?b0 [] (?b0, ?D)"
    using limit hl by (simp add: reply_inv_def)
  define st1 where "st1 = fold (add_requested ?limit opts) (dm_params req) (?b0, ?D)"
  obtain es1 where es1: "reply_inv ?limit opts ?D ?b0 es1 st1" "enc_codes es1 \<subseteq> set (dm_params req)"
      "set (dm_params req) \<inter> os_code ` set opts \<subseteq> snd st1"
    using add_requested_fold [OF inv0 dist, of "dm_params req"] unfolding st1_def by auto
  obtain es2 where es2: "reply_inv ?limit opts ?D ?b0 es2 (fold (add_rest ?limit) opts st1)"
      "enc_codes es2 \<subseteq> enc_codes es1 \<union> always_codes opts" "snd st1 \<subseteq> snd (fold (add_rest ?limit) opts st1)"
      "always_codes opts \<subseteq> snd (fold (add_rest ?limit) opts st1)"
    using add_rest_fold [OF es1(1) dist subset_refl] by blast
  define st2 where "st2 = fold (add_rest ?limit) opts st1"
  have bytes: "fst st2 = reply_header req f @ enc_opts ((optMessageType, [rf_typ f]) # (optServerID, put32 s) # es2)"
    using es2(1) by (simp add: reply_inv_def st2_def)
  have "buildReply req f (V4 s) opts = pad_reply (fst st2 @ [optEnd])"
    by (simp add: buildReply_def Let_def st2_def st1_def b0 addr_IsValid_def)
  then show thesis
    using es2 es1 bytes prod.collapse [of st2] by (intro that [of es2 "snd st2"]) (auto simp: st2_def)
qed

lemma reply_inv_answered:
  assumes inv: "reply_inv (maxSize req) opts D b0 es (b, dn)" and x: "x \<in> set opts" and dist: "distinct (map os_code opts)"
    and codes: "enc_codes es \<subseteq> set (dm_params req) \<union> always_codes opts"
      "set (dm_params req) \<inter> os_code ` set opts \<subseteq> dn" "always_codes opts \<subseteq> dn"
    and m: "os_code x \<notin> D" "dm_opts m (os_code x) = map_of es (os_code x)" "length b \<le> n - 1"
  shows "option_answered req n m x"
proof -
  have same: "y = x" if "y \<in> set opts" "os_code y = os_code x" for y
    using dist that x by (auto simp: distinct_map inj_on_def)
  have always: "os_code x \<in> always_codes opts \<longleftrightarrow> \<not> os_onRequest x"
    using same x by (auto simp: always_codes_def)
  show ?thesis
  proof (cases "map_of es (os_code x)")
    case None
    then have "os_code x \<notin> enc_codes es" by (simp add: map_of_eq_None_iff enc_codes_def)
    then have "no_room (maxSize req) (length b) x" if "os_code x \<in> dn"
      using inv x m(1) that by (auto simp: reply_inv_def)
    then show ?thesis
      using None codes(2,3) x always m no_room_mono by (auto simp: option_answered_def)
  next
    case (Some d)
    then have es: "(os_code x, d) \<in> set es" by (rule map_of_SomeD)
    then have "\<exists>y\<in>set opts. os_code y = os_code x \<and> d \<in> datas y"
      using inv by (auto simp: reply_inv_def)
    moreover have "os_code x \<in> enc_codes es" using es by (force simp: enc_codes_def)
    ultimately show ?thesis
      using Some codes(1) always same m(2) by (auto simp: option_answered_def)
  qed
qed

lemma reply_parses:
  assumes "length (dm_chaddr req) = 16" and "distinct (map os_code opts)"
    and "optPad \<notin> os_code ` set opts" and "optEnd \<notin> os_code ` set opts"
  shows "\<exists>m. parseMessage (buildReply req f (V4 s) opts) = Inr m
    \<and> minReply \<le> length (buildReply req f (V4 s) opts) \<and> length (buildReply req f (V4 s) opts) \<le> maxSize req
    \<and> dm_op m = opReply \<and> dm_xid m = dm_xid req \<and> dm_chaddr m = dm_chaddr req
    \<and> dm_yiaddr m = addr_or_zero (rf_yiaddr f) \<and> dm_ciaddr m = addr_or_zero (rf_ciaddr f)
    \<and> msgType m = rf_typ f \<and> addrOpt m optServerID = V4 s
    \<and> dom (dm_opts m) \<subseteq> {optMessageType, optServerID} \<union> os_code ` set opts
    \<and> (\<forall>x\<in>set opts. os_code x \<in> {optMessageType, optServerID}
         \<or> option_answered req (length (buildReply req f (V4 s) opts)) m x)"
proof -
  let ?D = "{optMessageType, optServerID}"
  obtain es dn where body: "buildReply req f (V4 s) opts =
      pad_reply (reply_header req f @ enc_opts ((optMessageType, [rf_typ f]) # (optServerID, put32 s) # es) @ [optEnd])"
    and inv: "reply_inv (maxSize req) opts ?D
      (reply_header req f @ enc_opts [(optMessageType, [rf_typ f]), (optServerID, put32 s)]) es
      (reply_header req f @ enc_opts ((optMessageType, [rf_typ f]) # (optServerID, put32 s) # es), dn)"
    and codes: "enc_codes es \<subseteq> set (dm_params req) \<union> always_codes opts"
      "set (dm_params req) \<inter> os_code ` set opts \<subseteq> dn" "always_codes opts \<subseteq> dn"
    by (rule reply_body [OF assms(1,2), of f s])
  define all where "all = (optMessageType, [rf_typ f]) # (optServerID, put32 s) # es"
  define r where "r = buildReply req f (V4 s) opts"
  have lens: "length (reply_header req f @ enc_opts all) + 1 \<le> maxSize req"
    using inv by (simp add: reply_inv_def all_def)
  have r: "r = reply_header req f @ enc_opts all @ optEnd # replicate (minReply - (length (reply_header req f @ enc_opts all) + 1)) optPad"
    unfolding r_def body pad_reply_def all_def by simp
  have bounds: "minReply \<le> length r" "length r \<le> maxSize req" "length r \<le> maxPacket" "minPacket \<le> length r"
      "length (reply_header req f @ enc_opts all) \<le> length r - 1"
    using lens maxSize_bounds [of req] length_reply_header [OF assms(1), of f] by (simp_all add: r packet_consts)
  have inD: "enc_codes es \<subseteq> os_code ` set opts" "enc_codes es \<inter> ?D = {}"
    using inv by (auto simp: reply_inv_def enc_codes_def)
  have plain: "plain_codes all"
    using inv inD assms(3,4) by (fastforce simp: plain_codes_def all_def reply_inv_def enc_codes_def option_codes list_all_iff)
  have "parse_opts (enc_opts all @ optEnd # replicate n optPad) Map.empty = Inr (map_of all)" for n
    using parse_opts_enc [OF plain, of Map.empty] by simp
  then obtain m where m: "parseMessage r = Inr m" "dm_opts m = map_of all"
      "dm_op m = opReply" "dm_xid m = dm_xid req" "dm_chaddr m = dm_chaddr req"
      "dm_yiaddr m = addr_or_zero (rf_yiaddr f)" "dm_ciaddr m = addr_or_zero (rf_ciaddr f)"
    using bounds(3,4) reply_header_fields [OF assms(1) r] by (auto simp: parseMessage_def)
  have mt: "msgType m = rf_typ f" "addrOpt m optServerID = V4 s"
    by (simp_all add: msgType_def addrOpt_def opt_val_def m(2) all_def option_codes addr4_def)
  have dom: "dom (dm_opts m) \<subseteq> ?D \<union> os_code ` set opts"
    using inD(1) by (auto simp: m(2) all_def dom_map_of_conv_image_fst enc_codes_def)
  have ans: "os_code x \<in> ?D \<or> option_answered req (length r) m x" if x: "x \<in> set opts" for x
    using reply_inv_answered [OF inv x assms(2) codes, of m "length r"] bounds(5) by (auto simp: m(2) all_def)
  show ?thesis
    using m bounds mt dom ans unfolding r_def by blast
qed

text \<open>C14: a reply built for a request is between 300 bytes and the largest message the client accepts, and parsing
  it gives back the transaction, the client's hardware address, the addresses, the message type and the
  server identifier; every option is in it as \<open>option_answered\<close> says, and no other option is.\<close>

theorem reply_roundtrip:
  assumes "length (dm_chaddr req) = 16" and "distinct (map os_code opts)"
    and "optPad \<notin> os_code ` set opts" and "optEnd \<notin> os_code ` set opts"
  shows "\<exists>m. parseMessage (buildReply req f (V4 s) opts) = Inr m
    \<and> minReply \<le> length (buildReply req f (V4 s) opts) \<and> length (buildReply req f (V4 s) opts) \<le> maxSize req
    \<and> dm_op m = opReply \<and> dm_xid m = dm_xid req \<and> dm_chaddr m = dm_chaddr req
    \<and> dm_yiaddr m = addr_or_zero (rf_yiaddr f) \<and> dm_ciaddr m = addr_or_zero (rf_ciaddr f)
    \<and> msgType m = rf_typ f \<and> addrOpt m optServerID = V4 s
    \<and> dom (dm_opts m) \<subseteq> {optMessageType, optServerID} \<union> os_code ` set opts
    \<and> (\<forall>x\<in>set opts. os_code x \<in> {optMessageType, optServerID}
         \<or> option_answered req (length (buildReply req f (V4 s) opts)) m x)"
  using assms by (rule reply_parses)

definition w_request :: message where
  "w_request = \<lparr>dm_op = 1, dm_htype = 1, dm_hlen = 6, dm_hops = 0, dm_xid = 7, dm_secs = 0, dm_flags = 0, dm_ciaddr = V4 0,
     dm_yiaddr = V4 0, dm_siaddr = V4 0, dm_giaddr = V4 0, dm_chaddr = [2, 0, 0, 0, 0, 1, 0, 0, 0, 0, 0, 0, 0, 0, 0, 0],
     dm_opts = [optMessageType \<mapsto> [3], optParamRequest \<mapsto> [optRouter]]\<rparr>"

theorem reply_roundtrip_witness:
  "\<exists>m. parseMessage (buildReply w_request \<lparr>rf_typ = msgAck, rf_ciaddr = NoAddr, rf_yiaddr = V4 0xC0A80117\<rparr> (V4 0xC0A80101)
       [plain_option optRouter [192, 168, 1, 1]]) = Inr m
     \<and> dm_xid m = 7 \<and> dm_yiaddr m = V4 0xC0A80117 \<and> msgType m = msgAck \<and> addrOpt m optServerID = V4 0xC0A80101"
  using reply_roundtrip [of w_request "[plain_option optRouter [192, 168, 1, 1]]"
      "\<lparr>rf_typ = msgAck, rf_ciaddr = NoAddr, rf_yiaddr = V4 0xC0A80117\<rparr>" "0xC0A80101"]
  by (auto simp: w_request_def plain_option_def option_codes addr_or_zero_def)

section \<open>Host names are labels\<close>

definition host_char :: "char \<Rightarrow> bool" where
  "host_char c \<longleftrightarrow> CHR ''a'' \<le> c \<and> c \<le> CHR ''z'' \<or> CHR ''0'' \<le> c \<and> c \<le> CHR ''9'' \<or> c = CHR ''-''"

text \<open>The characters of a label, no hyphen at the start and no two in a row.\<close>

definition open_host :: "string \<Rightarrow> bool" where
  "open_host s \<longleftrightarrow> list_all host_char s \<and> length s \<le> 63 \<and> (s = [] \<or> hd s \<noteq> CHR ''-'')
     \<and> successively (\<lambda>a b. a \<noteq> CHR ''-'' \<or> b \<noteq> CHR ''-'') s"

definition closed_host :: "string \<Rightarrow> bool" where
  "closed_host s \<longleftrightarrow> open_host s \<and> (s = [] \<or> last s \<noteq> CHR ''-'')"

lemma open_host_snoc:
  "open_host (out @ [c]) \<longleftrightarrow> open_host out \<and> host_char c \<and> length out < 63 \<and> (c = CHR ''-'' \<longrightarrow> out \<noteq> [] \<and> last out \<noteq> CHR ''-'')"
  by (cases "out = []") (auto simp: open_host_def successively_append_iff)

lemma sanitize_char_host: "sanitize_char c = Some d \<Longrightarrow> host_char d"
  by (auto simp: sanitize_char_def host_char_def lower_char_def less_eq_char_def split: if_splits)

lemma sanitize_char_id: "host_char c \<Longrightarrow> sanitize_char c = Some c"
  by (auto simp: sanitize_char_def host_char_def lower_char_def less_eq_char_def)

lemma sanitize_loop_open: "open_host out \<Longrightarrow> open_host (sanitize_loop s out)"
proof (induction s out rule: sanitize_loop.induct)
  case (2 c0 s out)
  then show ?case
    by (auto simp: open_host_snoc dest: sanitize_char_host split: option.splits)
qed simp

lemma sanitize_loop_id: "open_host (out @ s) \<Longrightarrow> sanitize_loop s out = out @ s"
proof (induction s arbitrary: out)
  case (Cons c s)
  have "open_host ((out @ [c]) @ s)" using Cons.prems by simp
  moreover have "open_host (out @ [c])"
    using Cons.prems by (cases "out = []") (auto simp: open_host_def successively_append_iff successively_Cons)
  ultimately show ?case
    using Cons.IH [of "out @ [c]"] by (auto simp: open_host_snoc sanitize_char_id)
qed simp

lemma open_host_butlast: "open_host s \<Longrightarrow> open_host (butlast s)"
  by (cases s rule: rev_cases) (auto simp: open_host_snoc)

lemma trim_closed: "open_host s \<Longrightarrow> closed_host (rev (dropWhile (\<lambda>c. c = CHR ''-'') (rev s)))"
proof (induction s rule: rev_induct)
  case (snoc c s)
  then show ?case by (auto simp: closed_host_def open_host_snoc)
qed (simp add: closed_host_def)

lemma closed_host_dots: "closed_host s \<Longrightarrow> takeWhile (\<lambda>c. c \<noteq> CHR ''.'') s = s"
  by (auto simp: closed_host_def open_host_def list_all_iff host_char_def less_eq_char_def takeWhile_eq_all_conv)

text \<open>Whatever a client sends, its sanitised name is a label (letters, digits and single hyphens inside, at most
  63 characters), and the names that are left as they are are exactly the labels.\<close>

theorem SanitizeHostname_label:
  "closed_host (SanitizeHostname s) \<and> (SanitizeHostname s = s \<longleftrightarrow> closed_host s)"
proof
  show closed: "closed_host (SanitizeHostname s)"
    unfolding SanitizeHostname_def Let_def by (intro trim_closed sanitize_loop_open) (simp add: open_host_def)
  show "SanitizeHostname s = s \<longleftrightarrow> closed_host s"
  proof
    assume c: "closed_host s"
    then have "take 255 s = s" by (simp add: closed_host_def open_host_def)
    moreover have "dropWhile (\<lambda>c. c = CHR ''-'') (rev s) = rev s"
      using c by (cases s rule: rev_cases) (auto simp: closed_host_def)
    ultimately show "SanitizeHostname s = s"
      using c sanitize_loop_id [of "[]" s] by (simp add: SanitizeHostname_def closed_host_dots closed_host_def)
  qed (use closed in metis)
qed

end
