(* ===== verification/DhcpTable.thy ===== *)
theory DhcpTable
  imports DhcpPacket "HOL-Library.Finite_Map" "HOL-Library.List_Lexorder"
begin

text \<open>
  The lease table of the DHCPv4 server, \<^verbatim>\<open>internal/dhcp/store.go\<close>, and the choice of addresses,
  \<^verbatim>\<open>internal/dhcp/alloc.go\<close>. Leases and reservations are shared by pointer between several maps, are
  compared by pointer and (leases) changed in place, so the table holds them in a store indexed by
  references; the maps hold references. The maps are finite maps; where the order of a range loop
  over a map matters it is an argument.
\<close>

section \<open>Leases, reservations, offers\<close>

definition maxLeases :: nat where "maxLeases = 4096"
definition maxStatics :: nat where "maxStatics = 1024"
definition retention :: duration where "retention = 24 * Hour"
definition quarantine_time :: duration where "quarantine_time = 10 * Minute"
definition offerHold :: duration where "offerHold = Minute"

record lease =
  l_mac :: string
  l_ip :: addr
  l_hostname :: string
  l_clientID :: string
  l_expires :: instant
  l_updated :: instant

record static =
  s_mac :: string
  s_ip :: addr
  s_hostname :: string
  s_comment :: string
  s_clientID :: string
  s_leaseSeconds :: int
  s_created :: instant
  s_updated :: instant

record offer =
  o_ip :: addr
  o_until :: instant

type_synonym lref = nat
type_synonym sref = nat

record table =
  tb_lheap :: "lref \<Rightarrow> lease"
  tb_lnext :: nat
  tb_sheap :: "sref \<Rightarrow> static"
  tb_snext :: nat
  tb_leases :: "(string, lref) fmap"
  tb_byIP :: "(addr, lref) fmap"
  tb_statics :: "(string, sref) fmap"
  tb_staticIP :: "(addr, sref) fmap"
  tb_staticCID :: "(string, sref) fmap"
  tb_quarantine :: "(addr, instant) fmap"
  tb_offers :: "(string, offer) fmap"
  tb_offerIP :: "(addr, string) fmap"

definition active :: "lease \<Rightarrow> instant \<Rightarrow> bool" where
  "active l now \<longleftrightarrow> now < l_expires l"

definition sameContent :: "static \<Rightarrow> static \<Rightarrow> bool" where
  "sameContent st other \<longleftrightarrow> s_mac st = s_mac other \<and> s_ip st = s_ip other \<and> s_hostname st = s_hostname other
     \<and> s_comment st = s_comment other \<and> s_clientID st = s_clientID other \<and> s_leaseSeconds st = s_leaseSeconds other"

text \<open>Unused references hold empty records.\<close>

definition no_lease :: lease where
  "no_lease = \<lparr>l_mac = [], l_ip = NoAddr, l_hostname = [], l_clientID = [], l_expires = zero_time, l_updated = zero_time\<rparr>"

definition no_static :: static where
  "no_static = \<lparr>s_mac = [], s_ip = NoAddr, s_hostname = [], s_comment = [], s_clientID = [], s_leaseSeconds = 0,
     s_created = zero_time, s_updated = zero_time\<rparr>"

definition newTable :: table where
  "newTable = \<lparr>tb_lheap = (\<lambda>_. no_lease), tb_lnext = 0, tb_sheap = (\<lambda>_. no_static), tb_snext = 0,
     tb_leases = fmempty, tb_byIP = fmempty, tb_statics = fmempty, tb_staticIP = fmempty, tb_staticCID = fmempty,
     tb_quarantine = fmempty, tb_offers = fmempty, tb_offerIP = fmempty\<rparr>"

definition lease_at :: "table \<Rightarrow> addr \<Rightarrow> lease option" where
  "lease_at t ip = map_option (tb_lheap t) (fmlookup (tb_byIP t) ip)"

definition lease_of :: "table \<Rightarrow> string \<Rightarrow> lease option" where
  "lease_of t mac = map_option (tb_lheap t) (fmlookup (tb_leases t) mac)"

text \<open>\<^verbatim>\<open>&lease{...}\<close> and \<^verbatim>\<open>&static{...}\<close>.\<close>

definition new_lease :: "lease \<Rightarrow> table \<Rightarrow> lref \<times> table" where
  "new_lease l t = (tb_lnext t, t\<lparr>tb_lheap := (tb_lheap t)(tb_lnext t := l), tb_lnext := tb_lnext t + 1\<rparr>)"

definition new_static :: "static \<Rightarrow> table \<Rightarrow> sref \<times> table" where
  "new_static st t = (tb_snext t, t\<lparr>tb_sheap := (tb_sheap t)(tb_snext t := st), tb_snext := tb_snext t + 1\<rparr>)"

definition reservationOf :: "table \<Rightarrow> lease \<Rightarrow> sref option" where
  "reservationOf t l =
     (case fmlookup (tb_statics t) (l_mac l) of
        Some st \<Rightarrow> Some st
      | None \<Rightarrow>
          case fmlookup (tb_staticCID t) (l_clientID l) of
            Some st \<Rightarrow> if l_clientID l \<noteq> [] \<and> s_ip (tb_sheap t st) = l_ip l then Some st else None
          | None \<Rightarrow> None)"

definition dropOffer :: "string \<Rightarrow> table \<Rightarrow> table" where
  "dropOffer mac t =
     (case fmlookup (tb_offers t) mac of
        None \<Rightarrow> t
      | Some off \<Rightarrow>
          let t' = t\<lparr>tb_offers := fmdrop mac (tb_offers t)\<rparr> in
          if fmlookup (tb_offerIP t') (o_ip off) = Some mac then t'\<lparr>tb_offerIP := fmdrop (o_ip off) (tb_offerIP t')\<rparr> else t')"

definition putLease :: "lref \<Rightarrow> table \<Rightarrow> table" where
  "putLease r t =
     (let l = tb_lheap t r;
          t1 = (case fmlookup (tb_leases t) (l_mac l) of
                  Some old \<Rightarrow>
                    if fmlookup (tb_byIP t) (l_ip (tb_lheap t old)) = Some old
                    then t\<lparr>tb_byIP := fmdrop (l_ip (tb_lheap t old)) (tb_byIP t)\<rparr> else t
                | None \<Rightarrow> t);
          t2 = (case fmlookup (tb_byIP t1) (l_ip l) of
                  Some other \<Rightarrow>
                    if l_mac (tb_lheap t1 other) \<noteq> l_mac l
                    then t1\<lparr>tb_leases := fmdrop (l_mac (tb_lheap t1 other)) (tb_leases t1)\<rparr> else t1
                | None \<Rightarrow> t1);
          t3 = t2\<lparr>tb_leases := fmupd (l_mac l) r (tb_leases t2), tb_byIP := fmupd (l_ip l) r (tb_byIP t2)\<rparr> in
      dropOffer (l_mac l) t3)"

definition dropLease :: "string \<Rightarrow> table \<Rightarrow> table" where
  "dropLease mac t =
     (case fmlookup (tb_leases t) mac of
        None \<Rightarrow> t
      | Some r \<Rightarrow>
          let t' = t\<lparr>tb_leases := fmdrop mac (tb_leases t)\<rparr>; ip = l_ip (tb_lheap t r) in
          if fmlookup (tb_byIP t') ip = Some r then t'\<lparr>tb_byIP := fmdrop ip (tb_byIP t')\<rparr> else t')"

definition dropStatic :: "string \<Rightarrow> table \<Rightarrow> table" where
  "dropStatic mac t =
     (case fmlookup (tb_statics t) mac of
        None \<Rightarrow> t
      | Some r \<Rightarrow>
          let st = tb_sheap t r;
              t1 = t\<lparr>tb_statics := fmdrop mac (tb_statics t)\<rparr>;
              t2 = (if fmlookup (tb_staticIP t1) (s_ip st) = Some r
                    then t1\<lparr>tb_staticIP := fmdrop (s_ip st) (tb_staticIP t1)\<rparr> else t1) in
          if fmlookup (tb_staticCID t2) (s_clientID st) = Some r
          then t2\<lparr>tb_staticCID := fmdrop (s_clientID st) (tb_staticCID t2)\<rparr> else t2)"

definition putStatic :: "sref \<Rightarrow> table \<Rightarrow> table" where
  "putStatic r t =
     (let st = tb_sheap t r;
          t1 = dropStatic (s_mac st) t;
          t2 = t1\<lparr>tb_statics := fmupd (s_mac st) r (tb_statics t1), tb_staticIP := fmupd (s_ip st) r (tb_staticIP t1)\<rparr> in
      if s_clientID st \<noteq> [] then t2\<lparr>tb_staticCID := fmupd (s_clientID st) r (tb_staticCID t2)\<rparr> else t2)"

definition putOffer :: "string \<Rightarrow> addr \<Rightarrow> instant \<Rightarrow> table \<Rightarrow> table" where
  "putOffer mac ip until t =
     (let t1 = dropOffer mac t;
          t2 = (case fmlookup (tb_offerIP t1) ip of
                  Some other \<Rightarrow> t1\<lparr>tb_offers := fmdrop other (tb_offers t1)\<rparr>
                | None \<Rightarrow> t1) in
      t2\<lparr>tb_offers := fmupd mac \<lparr>o_ip = ip, o_until = until\<rparr> (tb_offers t2), tb_offerIP := fmupd ip mac (tb_offerIP t2)\<rparr>)"

definition quarantined :: "table \<Rightarrow> addr \<Rightarrow> instant \<Rightarrow> bool" where
  "quarantined t ip now = (case fmlookup (tb_quarantine t) ip of Some until \<Rightarrow> now < until | None \<Rightarrow> False)"

text \<open>The three loops of \<^verbatim>\<open>expire\<close>, each over the keys of its map in the order given.\<close>

definition expire_offer :: "instant \<Rightarrow> string \<Rightarrow> table \<Rightarrow> table" where
  "expire_offer now mac t =
     (case fmlookup (tb_offers t) mac of Some off \<Rightarrow> if \<not> now < o_until off then dropOffer mac t else t | None \<Rightarrow> t)"

definition expire_quarantine :: "instant \<Rightarrow> addr \<Rightarrow> table \<Rightarrow> table" where
  "expire_quarantine now ip t =
     (case fmlookup (tb_quarantine t) ip of
        Some until \<Rightarrow> if \<not> now < until then t\<lparr>tb_quarantine := fmdrop ip (tb_quarantine t)\<rparr> else t
      | None \<Rightarrow> t)"

definition expire_lease :: "instant \<Rightarrow> string \<Rightarrow> table \<times> string list \<Rightarrow> table \<times> string list" where
  "expire_lease now mac st =
     (case lease_of (fst st) mac of
        Some l \<Rightarrow> if time_Sub now (l_expires l) > retention then (dropLease mac (fst st), snd st @ [mac]) else st
      | None \<Rightarrow> st)"

definition expire :: "string list \<Rightarrow> addr list \<Rightarrow> string list \<Rightarrow> instant \<Rightarrow> table \<Rightarrow> table \<times> string list" where
  "expire offer_order quarantine_order lease_order now t =
     (let t1 = fold (expire_offer now) offer_order t;
          t2 = fold (expire_quarantine now) quarantine_order t1 in
      fold (expire_lease now) lease_order (t2, []))"

definition oldest_expired :: "table \<Rightarrow> instant \<Rightarrow> string \<Rightarrow> lease option \<Rightarrow> lease option" where
  "oldest_expired t now mac oldest =
     (case lease_of t mac of
        None \<Rightarrow> oldest
      | Some l \<Rightarrow>
          if \<not> active l now \<and> (case oldest of None \<Rightarrow> True | Some x \<Rightarrow> l_expires l < l_expires x) then Some l else oldest)"

text \<open>\<^verbatim>\<open>makeRoom\<close>: \<open>None\<close> when every lease is active, else the client dropped (the empty name for none).\<close>

definition makeRoom :: "string list \<Rightarrow> instant \<Rightarrow> table \<Rightarrow> (string \<times> table) option" where
  "makeRoom order now t =
     (if fcard (fmdom (tb_leases t)) < maxLeases then Some ([], t)
      else case fold (oldest_expired t now) order None of
          None \<Rightarrow> None
        | Some l \<Rightarrow> Some (l_mac l, dropLease (l_mac l) t))"

definition sortedLeases :: "table \<Rightarrow> lease list" where
  "sortedLeases t = sort_key l_mac (map (\<lambda>mac. tb_lheap t (the (fmlookup (tb_leases t) mac))) (sorted_list_of_fset (fmdom (tb_leases t))))"

section \<open>The pool\<close>

record pool =
  p_subnet :: pfx
  p_start :: addr
  p_end :: addr
  p_skip :: "addr list"

text \<open>\<^verbatim>\<open>lastAddr\<close>; \<^verbatim>\<open>As4\<close> panics on the zero address and \<open>None\<close> stands for that.\<close>

definition lastAddr :: "pfx \<Rightarrow> addr option" where
  "lastAddr p =
     (case pfx_Addr (Masked p) of
        V4 v \<Rightarrow> Some (V4 (v OR (push_bit (nat (32 - pfx_Bits p)) 1 - 1)))
      | _ \<Rightarrow> None)"

definition add_skip :: "addr \<Rightarrow> addr list \<Rightarrow> addr list" where
  "add_skip a skip = (if addr_IsValid a \<and> a \<notin> set skip then skip @ [a] else skip)"

definition newPool :: "pfx \<Rightarrow> addr \<Rightarrow> addr \<Rightarrow> addr list \<Rightarrow> pool option" where
  "newPool subnet start end skip =
     (let net = Masked subnet in
      map_option (\<lambda>bcast. \<lparr>p_subnet = net, p_start = start, p_end = end, p_skip = fold add_skip skip [pfx_Addr net, bcast]\<rparr>)
        (lastAddr net))"

definition usable :: "pool \<Rightarrow> addr \<Rightarrow> bool" where
  "usable p ip \<longleftrightarrow> Contains (p_subnet p) ip \<and> ip \<notin> set (p_skip p)"

definition dynamic :: "pool \<Rightarrow> addr \<Rightarrow> bool" where
  "dynamic p ip \<longleftrightarrow> usable p ip \<and> \<not> addr_Less4 ip (p_start p) \<and> \<not> addr_Less4 (p_end p) ip"

text \<open>The addresses the loops \<^verbatim>\<open>for a := p.start; a.IsValid() && !p.end.Less(a); a = a.Next()\<close> run through.\<close>

definition addr_left :: "addr \<Rightarrow> nat" where
  "addr_left a = (case a of V4 v \<Rightarrow> 2 ^ 32 - unat v | V6 v z \<Rightarrow> 2 ^ 128 - unat v | NoAddr \<Rightarrow> 0)"

lemma unat_bound: "unat (v :: 'a::len word) < 2 ^ LENGTH('a)"
  by simp

lemma word_succ_left: "v + 1 \<noteq> 0 \<Longrightarrow> 2 ^ LENGTH('a) - unat (v + 1) < 2 ^ LENGTH('a) - unat v" for v :: "'a::len word"
  using unatSuc [of v] unat_bound [of "v + 1"] by (simp add: add.commute)

lemma addr_left_pos: "addr_left (V4 v) > 0" "addr_left (V6 w z) > 0"
  using unat_bound [of v] unat_bound [of w] by (simp_all add: addr_left_def)

lemma addr_left_Next: "addr_IsValid a \<Longrightarrow> addr_left (Next a) < addr_left a"
proof (cases a)
  case (V4 v)
  then show ?thesis
    using word_succ_left [of v] addr_left_pos(1) [of v] by (auto simp: addr_left_def)
next
  case (V6 v z)
  then show ?thesis
    using word_succ_left [of v] addr_left_pos(2) [of v z] by (auto simp: addr_left_def)
qed (simp add: addr_IsValid_def)

function addr_range :: "addr \<Rightarrow> addr \<Rightarrow> addr list" where
  "addr_range a e = (if addr_IsValid a \<and> \<not> addr_Less4 e a then a # addr_range (Next a) e else [])"
  by pat_completeness auto
termination by (relation "measure (addr_left \<circ> fst)") (auto simp: addr_left_Next)

declare addr_range.simps [simp del]

definition pool_size :: "pool \<Rightarrow> nat" where
  "pool_size p = length (filter (usable p) (addr_range (p_start p) (p_end p)))"

section \<open>Which address a client gets\<close>

definition offered_to_other :: "table \<Rightarrow> addr \<Rightarrow> string \<Rightarrow> instant \<Rightarrow> bool" where
  "offered_to_other t ip mac now =
     (case fmlookup (tb_offerIP t) ip of
        Some other \<Rightarrow> other \<noteq> mac \<and> (case fmlookup (tb_offers t) other of Some off \<Rightarrow> now < o_until off | None \<Rightarrow> now < zero_time)
      | None \<Rightarrow> False)"

definition leased_to_other :: "table \<Rightarrow> addr \<Rightarrow> string \<Rightarrow> instant \<Rightarrow> bool" where
  "leased_to_other t ip mac now = (case lease_at t ip of Some l \<Rightarrow> l_mac l \<noteq> mac \<and> active l now | None \<Rightarrow> False)"

definition reserved_for_other :: "table \<Rightarrow> addr \<Rightarrow> sref option \<Rightarrow> bool" where
  "reserved_for_other t ip res = (case fmlookup (tb_staticIP t) ip of Some st \<Rightarrow> Some st \<noteq> res | None \<Rightarrow> False)"

definition freeFor :: "table \<Rightarrow> addr \<Rightarrow> string \<Rightarrow> sref option \<Rightarrow> instant \<Rightarrow> bool" where
  "freeFor t ip mac res now =
     (if reserved_for_other t ip res then False
      else if leased_to_other t ip mac now then False
      else if offered_to_other t ip mac now then False
      else \<not> quarantined t ip now)"

definition retainedByOther :: "table \<Rightarrow> addr \<Rightarrow> string \<Rightarrow> bool" where
  "retainedByOther t ip mac = (case lease_at t ip of Some l \<Rightarrow> l_mac l \<noteq> mac | None \<Rightarrow> False)"

definition oldest_reusable :: "table \<Rightarrow> pool \<Rightarrow> string \<Rightarrow> sref option \<Rightarrow> addr set \<Rightarrow> instant \<Rightarrow> addr \<Rightarrow> lease option \<Rightarrow> lease option" where
  "oldest_reusable t p mac res tried now a oldest =
     (case lease_at t a of
        None \<Rightarrow> oldest
      | Some l \<Rightarrow>
          if a \<in> tried \<or> \<not> dynamic p a \<or> \<not> freeFor t a mac res now then oldest
          else if (case oldest of None \<Rightarrow> True | Some x \<Rightarrow> l_expires l < l_expires x) then Some l else oldest)"

text \<open>\<^verbatim>\<open>candidate\<close>: the address and whether the neighbour table must be consulted; \<open>None\<close> when the pool is exhausted.\<close>

definition own_reserved :: "table \<Rightarrow> pool \<Rightarrow> string \<Rightarrow> sref option \<Rightarrow> addr set \<Rightarrow> instant \<Rightarrow> addr option" where
  "own_reserved t p mac res tried now =
     (case res of
        Some r \<Rightarrow>
          let ip = s_ip (tb_sheap t r) in
          if ip \<notin> tried \<and> usable p ip \<and> \<not> quarantined t ip now \<and> \<not> leased_to_other t ip mac now then Some ip else None
      | None \<Rightarrow> None)"

definition own_leased :: "table \<Rightarrow> pool \<Rightarrow> string \<Rightarrow> sref option \<Rightarrow> addr set \<Rightarrow> instant \<Rightarrow> addr option" where
  "own_leased t p mac res tried now =
     (case lease_of t mac of
        Some l \<Rightarrow> if l_ip l \<notin> tried \<and> dynamic p (l_ip l) \<and> freeFor t (l_ip l) mac res now then Some (l_ip l) else None
      | None \<Rightarrow> None)"

definition fresh_for :: "table \<Rightarrow> pool \<Rightarrow> string \<Rightarrow> sref option \<Rightarrow> addr set \<Rightarrow> instant \<Rightarrow> addr \<Rightarrow> bool" where
  "fresh_for t p mac res tried now a \<longleftrightarrow>
     a \<notin> tried \<and> dynamic p a \<and> freeFor t a mac res now \<and> \<not> retainedByOther t a mac"

definition candidate :: "table \<Rightarrow> pool \<Rightarrow> string \<Rightarrow> sref option \<Rightarrow> addr \<Rightarrow> addr set \<Rightarrow> instant \<Rightarrow> (addr \<times> bool) option" where
  "candidate t p mac res requested tried now =
     (case own_reserved t p mac res tried now of
        Some ip \<Rightarrow> Some (ip, False)
      | None \<Rightarrow>
      case own_leased t p mac res tried now of
        Some ip \<Rightarrow> Some (ip, False)
      | None \<Rightarrow>
      if Is4 requested \<and> fresh_for t p mac res tried now requested then Some (requested, True)
      else case find (fresh_for t p mac res tried now) (addr_range (p_start p) (p_end p)) of
        Some a \<Rightarrow> Some (a, True)
      | None \<Rightarrow> map_option (\<lambda>l. (l_ip l, True))
          (fold (oldest_reusable t p mac res tried now) (addr_range (p_start p) (p_end p)) None))"

datatype requestVerdict = verdictNak | verdictAck | verdictCheck | verdictMove

definition decideRequest :: "table \<Rightarrow> pool \<Rightarrow> string \<Rightarrow> sref option \<Rightarrow> addr \<Rightarrow> instant \<Rightarrow> requestVerdict" where
  "decideRequest t p mac res want now =
     (if \<not> Is4 want \<or> \<not> usable p want then verdictNak
      else if reserved_for_other t want res then verdictNak
      else if leased_to_other t want mac now then verdictNak
      else if offered_to_other t want mac now then verdictNak
      else if quarantined t want now then verdictNak
      else if (case res of Some r \<Rightarrow> s_ip (tb_sheap t r) = want | None \<Rightarrow> False) then verdictAck
      else if (case res of
                 Some r \<Rightarrow> usable p (s_ip (tb_sheap t r)) \<and> \<not> leased_to_other t (s_ip (tb_sheap t r)) mac now
               | None \<Rightarrow> False) then verdictMove
      else if \<not> dynamic p want then verdictNak
      else if (case lease_of t mac of Some l \<Rightarrow> l_ip l = want | None \<Rightarrow> False) then verdictAck
      else if (case fmlookup (tb_offers t) mac of Some off \<Rightarrow> o_ip off = want \<and> now < o_until off | None \<Rightarrow> False) then verdictAck
      else if retainedByOther t want mac then verdictNak
      else verdictCheck)"

section \<open>The invariant of the table\<close>

text \<open>
  A client has at most one lease and an address at most one: the maps by client and by address hold the
  same leases, each under its own key. The same for the offers. A reservation found by address or client
  identifier is the one of its client.
\<close>

definition lease_inv :: "table \<Rightarrow> bool" where
  "lease_inv t \<longleftrightarrow>
     (\<forall>mac r. fmlookup (tb_leases t) mac = Some r \<longrightarrow>
        r < tb_lnext t \<and> l_mac (tb_lheap t r) = mac \<and> fmlookup (tb_byIP t) (l_ip (tb_lheap t r)) = Some r)
     \<and> (\<forall>ip r. fmlookup (tb_byIP t) ip = Some r \<longrightarrow>
        l_ip (tb_lheap t r) = ip \<and> fmlookup (tb_leases t) (l_mac (tb_lheap t r)) = Some r)"

definition offer_inv :: "table \<Rightarrow> bool" where
  "offer_inv t \<longleftrightarrow>
     (\<forall>mac off. fmlookup (tb_offers t) mac = Some off \<longrightarrow> fmlookup (tb_offerIP t) (o_ip off) = Some mac)
     \<and> (\<forall>ip mac. fmlookup (tb_offerIP t) ip = Some mac \<longrightarrow> (\<exists>off. fmlookup (tb_offers t) mac = Some off \<and> o_ip off = ip))"

definition static_inv :: "table \<Rightarrow> bool" where
  "static_inv t \<longleftrightarrow>
     (\<forall>mac r. fmlookup (tb_statics t) mac = Some r \<longrightarrow> r < tb_snext t \<and> s_mac (tb_sheap t r) = mac)
     \<and> (\<forall>ip r. fmlookup (tb_staticIP t) ip = Some r \<longrightarrow>
        s_ip (tb_sheap t r) = ip \<and> fmlookup (tb_statics t) (s_mac (tb_sheap t r)) = Some r)
     \<and> (\<forall>cid r. fmlookup (tb_staticCID t) cid = Some r \<longrightarrow>
        cid \<noteq> [] \<and> s_clientID (tb_sheap t r) = cid \<and> fmlookup (tb_statics t) (s_mac (tb_sheap t r)) = Some r)"

definition table_inv :: "table \<Rightarrow> bool" where
  "table_inv t \<longleftrightarrow> lease_inv t \<and> offer_inv t \<and> static_inv t"

lemma lease_invI:
  assumes "\<And>mac r. fmlookup (tb_leases t) mac = Some r \<Longrightarrow>
      r < tb_lnext t \<and> l_mac (tb_lheap t r) = mac \<and> fmlookup (tb_byIP t) (l_ip (tb_lheap t r)) = Some r"
    and "\<And>ip r. fmlookup (tb_byIP t) ip = Some r \<Longrightarrow>
      l_ip (tb_lheap t r) = ip \<and> fmlookup (tb_leases t) (l_mac (tb_lheap t r)) = Some r"
  shows "lease_inv t"
  using assms by (simp add: lease_inv_def)

lemma lease_inv_macD:
  assumes "lease_inv t" and "fmlookup (tb_leases t) mac = Some r"
  shows "r < tb_lnext t" "l_mac (tb_lheap t r) = mac" "fmlookup (tb_byIP t) (l_ip (tb_lheap t r)) = Some r"
  using assms by (auto simp: lease_inv_def)

lemma lease_inv_ipD:
  assumes "lease_inv t" and "fmlookup (tb_byIP t) ip = Some r"
  shows "l_ip (tb_lheap t r) = ip" "fmlookup (tb_leases t) (l_mac (tb_lheap t r)) = Some r"
  using assms by (auto simp: lease_inv_def)

lemma lease_inv_ip_alloc: "lease_inv t \<Longrightarrow> fmlookup (tb_byIP t) ip = Some r \<Longrightarrow> r < tb_lnext t"
  using lease_inv_ipD lease_inv_macD by blast

lemma lease_inv_ip_inj:
  "lease_inv t \<Longrightarrow> fmlookup (tb_leases t) m = Some r \<Longrightarrow> fmlookup (tb_leases t) m' = Some r' \<Longrightarrow>
    l_ip (tb_lheap t r) = l_ip (tb_lheap t r') \<Longrightarrow> m = m'"
  by (metis lease_inv_macD(2,3) option.inject)

lemma lease_inv_mac_inj:
  "lease_inv t \<Longrightarrow> fmlookup (tb_byIP t) a = Some r \<Longrightarrow> fmlookup (tb_byIP t) a' = Some r' \<Longrightarrow>
    l_mac (tb_lheap t r) = l_mac (tb_lheap t r') \<Longrightarrow> a = a'"
  by (metis lease_inv_ipD(1,2) option.inject)

lemma newTable_inv: "table_inv newTable"
  by (simp add: table_inv_def lease_inv_def offer_inv_def static_inv_def newTable_def)

subsection \<open>Offers\<close>

lemma dropOffer_keeps [simp]:
  "tb_lheap (dropOffer mac t) = tb_lheap t" "tb_lnext (dropOffer mac t) = tb_lnext t" "tb_sheap (dropOffer mac t) = tb_sheap t"
  "tb_snext (dropOffer mac t) = tb_snext t" "tb_leases (dropOffer mac t) = tb_leases t" "tb_byIP (dropOffer mac t) = tb_byIP t"
  "tb_statics (dropOffer mac t) = tb_statics t" "tb_staticIP (dropOffer mac t) = tb_staticIP t"
  "tb_staticCID (dropOffer mac t) = tb_staticCID t" "tb_quarantine (dropOffer mac t) = tb_quarantine t"
  by (simp_all add: dropOffer_def Let_def split: option.splits)

lemma dropOffer_offers [simp]: "tb_offers (dropOffer mac t) = fmdrop mac (tb_offers t)"
  by (rule fmap_ext) (auto simp: dropOffer_def Let_def split: option.splits)

lemma dropOffer_offerIP:
  "offer_inv t \<Longrightarrow> fmlookup (tb_offerIP (dropOffer mac t)) ip = (if fmlookup (tb_offerIP t) ip = Some mac then None else fmlookup (tb_offerIP t) ip)"
  by (fastforce simp: dropOffer_def offer_inv_def Let_def split: option.splits)

lemma dropOffer_offer_inv: "offer_inv t \<Longrightarrow> offer_inv (dropOffer mac t)"
  by (fastforce simp: offer_inv_def dropOffer_offerIP)

lemma putOffer_keeps [simp]:
  "tb_lheap (putOffer mac ip u t) = tb_lheap t" "tb_lnext (putOffer mac ip u t) = tb_lnext t" "tb_sheap (putOffer mac ip u t) = tb_sheap t"
  "tb_snext (putOffer mac ip u t) = tb_snext t" "tb_leases (putOffer mac ip u t) = tb_leases t" "tb_byIP (putOffer mac ip u t) = tb_byIP t"
  "tb_statics (putOffer mac ip u t) = tb_statics t" "tb_staticIP (putOffer mac ip u t) = tb_staticIP t"
  "tb_staticCID (putOffer mac ip u t) = tb_staticCID t" "tb_quarantine (putOffer mac ip u t) = tb_quarantine t"
  by (simp_all add: putOffer_def Let_def split: option.splits)

lemma putOffer_offer_inv:
  assumes "offer_inv t"
  shows "offer_inv (putOffer mac ip u t)"
proof -
  define t1 where "t1 = dropOffer mac t"
  define t2 where "t2 = (case fmlookup (tb_offerIP t1) ip of
      Some other \<Rightarrow> t1\<lparr>tb_offers := fmdrop other (tb_offers t1)\<rparr> | None \<Rightarrow> t1)"
  have inv1: "offer_inv t1" "fmlookup (tb_offers t1) mac = None"
    using dropOffer_offer_inv [OF assms] by (simp_all add: t1_def)
  have off2: "fmlookup (tb_offers t2) m = (if fmlookup (tb_offerIP t1) ip = Some m then None else fmlookup (tb_offers t1) m)" for m
    by (auto simp: t2_def split: option.splits)
  have ip2: "tb_offerIP t2 = tb_offerIP t1"
    by (simp add: t2_def split: option.splits)
  have "putOffer mac ip u t = t2\<lparr>tb_offers := fmupd mac \<lparr>o_ip = ip, o_until = u\<rparr> (tb_offers t2), tb_offerIP := fmupd ip mac (tb_offerIP t2)\<rparr>"
    unfolding putOffer_def Let_def t1_def [symmetric] t2_def [symmetric] by simp
  then have look: "fmlookup (tb_offers (putOffer mac ip u t)) m = (if m = mac then Some \<lparr>o_ip = ip, o_until = u\<rparr> else fmlookup (tb_offers t2) m)"
    "fmlookup (tb_offerIP (putOffer mac ip u t)) a = (if a = ip then Some mac else fmlookup (tb_offerIP t1) a)" for m a
    by (simp_all add: ip2)
  have fw: "fmlookup (tb_offerIP t1) (o_ip off) = Some m" if "fmlookup (tb_offers t1) m = Some off" for m off
    using inv1(1) that by (simp add: offer_inv_def)
  have bw: "\<exists>off. fmlookup (tb_offers t1) m = Some off \<and> o_ip off = a" if "fmlookup (tb_offerIP t1) a = Some m" for m a
    using inv1(1) that by (simp add: offer_inv_def)
  show ?thesis
    unfolding offer_inv_def look off2
    using fw bw inv1(2) by (auto split: if_splits) (metis option.inject option.distinct(1))+
qed

lemma putOffer_offered: "fmlookup (tb_offers (putOffer mac ip u t)) mac = Some \<lparr>o_ip = ip, o_until = u\<rparr>"
  "fmlookup (tb_offerIP (putOffer mac ip u t)) ip = Some mac"
  by (simp_all add: putOffer_def Let_def)

subsection \<open>Leases\<close>

lemma putLease_keeps [simp]:
  "tb_lheap (putLease r t) = tb_lheap t" "tb_lnext (putLease r t) = tb_lnext t" "tb_sheap (putLease r t) = tb_sheap t"
  "tb_snext (putLease r t) = tb_snext t" "tb_statics (putLease r t) = tb_statics t" "tb_staticIP (putLease r t) = tb_staticIP t"
  "tb_staticCID (putLease r t) = tb_staticCID t" "tb_quarantine (putLease r t) = tb_quarantine t"
  by (simp_all add: putLease_def Let_def split: option.splits)

lemma putLease_offer_inv: "offer_inv t \<Longrightarrow> offer_inv (putLease r t)"
  unfolding putLease_def Let_def
  by (rule dropOffer_offer_inv) (auto simp: offer_inv_def split: option.splits)

text \<open>What \<^verbatim>\<open>putLease\<close> leaves: the client has the new lease alone, and whoever had its address has none.\<close>

lemma putLease_lookup:
  assumes inv: "lease_inv t" and l: "l = tb_lheap t r"
  shows "fmlookup (tb_byIP (putLease r t)) ip =
      (if ip = l_ip l then Some r
       else case lease_of t (l_mac l) of Some old \<Rightarrow> if l_ip old = ip then None else fmlookup (tb_byIP t) ip | None \<Rightarrow> fmlookup (tb_byIP t) ip)"
    and "fmlookup (tb_leases (putLease r t)) mac =
      (if mac = l_mac l then Some r
       else case lease_at t (l_ip l) of Some x \<Rightarrow> if l_mac x = mac then None else fmlookup (tb_leases t) mac | None \<Rightarrow> fmlookup (tb_leases t) mac)"
proof -
  define t1 where "t1 = (case fmlookup (tb_leases t) (l_mac l) of
      Some old \<Rightarrow> if fmlookup (tb_byIP t) (l_ip (tb_lheap t old)) = Some old
        then t\<lparr>tb_byIP := fmdrop (l_ip (tb_lheap t old)) (tb_byIP t)\<rparr> else t
    | None \<Rightarrow> t)"
  have t1: "tb_lheap t1 = tb_lheap t" "tb_leases t1 = tb_leases t"
    "fmlookup (tb_byIP t1) a = (case lease_of t (l_mac l) of Some old \<Rightarrow> if l_ip old = a then None else fmlookup (tb_byIP t) a | None \<Rightarrow> fmlookup (tb_byIP t) a)" for a
    using inv by (auto simp: t1_def lease_of_def lease_inv_def split: option.splits)
  define t2 where "t2 = (case fmlookup (tb_byIP t1) (l_ip l) of
      Some other \<Rightarrow> if l_mac (tb_lheap t1 other) \<noteq> l_mac l
        then t1\<lparr>tb_leases := fmdrop (l_mac (tb_lheap t1 other)) (tb_leases t1)\<rparr> else t1
    | None \<Rightarrow> t1)"
  have t2: "tb_byIP t2 = tb_byIP t1"
    by (simp add: t2_def split: option.splits)
  have t2l: "fmlookup (tb_leases t2) m = (case lease_at t (l_ip l) of Some x \<Rightarrow> if l_mac x = m then None else fmlookup (tb_leases t) m | None \<Rightarrow> fmlookup (tb_leases t) m)"
    if "m \<noteq> l_mac l" for m
    using that inv by (auto simp: t2_def t1 lease_at_def lease_of_def lease_inv_def split: option.splits) (metis option.inject)+
  have put: "putLease r t = dropOffer (l_mac l) (t2\<lparr>tb_leases := fmupd (l_mac l) r (tb_leases t2), tb_byIP := fmupd (l_ip l) r (tb_byIP t2)\<rparr>)"
    unfolding putLease_def Let_def l [symmetric] t1_def [symmetric] t2_def [symmetric] by simp
  show "fmlookup (tb_byIP (putLease r t)) ip =
      (if ip = l_ip l then Some r
       else case lease_of t (l_mac l) of Some old \<Rightarrow> if l_ip old = ip then None else fmlookup (tb_byIP t) ip | None \<Rightarrow> fmlookup (tb_byIP t) ip)"
    by (simp add: put t2 t1)
  show "fmlookup (tb_leases (putLease r t)) mac =
      (if mac = l_mac l then Some r
       else case lease_at t (l_ip l) of Some x \<Rightarrow> if l_mac x = mac then None else fmlookup (tb_leases t) mac | None \<Rightarrow> fmlookup (tb_leases t) mac)"
    by (simp add: put t2l)
qed

lemma putLease_lease_inv:
  assumes inv: "lease_inv t" and r: "r < tb_lnext t"
  shows "lease_inv (putLease r t)"
proof (rule lease_invI)
  note look = putLease_lookup [OF inv refl, of r]
  fix mac r'
  assume a: "fmlookup (tb_leases (putLease r t)) mac = Some r'"
  show "r' < tb_lnext (putLease r t) \<and> l_mac (tb_lheap (putLease r t) r') = mac
      \<and> fmlookup (tb_byIP (putLease r t)) (l_ip (tb_lheap (putLease r t) r')) = Some r'"
  proof (cases "mac = l_mac (tb_lheap t r)")
    case True
    then have "r' = r" using a by (simp add: look)
    with True show ?thesis using r by (simp add: look)
  next
    case False
    then have old: "fmlookup (tb_leases t) mac = Some r'"
      using a by (simp add: look split: option.splits if_splits)
    note r' = lease_inv_macD [OF inv old]
    have "l_ip (tb_lheap t r') \<noteq> l_ip (tb_lheap t r)"
      using a False r' by (auto simp: look lease_at_def)
    moreover have "l_ip x \<noteq> l_ip (tb_lheap t r')" if "lease_of t (l_mac (tb_lheap t r)) = Some x" for x
      using that False r' lease_inv_ip_inj [OF inv old] by (auto simp: lease_of_def)
    ultimately show ?thesis using r' by (simp add: look split: option.splits)
  qed
next
  note look = putLease_lookup [OF inv refl, of r]
  fix ip r'
  assume a: "fmlookup (tb_byIP (putLease r t)) ip = Some r'"
  show "l_ip (tb_lheap (putLease r t) r') = ip \<and> fmlookup (tb_leases (putLease r t)) (l_mac (tb_lheap (putLease r t) r')) = Some r'"
  proof (cases "ip = l_ip (tb_lheap t r)")
    case True
    then have "r' = r" using a by (simp add: look)
    with True show ?thesis by (simp add: look)
  next
    case False
    then have old: "fmlookup (tb_byIP t) ip = Some r'" and nold: "\<And>x. lease_of t (l_mac (tb_lheap t r)) = Some x \<Longrightarrow> l_ip x \<noteq> ip"
      using a by (auto simp: look split: option.splits if_splits)
    note r' = lease_inv_ipD [OF inv old]
    have "l_mac (tb_lheap t r') \<noteq> l_mac (tb_lheap t r)"
      using nold r' by (auto simp: lease_of_def)
    moreover have "l_mac x \<noteq> l_mac (tb_lheap t r')" if "lease_at t (l_ip (tb_lheap t r)) = Some x" for x
      using that False lease_inv_mac_inj [OF inv old] by (auto simp: lease_at_def)
    ultimately show ?thesis using r' by (simp add: look split: option.splits)
  qed
qed

lemma dropLease_keeps [simp]:
  "tb_lheap (dropLease mac t) = tb_lheap t" "tb_lnext (dropLease mac t) = tb_lnext t" "tb_sheap (dropLease mac t) = tb_sheap t"
  "tb_snext (dropLease mac t) = tb_snext t" "tb_statics (dropLease mac t) = tb_statics t" "tb_staticIP (dropLease mac t) = tb_staticIP t"
  "tb_staticCID (dropLease mac t) = tb_staticCID t" "tb_quarantine (dropLease mac t) = tb_quarantine t"
  "tb_offers (dropLease mac t) = tb_offers t" "tb_offerIP (dropLease mac t) = tb_offerIP t"
  by (simp_all add: dropLease_def Let_def split: option.splits)

lemma dropLease_leases [simp]: "tb_leases (dropLease mac t) = fmdrop mac (tb_leases t)"
  by (rule fmap_ext) (auto simp: dropLease_def Let_def split: option.splits)

lemma dropLease_byIP:
  "lease_inv t \<Longrightarrow> fmlookup (tb_byIP (dropLease mac t)) ip =
    (case fmlookup (tb_byIP t) ip of Some r \<Rightarrow> if l_mac (tb_lheap t r) = mac then None else Some r | None \<Rightarrow> None)"
  by (auto simp: dropLease_def Let_def lease_inv_def split: option.splits)

lemma dropLease_lease_inv: "lease_inv t \<Longrightarrow> lease_inv (dropLease mac t)"
  by (rule lease_invI) (auto simp: dropLease_byIP lease_inv_def split: option.splits if_splits)

lemma new_lease_keeps [simp]:
  "fst (new_lease l t) = tb_lnext t" "tb_lnext (snd (new_lease l t)) = tb_lnext t + 1"
  "tb_lheap (snd (new_lease l t)) = (tb_lheap t)(tb_lnext t := l)" "tb_sheap (snd (new_lease l t)) = tb_sheap t"
  "tb_snext (snd (new_lease l t)) = tb_snext t" "tb_leases (snd (new_lease l t)) = tb_leases t" "tb_byIP (snd (new_lease l t)) = tb_byIP t"
  "tb_statics (snd (new_lease l t)) = tb_statics t" "tb_staticIP (snd (new_lease l t)) = tb_staticIP t"
  "tb_staticCID (snd (new_lease l t)) = tb_staticCID t" "tb_quarantine (snd (new_lease l t)) = tb_quarantine t"
  "tb_offers (snd (new_lease l t)) = tb_offers t" "tb_offerIP (snd (new_lease l t)) = tb_offerIP t"
  by (simp_all add: new_lease_def)

lemma lease_inv_fresh:
  "lease_inv t \<Longrightarrow> (\<forall>mac. fmlookup (tb_leases t) mac \<noteq> Some (tb_lnext t)) \<and> (\<forall>ip. fmlookup (tb_byIP t) ip \<noteq> Some (tb_lnext t))"
  using lease_inv_macD(1) lease_inv_ip_alloc by blast

lemma new_lease_lease_inv: "lease_inv t \<Longrightarrow> lease_inv (snd (new_lease l t))"
  by (frule lease_inv_fresh, rule lease_invI) (auto simp: lease_inv_def less_Suc_eq)

lemma new_lease_lookup [simp]:
  "lease_inv t \<Longrightarrow> lease_of (snd (new_lease l t)) mac = lease_of t mac"
  "lease_inv t \<Longrightarrow> lease_at (snd (new_lease l t)) ip = lease_at t ip"
  by (frule lease_inv_fresh; auto simp: lease_of_def lease_at_def intro!: map_option_cong)+

text \<open>Storing a new lease.\<close>

definition store_lease :: "lease \<Rightarrow> table \<Rightarrow> table" where
  "store_lease l t = (let (r, t') = new_lease l t in putLease r t')"

lemma store_lease_alt: "store_lease l t = putLease (tb_lnext t) (snd (new_lease l t))"
  by (simp add: store_lease_def new_lease_def)

lemma store_lease_lookup:
  assumes "lease_inv t"
  shows "lease_at (store_lease l t) ip =
      (if ip = l_ip l then Some l
       else case lease_of t (l_mac l) of Some old \<Rightarrow> if l_ip old = ip then None else lease_at t ip | None \<Rightarrow> lease_at t ip)"
    and "lease_of (store_lease l t) mac =
      (if mac = l_mac l then Some l
       else case lease_at t (l_ip l) of Some x \<Rightarrow> if l_mac x = mac then None else lease_of t mac | None \<Rightarrow> lease_of t mac)"
proof -
  let ?t = "snd (new_lease l t)"
  have inv: "lease_inv ?t" using assms by (rule new_lease_lease_inv)
  have l: "l = tb_lheap ?t (tb_lnext t)" by simp
  note look = putLease_lookup [OF inv l]
  have same: "map_option (tb_lheap ?t) (fmlookup (tb_byIP t) ip) = lease_at t ip"
      "map_option (tb_lheap ?t) (fmlookup (tb_leases t) mac) = lease_of t mac"
    using new_lease_lookup [OF assms, of l] by (simp_all add: lease_at_def lease_of_def)
  show "lease_at (store_lease l t) ip =
      (if ip = l_ip l then Some l
       else case lease_of t (l_mac l) of Some old \<Rightarrow> if l_ip old = ip then None else lease_at t ip | None \<Rightarrow> lease_at t ip)"
    using same assms by (auto simp: store_lease_alt lease_at_def [of "putLease _ _"] look split: option.splits)
  show "lease_of (store_lease l t) mac =
      (if mac = l_mac l then Some l
       else case lease_at t (l_ip l) of Some x \<Rightarrow> if l_mac x = mac then None else lease_of t mac | None \<Rightarrow> lease_of t mac)"
    using same assms by (auto simp: store_lease_alt lease_of_def [of "putLease _ _"] look split: option.splits)
qed

subsection \<open>Reservations\<close>

lemma dropStatic_keeps [simp]:
  "tb_lheap (dropStatic mac t) = tb_lheap t" "tb_lnext (dropStatic mac t) = tb_lnext t" "tb_sheap (dropStatic mac t) = tb_sheap t"
  "tb_snext (dropStatic mac t) = tb_snext t" "tb_leases (dropStatic mac t) = tb_leases t" "tb_byIP (dropStatic mac t) = tb_byIP t"
  "tb_quarantine (dropStatic mac t) = tb_quarantine t" "tb_offers (dropStatic mac t) = tb_offers t" "tb_offerIP (dropStatic mac t) = tb_offerIP t"
  by (simp_all add: dropStatic_def Let_def split: option.splits)

lemma dropStatic_statics [simp]: "tb_statics (dropStatic mac t) = fmdrop mac (tb_statics t)"
  by (rule fmap_ext) (auto simp: dropStatic_def Let_def split: option.splits)

lemma dropStatic_lookup:
  assumes "static_inv t"
  shows "fmlookup (tb_staticIP (dropStatic mac t)) ip =
      (case fmlookup (tb_staticIP t) ip of Some r \<Rightarrow> if s_mac (tb_sheap t r) = mac then None else Some r | None \<Rightarrow> None)"
    and "fmlookup (tb_staticCID (dropStatic mac t)) cid =
      (case fmlookup (tb_staticCID t) cid of Some r \<Rightarrow> if s_mac (tb_sheap t r) = mac then None else Some r | None \<Rightarrow> None)"
proof -
  have ipl: "fmlookup (tb_staticIP (dropStatic mac t)) ip = (case fmlookup (tb_statics t) mac of None \<Rightarrow> fmlookup (tb_staticIP t) ip
      | Some r \<Rightarrow> if fmlookup (tb_staticIP t) ip = Some r \<and> s_ip (tb_sheap t r) = ip then None else fmlookup (tb_staticIP t) ip)"
    by (auto simp: dropStatic_def Let_def split: option.split)
  have cidl: "fmlookup (tb_staticCID (dropStatic mac t)) cid = (case fmlookup (tb_statics t) mac of None \<Rightarrow> fmlookup (tb_staticCID t) cid
      | Some r \<Rightarrow> if fmlookup (tb_staticCID t) cid = Some r \<and> s_clientID (tb_sheap t r) = cid then None else fmlookup (tb_staticCID t) cid)"
    by (auto simp: dropStatic_def Let_def split: option.split)
  have mac: "fmlookup (tb_statics t) mac = Some r \<Longrightarrow> s_mac (tb_sheap t r) = mac" for r
    using assms by (simp add: static_inv_def)
  show "fmlookup (tb_staticIP (dropStatic mac t)) ip =
      (case fmlookup (tb_staticIP t) ip of Some r \<Rightarrow> if s_mac (tb_sheap t r) = mac then None else Some r | None \<Rightarrow> None)"
  proof (cases "fmlookup (tb_staticIP t) ip")
    case (Some r)
    then have "s_ip (tb_sheap t r) = ip" "fmlookup (tb_statics t) (s_mac (tb_sheap t r)) = Some r"
      using assms by (simp_all add: static_inv_def)
    then show ?thesis using Some mac by (auto simp: ipl split: option.split)
  qed (simp add: ipl split: option.split)
  show "fmlookup (tb_staticCID (dropStatic mac t)) cid =
      (case fmlookup (tb_staticCID t) cid of Some r \<Rightarrow> if s_mac (tb_sheap t r) = mac then None else Some r | None \<Rightarrow> None)"
  proof (cases "fmlookup (tb_staticCID t) cid")
    case (Some r)
    then have "s_clientID (tb_sheap t r) = cid" "fmlookup (tb_statics t) (s_mac (tb_sheap t r)) = Some r"
      using assms by (simp_all add: static_inv_def)
    then show ?thesis using Some mac by (auto simp: cidl split: option.split)
  qed (simp add: cidl split: option.split)
qed

lemma dropStatic_static_inv: "static_inv t \<Longrightarrow> static_inv (dropStatic mac t)"
  by (auto simp: static_inv_def [of "dropStatic mac t"] dropStatic_lookup split: option.splits if_splits)
    (auto simp: static_inv_def)

lemma putStatic_keeps [simp]:
  "tb_lheap (putStatic r t) = tb_lheap t" "tb_lnext (putStatic r t) = tb_lnext t" "tb_sheap (putStatic r t) = tb_sheap t"
  "tb_snext (putStatic r t) = tb_snext t" "tb_leases (putStatic r t) = tb_leases t" "tb_byIP (putStatic r t) = tb_byIP t"
  "tb_quarantine (putStatic r t) = tb_quarantine t" "tb_offers (putStatic r t) = tb_offers t" "tb_offerIP (putStatic r t) = tb_offerIP t"
  by (simp_all add: putStatic_def Let_def)

lemma putStatic_static_inv:
  assumes "static_inv t" and "r < tb_snext t"
  shows "static_inv (putStatic r t)"
proof -
  define t1 where "t1 = dropStatic (s_mac (tb_sheap t r)) t"
  have inv: "static_inv t1" "fmlookup (tb_statics t1) (s_mac (tb_sheap t r)) = None" "tb_sheap t1 = tb_sheap t" "tb_snext t1 = tb_snext t"
    using dropStatic_static_inv [OF assms(1)] by (simp_all add: t1_def)
  then have neq: "fmlookup (tb_staticIP t1) ip = Some r' \<Longrightarrow> s_mac (tb_sheap t r') \<noteq> s_mac (tb_sheap t r)"
      "fmlookup (tb_staticCID t1) cid = Some r' \<Longrightarrow> s_mac (tb_sheap t r') \<noteq> s_mac (tb_sheap t r)" for ip cid r'
    by (metis static_inv_def option.distinct(1))+
  show ?thesis
    using inv assms(2) neq unfolding static_inv_def [of "putStatic r t"]
    by (auto simp: putStatic_def Let_def t1_def [symmetric] static_inv_def split: if_splits)
qed

subsection \<open>Expiry and room\<close>

lemma lease_of_dropLease: "lease_of (dropLease mac t) m = (if m = mac then None else lease_of t m)"
  by (simp add: lease_of_def)

lemma lease_of_dropOffer [simp]: "lease_of (dropOffer mac t) m = lease_of t m" "lease_at (dropOffer mac t) ip = lease_at t ip"
  by (simp_all add: lease_of_def lease_at_def)

lemma lease_of_putOffer [simp]: "lease_of (putOffer mac ip u t) m = lease_of t m" "lease_at (putOffer mac ip u t) a = lease_at t a"
  by (simp_all add: lease_of_def lease_at_def)

lemma lease_of_mac: "lease_inv t \<Longrightarrow> lease_of t mac = Some l \<Longrightarrow> l_mac l = mac"
  by (auto simp: lease_of_def dest: lease_inv_macD)

lemma lease_at_ip: "lease_inv t \<Longrightarrow> lease_at t ip = Some l \<Longrightarrow> l_ip l = ip"
  by (auto simp: lease_at_def dest: lease_inv_ipD)

lemma lease_of_at: "lease_inv t \<Longrightarrow> lease_of t mac = Some l \<Longrightarrow> lease_at t (l_ip l) = Some l"
  by (auto simp: lease_of_def lease_at_def dest: lease_inv_macD)

lemma lease_at_of: "lease_inv t \<Longrightarrow> lease_at t ip = Some l \<Longrightarrow> lease_of t (l_mac l) = Some l"
  by (auto simp: lease_of_def lease_at_def dest: lease_inv_ipD)

lemma table_inv_dropOffer: "table_inv t \<Longrightarrow> table_inv (dropOffer mac t)"
  by (simp add: table_inv_def dropOffer_offer_inv) (simp add: lease_inv_def static_inv_def)

lemma table_inv_putOffer: "table_inv t \<Longrightarrow> table_inv (putOffer mac ip u t)"
  by (simp add: table_inv_def putOffer_offer_inv) (simp add: lease_inv_def static_inv_def)

lemma table_inv_dropLease: "table_inv t \<Longrightarrow> table_inv (dropLease mac t)"
  by (simp add: table_inv_def dropLease_lease_inv) (simp add: offer_inv_def static_inv_def)

lemma table_inv_store_lease: "table_inv t \<Longrightarrow> table_inv (store_lease l t)"
proof -
  assume inv: "table_inv t"
  let ?t = "snd (new_lease l t)"
  have "lease_inv ?t" "offer_inv ?t" "static_inv ?t"
    using inv new_lease_lease_inv by (auto simp: table_inv_def offer_inv_def static_inv_def)
  then show ?thesis
    by (simp add: store_lease_alt table_inv_def putLease_lease_inv putLease_offer_inv) (simp add: static_inv_def)
qed

lemma table_inv_dropStatic: "table_inv t \<Longrightarrow> table_inv (dropStatic mac t)"
  by (simp add: table_inv_def dropStatic_static_inv) (simp add: lease_inv_def offer_inv_def)

lemma table_inv_putStatic: "table_inv t \<Longrightarrow> table_inv (putStatic (tb_snext t) (snd (new_static st t)))"
proof -
  assume inv: "table_inv t"
  let ?t = "snd (new_static st t)"
  have less: "fmlookup (tb_statics t) mac = Some r \<Longrightarrow> r < tb_snext t" for mac r
    using inv by (auto simp: table_inv_def static_inv_def)
  have "fmlookup (tb_staticIP t) ip \<noteq> Some (tb_snext t)" "fmlookup (tb_staticCID t) cid \<noteq> Some (tb_snext t)"
      "fmlookup (tb_statics t) mac \<noteq> Some (tb_snext t)" for ip cid mac
    using inv less by (metis table_inv_def static_inv_def less_irrefl)+
  then have "static_inv ?t"
    using inv by (auto simp: table_inv_def static_inv_def new_static_def less_Suc_eq)
  then have "static_inv (putStatic (tb_snext t) ?t)"
    by (rule putStatic_static_inv) (simp add: new_static_def)
  moreover have "lease_inv ?t \<and> offer_inv ?t"
    using inv by (simp add: table_inv_def lease_inv_def offer_inv_def new_static_def)
  ultimately show ?thesis by (simp add: table_inv_def) (simp add: lease_inv_def offer_inv_def)
qed

lemma table_inv_quarantine: "table_inv t \<Longrightarrow> table_inv (t\<lparr>tb_quarantine := q\<rparr>)"
  by (simp add: table_inv_def lease_inv_def offer_inv_def static_inv_def)

lemma fold_invariant: "P t \<Longrightarrow> (\<And>x t. P t \<Longrightarrow> P (f x t)) \<Longrightarrow> P (fold f xs t)"
  by (induction xs arbitrary: t) auto

lemma expire_table_inv:
  assumes "table_inv t"
  shows "table_inv (fst (expire os qs ls now t))"
proof -
  have os: "table_inv (fold (expire_offer now) os t)"
    using assms by (rule fold_invariant) (auto simp: expire_offer_def table_inv_dropOffer split: option.split)
  have qs: "table_inv (fold (expire_quarantine now) qs (fold (expire_offer now) os t))"
    using os by (rule fold_invariant) (auto simp: expire_quarantine_def table_inv_quarantine split: option.split)
  show ?thesis
    unfolding expire_def Let_def
    by (rule fold_invariant [where P = "\<lambda>st. table_inv (fst st)"])
      (use qs in \<open>auto simp: expire_lease_def table_inv_dropLease split: option.split\<close>)
qed

text \<open>A lease goes only when it expired more than the retention time ago.\<close>

lemma expire_keeps_lease:
  assumes "lease_of t mac = Some l" and "\<not> time_Sub now (l_expires l) > retention"
  shows "lease_of (fst (expire os qs ls now t)) mac = Some l"
proof -
  have os: "lease_of (fold (expire_offer now) os t) mac = Some l"
    using assms(1) by (rule fold_invariant) (auto simp: expire_offer_def split: option.split)
  have qs: "lease_of (fold (expire_quarantine now) qs (fold (expire_offer now) os t)) mac = Some l"
    using os by (rule fold_invariant) (auto simp: expire_quarantine_def lease_of_def split: option.split)
  show ?thesis
    unfolding expire_def Let_def
    by (rule fold_invariant [where P = "\<lambda>st. lease_of (fst st) mac = Some l"])
      (use qs assms(2) in \<open>auto simp: expire_lease_def lease_of_dropLease split: option.split\<close>)
qed

lemma oldest_expired_fold:
  assumes "fold (oldest_expired t now) order old = Some l"
  shows "old = Some l \<or> (\<exists>mac\<in>set order. lease_of t mac = Some l) \<and> \<not> active l now"
  using assms
proof (induction order arbitrary: old)
  case (Cons m order)
  then show ?case
    using Cons.IH [of "oldest_expired t now m old"] by (auto simp: oldest_expired_def split: option.splits if_splits)
qed simp

lemma oldest_expired_None:
  "fold (oldest_expired t now) order old = None \<longleftrightarrow> old = None \<and> (\<forall>mac\<in>set order. \<forall>l. lease_of t mac = Some l \<longrightarrow> active l now)"
  by (induction order arbitrary: old) (auto simp: oldest_expired_def split: option.splits)

lemma makeRoom_keeps:
  assumes "makeRoom order now t = Some (d, t')" and "lease_inv t" and "lease_of t mac = Some l" and "active l now"
  shows "lease_of t' mac = Some l"
  using assms oldest_expired_fold [of t now order None] lease_of_mac [OF assms(2)]
  by (fastforce simp: makeRoom_def lease_of_dropLease split: if_splits option.splits)

lemma makeRoom_table_inv: "makeRoom order now t = Some (d, t') \<Longrightarrow> table_inv t \<Longrightarrow> table_inv t'"
  by (auto simp: makeRoom_def table_inv_dropLease split: if_splits option.splits)

lemma makeRoom_keeps_maps:
  "makeRoom order now t = Some (d, t') \<Longrightarrow> tb_sheap t' = tb_sheap t \<and> tb_statics t' = tb_statics t \<and> tb_staticIP t' = tb_staticIP t
    \<and> tb_staticCID t' = tb_staticCID t \<and> tb_quarantine t' = tb_quarantine t \<and> tb_offers t' = tb_offers t \<and> tb_offerIP t' = tb_offerIP t"
  by (auto simp: makeRoom_def split: if_splits option.splits)

section \<open>Addresses offered\<close>

lemma freeFor_iff:
  "freeFor t ip mac res now \<longleftrightarrow> \<not> reserved_for_other t ip res \<and> \<not> leased_to_other t ip mac now
    \<and> \<not> offered_to_other t ip mac now \<and> \<not> quarantined t ip now"
  by (simp add: freeFor_def)

lemma addr_range_NoAddr [simp]: "addr_range NoAddr e = []"
  by (subst addr_range.simps) (simp add: addr_IsValid_def)

lemma set_addr_range: "set (addr_range (V4 s) (V4 e)) = V4 ` {s..e}"
proof (induction "2 ^ 32 - unat s" arbitrary: s rule: less_induct)
  case less
  show ?case
  proof (cases "s \<le> e")
    case False
    then show ?thesis by (subst addr_range.simps) auto
  next
    case True
    show ?thesis
    proof (cases "s + 1 = 0")
      case True
      then have s: "s = - 1" by (simp add: eq_neg_iff_add_eq_0)
      then have e: "e = - 1" using \<open>s \<le> e\<close> by (simp add: word_order.extremum_unique)
      show ?thesis unfolding s e by (subst addr_range.simps) (simp add: addr_IsValid_def)
    next
      case False
      have "2 ^ 32 - unat (s + 1) < 2 ^ 32 - unat s" using word_succ_left [OF False] by simp
      then have "set (addr_range (V4 (s + 1)) (V4 e)) = V4 ` {s + 1..e}" by (rule less)
      moreover have "{s..e} = insert s {s + 1..e}"
        using True False unatSuc [of s] by (auto simp: word_le_nat_alt add.commute Suc_le_eq le_less word_unat_eq_iff)
      ultimately show ?thesis
        using True False by (subst addr_range.simps) (auto simp: addr_IsValid_def)
    qed
  qed
qed

lemma dynamic_in_range:
  assumes "p_start p = V4 s" "p_end p = V4 e" "Is4 ip" "dynamic p ip"
  shows "ip \<in> set (addr_range (p_start p) (p_end p))"
  using assms by (cases ip) (auto simp: dynamic_def set_addr_range not_less)

lemma oldest_reusable_fold:
  assumes "fold (oldest_reusable t p mac res tried now) as old = Some l"
  shows "old = Some l \<or> (\<exists>a\<in>set as. lease_at t a = Some l \<and> a \<notin> tried \<and> dynamic p a \<and> freeFor t a mac res now)"
  using assms
proof (induction as arbitrary: old)
  case (Cons a as)
  then show ?case
    using Cons.IH [of "oldest_reusable t p mac res tried now a old"] by (auto simp: oldest_reusable_def split: option.splits if_splits)
qed simp

lemma oldest_reusable_None:
  "fold (oldest_reusable t p mac res tried now) as old = None \<longleftrightarrow>
    old = None \<and> (\<forall>a\<in>set as. lease_at t a \<noteq> None \<longrightarrow> a \<in> tried \<or> \<not> dynamic p a \<or> \<not> freeFor t a mac res now)"
  by (induction as arbitrary: old) (auto simp: oldest_reusable_def split: option.splits)

text \<open>Where an address that is offered comes from.\<close>

lemma candidate_cases:
  assumes "candidate t p mac res requested tried now = Some (ip, check)" and "lease_inv t"
  shows "ip \<notin> tried \<and>
    ((\<exists>r. res = Some r \<and> ip = s_ip (tb_sheap t r) \<and> usable p ip \<and> \<not> quarantined t ip now \<and> \<not> leased_to_other t ip mac now \<and> \<not> check)
     \<or> dynamic p ip \<and> freeFor t ip mac res now \<and> (check \<or> (\<exists>l. lease_of t mac = Some l \<and> l_ip l = ip)))"
proof (cases "own_reserved t p mac res tried now")
  case (Some a)
  then show ?thesis using assms(1) by (auto simp: candidate_def own_reserved_def Let_def split: option.splits if_splits)
next
  case no_res: None
  show ?thesis
  proof (cases "own_leased t p mac res tried now")
    case (Some a)
    then show ?thesis using assms(1) no_res by (auto simp: candidate_def own_leased_def split: option.splits if_splits)
  next
    case None
    then consider "fresh_for t p mac res tried now ip" "check"
      | l where "fold (oldest_reusable t p mac res tried now) (addr_range (p_start p) (p_end p)) None = Some l" "ip = l_ip l" "check"
      using assms(1) no_res by (auto simp: candidate_def find_Some_iff split: option.splits if_splits)
    then show ?thesis
    proof cases
      case 2
      then show ?thesis using oldest_reusable_fold [OF 2(1)] lease_at_ip [OF assms(2)] by auto
    qed (auto simp: fresh_for_def)
  qed
qed

text \<open>The search fails only when there is no address left: every address of the range that was not tried is taken.\<close>

lemma candidate_None:
  assumes "candidate t p mac res requested tried now = None" and "a \<in> set (addr_range (p_start p) (p_end p))"
    and "a \<notin> tried" and "dynamic p a"
  shows "\<not> freeFor t a mac res now"
proof
  assume free: "freeFor t a mac res now"
  have "find (fresh_for t p mac res tried now) (addr_range (p_start p) (p_end p)) = None"
    and none: "fold (oldest_reusable t p mac res tried now) (addr_range (p_start p) (p_end p)) None = None"
    using assms(1) by (auto simp: candidate_def split: option.splits if_splits)
  then have "retainedByOther t a mac"
    using assms free by (auto simp: find_None_iff fresh_for_def)
  then have "lease_at t a \<noteq> None" by (auto simp: retainedByOther_def split: option.splits)
  then show False
    using none assms free by (auto simp: oldest_reusable_None)
qed

lemma decideRequest_free:
  "decideRequest t p mac res want now \<in> {verdictAck, verdictCheck} \<Longrightarrow> Is4 want \<and> usable p want \<and> freeFor t want mac res now"
  by (auto simp: decideRequest_def freeFor_iff split: if_splits)

end
