(* ===== verification/DhcpNames.thy ===== *)
theory DhcpNames
  imports DhcpTable Decimals
begin

text \<open>
  The DNS names of the leases, \<^verbatim>\<open>internal/dhcp/names.go\<close>: which client holds a host name, and the snapshot
  the DNS server reads.
\<close>

definition maxNameTTL :: int where "maxNameTTL = 300"

record nameRec =
  nr_name :: string
  nr_ip :: addr
  nr_expires :: instant
  nr_generated :: bool

record names =
  n_byName :: "(string, nameRec) fmap"
  n_byIP :: "(addr, nameRec) fmap"
  n_display :: "(addr, string) fmap"

definition emptyNames :: names where
  "emptyNames = \<lparr>n_byName = fmempty, n_byIP = fmempty, n_display = fmempty\<rparr>"

text \<open>\<^verbatim>\<open>generatedName\<close>; the addresses of leases are IPv4.\<close>

definition generatedName :: "addr \<Rightarrow> string" where
  "generatedName ip = (case ip of V4 v \<Rightarrow> strings_Join ''-'' (map (\<lambda>b. decimal (unat b)) (put32 v)) | _ \<Rightarrow> [])"

definition effectiveName :: "table \<Rightarrow> lease \<Rightarrow> string" where
  "effectiveName t l =
     (case reservationOf t l of
        Some r \<Rightarrow> if s_hostname (tb_sheap t r) \<noteq> [] then s_hostname (tb_sheap t r) else l_hostname l
      | None \<Rightarrow> l_hostname l)"

definition assign_static :: "table \<Rightarrow> instant \<Rightarrow> sref \<Rightarrow> (string, string) fmap \<Rightarrow> (string, string) fmap" where
  "assign_static t now r next =
     (let st = tb_sheap t r in
      if s_hostname st \<noteq> [] \<and> fmlookup next (s_hostname st) = None then
        fmupd (s_hostname st)
          (case lease_at t (s_ip st) of
             Some l \<Rightarrow> if active l now \<and> reservationOf t l = Some r then l_mac l else s_mac st
           | None \<Rightarrow> s_mac st) next
      else next)"

definition assign_prev :: "table \<Rightarrow> instant \<Rightarrow> (string, string) fmap \<Rightarrow> string \<Rightarrow> (string, string) fmap \<Rightarrow> (string, string) fmap" where
  "assign_prev t now prev name next =
     (if fmlookup next name \<noteq> None then next
      else case fmlookup prev name of
          None \<Rightarrow> next
        | Some mac \<Rightarrow>
            case lease_of t mac of
              Some l \<Rightarrow> if active l now \<and> effectiveName t l = name then fmupd name mac next else next
            | None \<Rightarrow> next)"

definition assign_lease :: "table \<Rightarrow> instant \<Rightarrow> lease \<Rightarrow> (string, string) fmap \<Rightarrow> (string, string) fmap" where
  "assign_lease t now l next =
     (let name = effectiveName t l in
      if name \<noteq> [] \<and> fmlookup next name = None \<and> active l now then fmupd name (l_mac l) next else next)"

text \<open>The loop over the previous holders decides every name by itself, so its order does not matter.\<close>

definition sortedStatics :: "table \<Rightarrow> sref list" where
  "sortedStatics t = sort_key (\<lambda>r. s_mac (tb_sheap t r))
     (map (\<lambda>mac. the (fmlookup (tb_statics t) mac)) (sorted_list_of_fset (fmdom (tb_statics t))))"

definition assignNames :: "table \<Rightarrow> (string, string) fmap \<Rightarrow> instant \<Rightarrow> (string, string) fmap" where
  "assignNames t prev now =
     (let next = fold (assign_static t now) (sortedStatics t) fmempty;
          next = fold (assign_prev t now prev) (sorted_list_of_fset (fmdom prev)) next in
      fold (assign_lease t now) (sortedLeases t) next)"

definition add_name :: "table \<Rightarrow> (string, string) fmap \<Rightarrow> string \<Rightarrow> bool \<Rightarrow> bool \<Rightarrow> instant \<Rightarrow> lease \<Rightarrow> names \<Rightarrow> names" where
  "add_name t holders domain register generate now l n =
     (if \<not> active l now then n
      else let host = effectiveName t l;
               n = (if host \<noteq> [] then n\<lparr>n_display := fmupd (l_ip l) host (n_display n)\<rparr> else n);
               generated = (host = [] \<or> (case fmlookup holders host of Some mac \<Rightarrow> mac | None \<Rightarrow> []) \<noteq> l_mac l) in
        if \<not> register \<or> domain = [] then n
        else if generated \<and> \<not> generate then n
        else let fq = (if generated then generatedName (l_ip l) else host) @ ''.'' @ domain in
          if length fq > 253 then n
          else if fmlookup (n_byName n) fq \<noteq> None \<and> generated then n
          else let rec = \<lparr>nr_name = fq, nr_ip = l_ip l, nr_expires = l_expires l, nr_generated = generated\<rparr>;
                   n = n\<lparr>n_byName := fmupd fq rec (n_byName n), n_byIP := fmupd (l_ip l) rec (n_byIP n)\<rparr> in
            if \<not> generated then n\<lparr>n_display := fmupd (l_ip l) fq (n_display n)\<rparr> else n)"

definition buildNames :: "table \<Rightarrow> (string, string) fmap \<Rightarrow> string \<Rightarrow> bool \<Rightarrow> bool \<Rightarrow> instant \<Rightarrow> names" where
  "buildNames t holders domain register generate now =
     fold (add_name t holders domain register generate now) (sortedLeases t) emptyNames"

definition nameRec_ttl :: "nameRec \<Rightarrow> instant \<Rightarrow> int option" where
  "nameRec_ttl r now =
     (let rem = time_Sub (nr_expires r) now in
      if rem < Second then None else Some (min (rem div Second) maxNameTTL))"

definition LeaseAddr :: "names \<Rightarrow> instant \<Rightarrow> string \<Rightarrow> (addr \<times> int) option" where
  "LeaseAddr n now name =
     (case fmlookup (n_byName n) name of
        None \<Rightarrow> None
      | Some r \<Rightarrow> map_option (\<lambda>ttl. (nr_ip r, ttl)) (nameRec_ttl r now))"

definition LeasePTR :: "names \<Rightarrow> instant \<Rightarrow> addr \<Rightarrow> (string \<times> int) option" where
  "LeasePTR n now ip =
     (case fmlookup (n_byIP n) (Unmap ip) of
        None \<Rightarrow> None
      | Some r \<Rightarrow> map_option (\<lambda>ttl. (nr_name r, ttl)) (nameRec_ttl r now))"

definition LeaseName :: "names \<Rightarrow> addr \<Rightarrow> string" where
  "LeaseName n ip = (case fmlookup (n_display n) (Unmap ip) of Some name \<Rightarrow> name | None \<Rightarrow> [])"

section \<open>Who holds a name\<close>

lemma set_values: "x \<in> (\<lambda>k. f (the (fmlookup m k))) ` fset (fmdom m) \<longleftrightarrow> (\<exists>k y. fmlookup m k = Some y \<and> x = f y)"
proof
  assume "\<exists>k y. fmlookup m k = Some y \<and> x = f y"
  then obtain k y where k: "fmlookup m k = Some y" "x = f y" by blast
  from k(1) have "k |\<in>| fmdom m" by (rule fmdomI)
  with k show "x \<in> (\<lambda>k. f (the (fmlookup m k))) ` fset (fmdom m)" by (intro image_eqI [of _ _ k]) simp_all
qed (auto simp: fmlookup_dom_iff, blast)

lemma set_sortedLeases: "l \<in> set (sortedLeases t) \<longleftrightarrow> (\<exists>mac. lease_of t mac = Some l)"
  using set_values [of l "tb_lheap t" "tb_leases t"] by (simp add: sortedLeases_def lease_of_def eq_commute [of _ l])

lemma set_sortedStatics: "r \<in> set (sortedStatics t) \<longleftrightarrow> (\<exists>mac. fmlookup (tb_statics t) mac = Some r)"
  using set_values [of r id "tb_statics t"] by (simp add: sortedStatics_def)

text \<open>A reservation holds its name for its client, or for the client whose lease on its address matched it.\<close>

definition reserved_holder :: "table \<Rightarrow> instant \<Rightarrow> string \<Rightarrow> string \<Rightarrow> bool" where
  "reserved_holder t now host mac \<longleftrightarrow>
     (\<exists>r\<in>set (sortedStatics t). s_hostname (tb_sheap t r) = host \<and>
        (mac = s_mac (tb_sheap t r) \<or> (\<exists>l. lease_at t (s_ip (tb_sheap t r)) = Some l \<and> reservationOf t l = Some r \<and> mac = l_mac l)))"

lemma assign_static_holder:
  assumes "r \<in> set (sortedStatics t)" and "\<And>h m. fmlookup next h = Some m \<Longrightarrow> reserved_holder t now h m"
    and "fmlookup (assign_static t now r next) h = Some m"
  shows "reserved_holder t now h m"
proof (cases "fmlookup next h = Some m")
  case False
  then have "s_hostname (tb_sheap t r) = h" and "m = (case lease_at t (s_ip (tb_sheap t r)) of
      Some l \<Rightarrow> if active l now \<and> reservationOf t l = Some r then l_mac l else s_mac (tb_sheap t r) | None \<Rightarrow> s_mac (tb_sheap t r))"
    using assms(3) by (simp_all add: assign_static_def Let_def split: if_splits)
  then show ?thesis
    using assms(1) by (auto simp: reserved_holder_def split: option.splits if_splits)
qed (use assms(2) in simp)

lemma assign_statics:
  assumes "set rs \<subseteq> set (sortedStatics t)" and "\<And>h m. fmlookup next h = Some m \<Longrightarrow> reserved_holder t now h m"
  shows "(\<forall>h m. fmlookup (fold (assign_static t now) rs next) h = Some m \<longrightarrow> reserved_holder t now h m)
    \<and> (\<forall>r\<in>set rs. s_hostname (tb_sheap t r) \<noteq> [] \<longrightarrow> fmlookup (fold (assign_static t now) rs next) (s_hostname (tb_sheap t r)) \<noteq> None)
    \<and> (\<forall>h. fmlookup next h \<noteq> None \<longrightarrow> fmlookup (fold (assign_static t now) rs next) h \<noteq> None)"
  using assms
proof (induction rs arbitrary: "next")
  case (Cons r rs)
  let ?n = "assign_static t now r next"
  have hold: "fmlookup ?n h = Some m \<Longrightarrow> reserved_holder t now h m" for h m
    using assign_static_holder [of r t "next"] Cons.prems by auto
  have mono: "fmlookup next h \<noteq> None \<Longrightarrow> fmlookup ?n h \<noteq> None" for h
    by (simp add: assign_static_def Let_def)
  have hit: "s_hostname (tb_sheap t r) \<noteq> [] \<Longrightarrow> fmlookup ?n (s_hostname (tb_sheap t r)) \<noteq> None"
    by (simp add: assign_static_def Let_def)
  show ?case using Cons.IH [of ?n] Cons.prems(1) hold mono hit by auto
qed simp

lemma assign_keeps:
  "fmlookup next h = Some m \<Longrightarrow> fmlookup (fold (assign_prev t now prev) ns next) h = Some m"
  "fmlookup next h = Some m \<Longrightarrow> fmlookup (fold (assign_lease t now) ls next) h = Some m"
  by (rule fold_invariant; auto simp: assign_prev_def assign_lease_def Let_def split: option.split)+

lemma assignNames_reserved:
  assumes "fmlookup (tb_statics t) mac = Some r" and "s_hostname (tb_sheap t r) = h" and "h \<noteq> []"
  shows "\<exists>m. fmlookup (assignNames t prev now) h = Some m \<and> reserved_holder t now h m"
proof -
  have r: "r \<in> set (sortedStatics t)" using assms(1) set_sortedStatics by blast
  have "fmlookup (fold (assign_static t now) (sortedStatics t) fmempty) h \<noteq> None
      \<and> (\<forall>m. fmlookup (fold (assign_static t now) (sortedStatics t) fmempty) h = Some m \<longrightarrow> reserved_holder t now h m)"
    using assign_statics [of "sortedStatics t" t fmempty now] r assms(2,3) by auto
  then obtain m where "fmlookup (fold (assign_static t now) (sortedStatics t) fmempty) h = Some m" "reserved_holder t now h m"
    by auto
  then show ?thesis by (auto simp: assignNames_def Let_def intro!: exI [of _ m] assign_keeps)
qed

section \<open>What the names answer\<close>

definition name_ok :: "table \<Rightarrow> (string, string) fmap \<Rightarrow> string \<Rightarrow> instant \<Rightarrow> string \<Rightarrow> nameRec \<Rightarrow> bool" where
  "name_ok t holders domain now fq r \<longleftrightarrow>
     (\<exists>l\<in>set (sortedLeases t). active l now \<and> nr_ip r = l_ip l \<and> nr_expires r = l_expires l \<and>
        (fq = generatedName (l_ip l) @ ''.'' @ domain
         \<or> (\<exists>h. h \<noteq> [] \<and> fq = h @ ''.'' @ domain \<and> effectiveName t l = h \<and> (case fmlookup holders h of Some m \<Rightarrow> m | None \<Rightarrow> []) = l_mac l)))"

lemma add_name_ok:
  assumes "l \<in> set (sortedLeases t)" and "\<And>fq r. fmlookup (n_byName n) fq = Some r \<Longrightarrow> name_ok t holders domain now fq r"
    and "fmlookup (n_byName (add_name t holders domain register generate now l n)) fq = Some r"
  shows "name_ok t holders domain now fq r"
proof (cases "fmlookup (n_byName n) fq = Some r")
  case False
  then show ?thesis
    using assms(1,3) unfolding name_ok_def
    by (intro bexI [of _ l]) (auto simp: add_name_def Let_def split: if_splits)
qed (use assms(2) in simp)

lemma buildNames_ok:
  assumes "fmlookup (n_byName (buildNames t holders domain register generate now)) fq = Some r"
  shows "name_ok t holders domain now fq r"
proof -
  have "\<forall>fq r. fmlookup (n_byName (fold (add_name t holders domain register generate now) ls n)) fq = Some r \<longrightarrow> name_ok t holders domain now fq r"
    if "set ls \<subseteq> set (sortedLeases t)" "\<forall>fq r. fmlookup (n_byName n) fq = Some r \<longrightarrow> name_ok t holders domain now fq r" for ls n
    using that
  proof (induction ls arbitrary: n)
    case (Cons l ls)
    have "\<forall>fq r. fmlookup (n_byName (add_name t holders domain register generate now l n)) fq = Some r \<longrightarrow> name_ok t holders domain now fq r"
      using add_name_ok [of l t n] Cons.prems by auto
    then show ?case using Cons.IH Cons.prems(1) by simp
  qed simp
  from this [of "sortedLeases t" emptyNames] show ?thesis using assms by (simp add: buildNames_def emptyNames_def)
qed

lemma nameRec_ttl_bounds:
  assumes "nameRec_ttl r now = Some ttl"
  shows "1 \<le> ttl \<and> ttl \<le> 300 \<and> ttl * Second \<le> nr_expires r - now"
proof -
  let ?rem = "time_Sub (nr_expires r) now"
  have rem: "Second \<le> ?rem" "ttl = min (?rem div Second) 300"
    using assms by (auto simp: nameRec_ttl_def Let_def maxNameTTL_def split: if_splits)
  then have "?rem \<le> nr_expires r - now"
    by (auto simp: time_Sub_def min_duration_def max_duration_def Second_def)
  moreover have "ttl * Second \<le> ?rem div Second * Second"
    using rem(2) by (intro mult_right_mono) (auto simp: Second_def)
  moreover have "?rem div Second * Second \<le> ?rem" by (simp add: Second_def)
  moreover have "1 \<le> ?rem div Second" using rem(1) by (simp add: Second_def pos_imp_zdiv_pos_iff int_one_le_iff_zero_less)
  ultimately show ?thesis using rem(2) by simp
qed


definition w_lease :: lease where
  "w_lease = \<lparr>l_mac = ''02:00:00:00:00:01'', l_ip = V4 0xC0A80164, l_hostname = ''nas'', l_clientID = [], l_expires = Hour, l_updated = 0\<rparr>"


end
