(* ===== verification/DhcpServer.thy ===== *)
theory DhcpServer
  imports DhcpNames
begin

text \<open>
  The DHCPv4 server, \<^verbatim>\<open>internal/dhcp/server4.go\<close>, with its rate limiter (\<^verbatim>\<open>ratelimit.go\<close>), its exchange log
  (\<^verbatim>\<open>exchangelog.go\<close>) and the record of other servers (\<^verbatim>\<open>probe.go\<close>). Every handler is a function from the
  state of the service to its next state; the bytes written to the socket are appended to the state.
  Each message is handled as a whole: between the places where a handler gives up the lock no other handler runs.
  The database is written after the table changed and never read back, so it is not part of the state.
\<close>

section \<open>State and environment\<close>

definition msgDiscover :: u8 where "msgDiscover = 1"
definition msgRequest :: u8 where "msgRequest = 3"
definition msgDecline :: u8 where "msgDecline = 4"
definition msgRelease :: u8 where "msgRelease = 7"
definition msgInform :: u8 where "msgInform = 8"

lemmas msg_types = msgDiscover_def msgOffer_def msgRequest_def msgDecline_def msgAck_def msgNak_def msgRelease_def msgInform_def

definition maxConflictChecks :: nat where "maxConflictChecks = 4"
definition conflictWaits :: "nat list" where "conflictWaits = [5, 10, 15, 20]"
definition limitTotal :: nat where "limitTotal = 50"
definition limitPerMAC :: nat where "limitPerMAC = 5"
definition probeFresh :: duration where "probeFresh = 10 * Minute"
definition requestFresh :: duration where "requestFresh = 24 * Hour"
definition maxProbeServers :: nat where "maxProbeServers = 16"
definition maxOtherServers :: nat where "maxOtherServers = 32"
definition MaxLog :: nat where "MaxLog = 200"
definition broadcast4 :: addr where "broadcast4 = V4 0xFFFFFFFF"

record windowLimiter =
  wl_total :: nat
  wl_perKey :: nat
  wl_sec :: int
  wl_n :: nat
  wl_keys :: "(bytes, nat) fmap"

definition newWindowLimiter :: "nat \<Rightarrow> nat \<Rightarrow> windowLimiter" where
  "newWindowLimiter tot perKey = \<lparr>wl_total = tot, wl_perKey = perKey, wl_sec = 0, wl_n = 0, wl_keys = fmempty\<rparr>"

definition key_count :: "windowLimiter \<Rightarrow> bytes \<Rightarrow> nat" where
  "key_count l key = (case fmlookup (wl_keys l) key of Some n \<Rightarrow> n | None \<Rightarrow> 0)"

definition Unix :: "instant \<Rightarrow> int" where
  "Unix now = now div Second"

definition wl_allow :: "bytes \<Rightarrow> instant \<Rightarrow> windowLimiter \<Rightarrow> bool \<times> windowLimiter" where
  "wl_allow key now l =
     (let sec = Unix now;
          l = (if sec \<noteq> wl_sec l then l\<lparr>wl_sec := sec, wl_n := 0, wl_keys := fmempty\<rparr> else l) in
      if wl_n l \<ge> wl_total l \<or> wl_perKey l > 0 \<and> key_count l key \<ge> wl_perKey l then (False, l)
      else let l = l\<lparr>wl_n := wl_n l + 1\<rparr> in
        (True, if wl_perKey l > 0 then l\<lparr>wl_keys := fmupd key (key_count l key + 1) (wl_keys l)\<rparr> else l))"

record LogEntry =
  le_Time :: instant
  le_Kind :: string
  le_MAC :: string
  le_Address :: string
  le_Hostname :: string
  le_In :: string
  le_Out :: string
  le_Result :: string
  le_Reason :: string

definition no_LogEntry :: LogEntry where
  "no_LogEntry = \<lparr>le_Time = zero_time, le_Kind = [], le_MAC = [], le_Address = [], le_Hostname = [], le_In = [], le_Out = [],
     le_Result = [], le_Reason = []\<rparr>"

record exchangeLog =
  xl_ring :: "LogEntry list"
  xl_n :: nat
  xl_next :: nat

definition new_log :: exchangeLog where
  "new_log = \<lparr>xl_ring = replicate MaxLog no_LogEntry, xl_n = 0, xl_next = 0\<rparr>"

definition xl_add :: "LogEntry \<Rightarrow> exchangeLog \<Rightarrow> exchangeLog" where
  "xl_add e l = l\<lparr>xl_ring := (xl_ring l)[xl_next l := e], xl_next := (xl_next l + 1) mod MaxLog, xl_n := min (xl_n l + 1) MaxLog\<rparr>"

definition xl_list :: "int \<Rightarrow> exchangeLog \<Rightarrow> LogEntry list" where
  "xl_list limit l = map (\<lambda>i. xl_ring l ! ((xl_next l + MaxLog - i) mod MaxLog)) [1..<min (nat limit) (xl_n l) + 1]"

record otherServer =
  ot_iface :: string
  ot_address :: addr
  ot_serverID :: addr
  ot_source :: string
  ot_lastSeen :: instant

record ProbeServer =
  ps_Address :: string
  ps_ServerID :: string
  ps_Offer :: string

record probeRun =
  pr_xid :: u32
  pr_ifIndex :: int
  pr_self :: addr
  pr_found :: "ProbeServer list"
  pr_addrs :: "addr list"

record counters =
  ct_received :: nat
  ct_offers :: nat
  ct_acks :: nat
  ct_naks :: nat
  ct_declines :: nat
  ct_releases :: nat
  ct_informs :: nat
  ct_dropped :: nat

record ifaceState =
  if_name :: string
  if_index :: int
  if_self :: pfx
  if_problem :: string

record view =
  vw_enabled :: bool
  vw_iface :: ifaceState
  vw_pool :: pool
  vw_serving :: bool
  vw_leaseTime :: duration
  vw_opts :: "option_spec list"
  vw_onlyReserved :: bool
  vw_rapidCommit :: bool
  vw_ignoreOthers :: bool

record service =
  sv_t :: table
  sv_holders :: "(string, string) fmap"
  sv_names :: names
  sv_others :: "otherServer list"
  sv_limit4 :: windowLimiter
  sv_xlog :: exchangeLog
  sv_c :: counters
  sv_probe :: "probeRun option"
  sv_sent :: "(bytes \<times> addr) list"

text \<open>
  What a handler finds around it: the clock, the neighbour table (the \<open>i\<close>-th reading for an address; \<open>None\<close> without one),
  the socket (whether a datagram is written; \<open>None\<close> while it is closed), the settings, the order in which a range over the
  leases visits them, and the text of an address.
\<close>

record env =
  ev_now :: instant
  ev_neighbour :: "(addr \<Rightarrow> nat \<Rightarrow> string option) option"
  ev_socket :: "(bytes \<Rightarrow> addr \<Rightarrow> bool) option"
  ev_enabled :: bool
  ev_domain :: string
  ev_register :: bool
  ev_generate :: bool
  ev_order :: "string list"
  ev_String :: "addr \<Rightarrow> string"

section \<open>Helpers\<close>

definition macString :: "bytes \<Rightarrow> string option" where
  "macString a = (if a ! 0 AND 1 \<noteq> 0 \<or> a = replicate 6 0 then None else Some (hexColon a))"

definition addrString :: "env \<Rightarrow> addr \<Rightarrow> string" where
  "addrString ev a = (if \<not> addr_IsValid a \<or> IsUnspecified a then [] else ev_String ev a)"

definition messageName :: "u8 \<Rightarrow> string" where
  "messageName t =
     (if t = msgDiscover then ''DISCOVER'' else if t = msgRequest then ''REQUEST'' else if t = msgDecline then ''DECLINE''
      else if t = msgRelease then ''RELEASE'' else if t = msgInform then ''INFORM'' else ''UNKNOWN'')"

definition entry4 :: "message \<Rightarrow> string \<Rightarrow> string \<Rightarrow> LogEntry" where
  "entry4 m mac inn = no_LogEntry\<lparr>le_Kind := ''dhcpv4'', le_MAC := mac, le_Hostname := hostName m, le_In := inn\<rparr>"

definition logExchange :: "env \<Rightarrow> LogEntry \<Rightarrow> service \<Rightarrow> service" where
  "logExchange ev e s = s\<lparr>sv_xlog := xl_add (e\<lparr>le_Time := ev_now ev\<rparr>) (sv_xlog s)\<rparr>"

definition drop_packet :: "service \<Rightarrow> service" where
  "drop_packet s = s\<lparr>sv_c := (sv_c s)\<lparr>ct_dropped := ct_dropped (sv_c s) + 1\<rparr>\<rparr>"

definition set_table :: "table \<Rightarrow> service \<Rightarrow> service" where
  "set_table t s = s\<lparr>sv_t := t\<rparr>"

definition refreshNames :: "env \<Rightarrow> service \<Rightarrow> service" where
  "refreshNames ev s =
     (let holders = assignNames (sv_t s) (sv_holders s) (ev_now ev) in
      s\<lparr>sv_holders := holders,
        sv_names := buildNames (sv_t s) holders (ev_domain ev) (ev_register ev) (ev_generate ev) (ev_now ev)\<rparr>)"

definition other_fresh :: "string \<Rightarrow> instant \<Rightarrow> otherServer \<Rightarrow> bool" where
  "other_fresh iface now x \<longleftrightarrow> ot_iface x = iface \<and>
     time_Sub now (ot_lastSeen x) < (if ot_source x = ''request'' then requestFresh else probeFresh)"

definition otherServers :: "string \<Rightarrow> instant \<Rightarrow> otherServer list \<Rightarrow> otherServer list" where
  "otherServers iface now others = sort_key (\<lambda>x. - ot_lastSeen x) (filter (other_fresh iface now) others)"

definition othersCount :: "string \<Rightarrow> instant \<Rightarrow> service \<Rightarrow> bool" where
  "othersCount iface now s \<longleftrightarrow> length (otherServers iface now (sv_others s)) > 0"

definition same_other :: "otherServer \<Rightarrow> otherServer \<Rightarrow> bool" where
  "same_other x y \<longleftrightarrow> ot_iface x = ot_iface y \<and> ot_source x = ot_source y \<and> ot_serverID x = ot_serverID y \<and> ot_address x = ot_address y"

definition index_of :: "('a \<Rightarrow> bool) \<Rightarrow> 'a list \<Rightarrow> nat option" where
  "index_of P xs = find (\<lambda>i. P (xs ! i)) [0..<length xs]"

definition least_recent :: "otherServer list \<Rightarrow> nat" where
  "least_recent others = fold (\<lambda>i oldest. if ot_lastSeen (others ! i) < ot_lastSeen (others ! oldest) then i else oldest) [0..<length others] 0"

definition recordOtherLocked :: "otherServer \<Rightarrow> otherServer list \<Rightarrow> otherServer list" where
  "recordOtherLocked x others =
     (case index_of (\<lambda>y. same_other y x) others of
        Some i \<Rightarrow> others[i := (others ! i)\<lparr>ot_lastSeen := ot_lastSeen x\<rparr>]
      | None \<Rightarrow>
          let others = (if length others \<ge> maxOtherServers
                then take (least_recent others) others @ drop (least_recent others + 1) others else others) in
          others @ [x])"

definition probe_add :: "env \<Rightarrow> addr \<Rightarrow> addr \<Rightarrow> addr \<Rightarrow> probeRun \<Rightarrow> probeRun" where
  "probe_add ev address serverID off r =
     (if length (pr_found r) \<ge> maxProbeServers \<or> address \<in> set (pr_addrs r) then r
      else r\<lparr>pr_found := pr_found r @ [\<lparr>ps_Address = ev_String ev address, ps_ServerID = ev_String ev serverID,
               ps_Offer = (if Is4 off \<and> \<not> IsUnspecified off then ev_String ev off else [])\<rparr>],
             pr_addrs := pr_addrs r @ [address]\<rparr>)"

definition probeReply :: "env \<Rightarrow> message \<Rightarrow> int \<Rightarrow> addr \<Rightarrow> service \<Rightarrow> service" where
  "probeReply ev m ifIndex from s =
     (case sv_probe s of
        None \<Rightarrow> s
      | Some run \<Rightarrow>
          if dm_xid m \<noteq> pr_xid run \<or> ifIndex \<noteq> pr_ifIndex run \<or> msgType m \<noteq> msgOffer then s
          else let sid0 = addrOpt m optServerID; sid = (if addr_IsValid sid0 then sid0 else from) in
            if \<not> Is4 from \<or> from = pr_self run \<or> sid = pr_self run then s
            else s\<lparr>sv_probe := Some (probe_add ev from sid (dm_yiaddr m) run)\<rparr>)"

text \<open>\<^verbatim>\<open>conflict\<close>: the first reading of the neighbour table that shows a device decides.\<close>

definition conflict :: "env \<Rightarrow> addr \<Rightarrow> string \<Rightarrow> bool" where
  "conflict ev ip mac =
     (case ev_neighbour ev of
        None \<Rightarrow> False
      | Some neighbour \<Rightarrow>
          case first_some (neighbour ip) [0..<length conflictWaits] of
            Some other \<Rightarrow> other \<noteq> mac
          | None \<Rightarrow> False)"

definition quarantine_addr :: "pool \<Rightarrow> addr \<Rightarrow> instant \<Rightarrow> table \<Rightarrow> table" where
  "quarantine_addr p ip now t =
     (if usable p ip then t\<lparr>tb_quarantine := fmupd ip (now + quarantine_time) (tb_quarantine t)\<rparr> else t)"

definition hostFor :: "table \<Rightarrow> message \<Rightarrow> string \<Rightarrow> sref option \<Rightarrow> string" where
  "hostFor t m mac res =
     (case res of
        Some r \<Rightarrow>
          if s_hostname (tb_sheap t r) \<noteq> [] then s_hostname (tb_sheap t r)
          else if hostName m = [] then (case lease_of t mac of Some l \<Rightarrow> l_hostname l | None \<Rightarrow> []) else hostName m
      | None \<Rightarrow> if hostName m = [] then (case lease_of t mac of Some l \<Rightarrow> l_hostname l | None \<Rightarrow> []) else hostName m)"

definition leaseTimeFor :: "table \<Rightarrow> view \<Rightarrow> sref option \<Rightarrow> addr \<Rightarrow> duration" where
  "leaseTimeFor t v res ip =
     (case res of
        Some r \<Rightarrow> if s_leaseSeconds (tb_sheap t r) > 0 \<and> s_ip (tb_sheap t r) = ip then s_leaseSeconds (tb_sheap t r) * Second else vw_leaseTime v
      | None \<Rightarrow> vw_leaseTime v)"

definition leaseOptions :: "string \<Rightarrow> duration \<Rightarrow> option_spec list \<Rightarrow> option_spec list" where
  "leaseOptions host d viewOpts =
     (let secs = (word_of_int (d div Second) :: u32) in
      [plain_option optLeaseTime (put32 secs), plain_option optRenewal (put32 (secs div 2)), plain_option optRebinding (put32 (secs div 8 * 7))]
      @ viewOpts @ (if host \<noteq> [] then [plain_option optHostName (map char_byte host)] else []))"

text \<open>\<^verbatim>\<open>send\<close>: whether the reply was written.\<close>

definition send :: "env \<Rightarrow> view \<Rightarrow> message \<Rightarrow> replyFields \<Rightarrow> option_spec list \<Rightarrow> service \<Rightarrow> bool \<times> service" where
  "send ev v req f opts s =
     (case ev_socket ev of
        None \<Rightarrow> (False, s)
      | Some write \<Rightarrow>
          let b = buildReply req f (pfx_Addr (if_self (vw_iface v))) opts;
              dst = (if rf_typ f \<noteq> msgNak \<and> Is4 (dm_ciaddr req) \<and> \<not> IsUnspecified (dm_ciaddr req) then dm_ciaddr req else broadcast4) in
          if write b dst then (True, s\<lparr>sv_sent := sv_sent s @ [(b, dst)]\<rparr>) else (False, s))"

section \<open>Handlers\<close>

definition reservation :: "env \<Rightarrow> message \<Rightarrow> string \<Rightarrow> table \<Rightarrow> sref option \<times> bool" where
  "reservation ev m mac t =
     (case fmlookup (tb_statics t) mac of
        Some st \<Rightarrow> (Some st, False)
      | None \<Rightarrow>
          case fmlookup (tb_staticCID t) (clientID m) of
            None \<Rightarrow> (None, False)
          | Some st \<Rightarrow>
              if clientID m = [] then (None, False)
              else let ip = s_ip (tb_sheap t st);
                       held = (case lease_at t ip of Some l \<Rightarrow> active l (ev_now ev) \<and> l_mac l = mac | None \<Rightarrow> False);
                       blocked = (leased_to_other t ip mac (ev_now ev) \<or> offered_to_other t ip mac (ev_now ev)) in
                if blocked \<or> \<not> held \<and> conflict ev ip mac then (None, True) else (Some st, False))"

text \<open>
  The loop of \<^verbatim>\<open>discover\<close> that looks for an address to offer. It ends: an address found in use counts as a check, of which
  there are at most four, and only the address of the client's reservation can turn out not to be free afterwards.
\<close>

datatype pick = Exhausted table | Unavailable table | Picked table addr

function pick_address :: "env \<Rightarrow> pool \<Rightarrow> string \<Rightarrow> sref option \<Rightarrow> addr \<Rightarrow> table \<Rightarrow> addr set \<Rightarrow> nat \<Rightarrow> pick" where
  "pick_address ev p mac res requested t tried checks =
     (case candidate t p mac res requested tried (ev_now ev) of
        None \<Rightarrow> Exhausted t
      | Some (ip, check) \<Rightarrow>
          if check \<and> checks \<ge> maxConflictChecks then Unavailable t
          else if check \<and> conflict ev ip mac
          then pick_address ev p mac res requested (quarantine_addr p ip (ev_now ev) t) (insert ip tried) (checks + 1)
          else if \<not> freeFor t ip mac res (ev_now ev)
          then pick_address ev p mac res requested t (insert ip tried) (if check then checks + 1 else checks)
          else Picked t ip)"
  by pat_completeness auto

definition pick_measure :: "env \<times> pool \<times> string \<times> sref option \<times> addr \<times> table \<times> addr set \<times> nat \<Rightarrow> nat" where
  "pick_measure = (\<lambda>(ev, p, mac, res, requested, t, tried, checks). 2 * (maxConflictChecks - checks) +
     (case res of Some r \<Rightarrow> if s_ip (tb_sheap t r) \<in> tried then 0 else 1 | None \<Rightarrow> 0))"

lemma quarantine_addr_keeps [simp]:
  "tb_lheap (quarantine_addr p ip now t) = tb_lheap t" "tb_lnext (quarantine_addr p ip now t) = tb_lnext t"
  "tb_sheap (quarantine_addr p ip now t) = tb_sheap t" "tb_snext (quarantine_addr p ip now t) = tb_snext t"
  "tb_leases (quarantine_addr p ip now t) = tb_leases t" "tb_byIP (quarantine_addr p ip now t) = tb_byIP t"
  "tb_statics (quarantine_addr p ip now t) = tb_statics t" "tb_staticIP (quarantine_addr p ip now t) = tb_staticIP t"
  "tb_staticCID (quarantine_addr p ip now t) = tb_staticCID t" "tb_offers (quarantine_addr p ip now t) = tb_offers t"
  "tb_offerIP (quarantine_addr p ip now t) = tb_offerIP t"
  by (simp_all add: quarantine_addr_def)

lemma candidate_not_free:
  "candidate t p mac res requested tried now = Some (ip, check) \<Longrightarrow> \<not> freeFor t ip mac res now \<Longrightarrow>
    check \<or> ip \<notin> tried \<and> (\<exists>r. res = Some r \<and> ip = s_ip (tb_sheap t r))"
  by (auto simp: candidate_def own_reserved_def own_leased_def Let_def split: option.splits if_splits)

termination pick_address
  by (relation "measure pick_measure")
    (auto simp: pick_measure_def split: option.split if_splits dest: candidate_not_free)

declare pick_address.simps [simp del]

definition commit_check :: "env \<Rightarrow> pool \<Rightarrow> string \<Rightarrow> sref option \<Rightarrow> addr \<Rightarrow> table \<Rightarrow> requestVerdict \<times> table" where
  "commit_check ev p mac res want t =
     (let verdict = decideRequest t p mac res want (ev_now ev);
          (verdict, t) = (if verdict = verdictCheck \<and> conflict ev want mac then (verdictNak, quarantine_addr p want (ev_now ev) t)
                          else (verdict, t));
          d = decideRequest t p mac res want (ev_now ev) in
      (if (verdict = verdictAck \<or> verdict = verdictCheck) \<and> (d = verdictNak \<or> d = verdictMove) then d else verdict, t))"

definition commit_lease :: "env \<Rightarrow> view \<Rightarrow> message \<Rightarrow> string \<Rightarrow> sref option \<Rightarrow> addr \<Rightarrow> table \<Rightarrow> lease" where
  "commit_lease ev v m mac res want t =
     (let old = lease_of t mac; host = hostName m; cid = clientID m in
      \<lparr>l_mac = mac, l_ip = want,
       l_hostname = (case old of Some x \<Rightarrow> if host = [] then l_hostname x else host | None \<Rightarrow> host),
       l_clientID = (case old of Some x \<Rightarrow> if cid = [] then l_clientID x else cid | None \<Rightarrow> cid),
       l_expires = ev_now ev + leaseTimeFor t v res want, l_updated = ev_now ev\<rparr>)"

definition commit_room :: "env \<Rightarrow> string \<Rightarrow> table \<Rightarrow> (string \<times> table) option" where
  "commit_room ev mac t = (if fmlookup (tb_leases t) mac = None then makeRoom (ev_order ev) (ev_now ev) t else Some ([], t))"

definition commit :: "env \<Rightarrow> view \<Rightarrow> message \<Rightarrow> string \<Rightarrow> sref option \<Rightarrow> addr \<Rightarrow> LogEntry \<Rightarrow> bool \<Rightarrow> service \<Rightarrow> service" where
  "commit ev v m mac res want e rapid s =
     (let e = e\<lparr>le_Address := ev_String ev want\<rparr>;
          (verdict, t) = commit_check ev (vw_pool v) mac res want (sv_t s);
          s = set_table t s in
      if verdict = verdictNak \<or> verdict = verdictMove then
        if rapid then logExchange ev (e\<lparr>le_Result := ''ignored'', le_Reason := ''address-unavailable''\<rparr>) s
        else let e = e\<lparr>le_Out := ''NAK'', le_Result := ''nak'',
                   le_Reason := (if verdict = verdictMove then ''move-to-reservation''
                                 else if le_Reason e = [] then ''address-unavailable'' else le_Reason e)\<rparr>;
                 (sent, s) = send ev v m \<lparr>rf_typ = msgNak, rf_ciaddr = NoAddr, rf_yiaddr = NoAddr\<rparr> [] s in
          if sent then logExchange ev e (s\<lparr>sv_c := (sv_c s)\<lparr>ct_naks := ct_naks (sv_c s) + 1\<rparr>\<rparr>) else s
      else case commit_room ev mac t of
          None \<Rightarrow> logExchange ev (e\<lparr>le_Result := ''ignored'', le_Reason := ''pool-exhausted''\<rparr>) s
        | Some (dropped, t') \<Rightarrow>
            let l = commit_lease ev v m mac res want t';
                t'' = store_lease l t';
                host = effectiveName t'' l;
                s = refreshNames ev (set_table t'' s);
                opts = leaseOptions host (leaseTimeFor t' v res want) (vw_opts v)
                  @ (if rapid then [plain_option optRapidCommit []] else []);
                e = e\<lparr>le_Out := ''ACK'', le_Result := ''answered''\<rparr>;
                (sent, s) = send ev v m \<lparr>rf_typ = msgAck, rf_ciaddr = dm_ciaddr m, rf_yiaddr = want\<rparr> opts s in
            if sent then logExchange ev e (s\<lparr>sv_c := (sv_c s)\<lparr>ct_acks := ct_acks (sv_c s) + 1\<rparr>\<rparr>) else s)"

definition discover :: "env \<Rightarrow> view \<Rightarrow> message \<Rightarrow> string \<Rightarrow> sref option \<Rightarrow> bool \<Rightarrow> service \<Rightarrow> service" where
  "discover ev v m mac res cidConflict s =
     (let e = (entry4 m mac ''DISCOVER'')\<lparr>le_Reason := (if cidConflict then ''client-id-conflict'' else [])\<rparr>;
          rapid = (vw_rapidCommit v \<and> rapidCommit m \<and> \<not> vw_ignoreOthers v \<and> \<not> othersCount (if_name (vw_iface v)) (ev_now ev) s) in
      case pick_address ev (vw_pool v) mac res (addrOpt m optRequestedIP) (sv_t s) {} 0 of
        Exhausted t \<Rightarrow> logExchange ev (e\<lparr>le_Result := ''ignored'', le_Reason := ''pool-exhausted''\<rparr>) (set_table t s)
      | Unavailable t \<Rightarrow> logExchange ev (e\<lparr>le_Result := ''ignored'', le_Reason := ''address-unavailable''\<rparr>) (set_table t s)
      | Picked t ip \<Rightarrow>
          let s = set_table (putOffer mac ip (ev_now ev + offerHold) t) s in
          if rapid then commit ev v m mac res ip (e\<lparr>le_Reason := ''rapid-commit''\<rparr>) True s
          else let host = hostFor (sv_t s) m mac res;
                   e = e\<lparr>le_Address := ev_String ev ip, le_Out := ''OFFER'', le_Result := ''answered''\<rparr>;
                   (sent, s) = send ev v m \<lparr>rf_typ = msgOffer, rf_ciaddr = NoAddr, rf_yiaddr = ip\<rparr>
                     (leaseOptions host (leaseTimeFor (sv_t s) v res ip) (vw_opts v)) s in
            if sent then logExchange ev e (s\<lparr>sv_c := (sv_c s)\<lparr>ct_offers := ct_offers (sv_c s) + 1\<rparr>\<rparr>) else s)"

definition request :: "env \<Rightarrow> view \<Rightarrow> message \<Rightarrow> string \<Rightarrow> sref option \<Rightarrow> bool \<Rightarrow> service \<Rightarrow> service" where
  "request ev v m mac res cidConflict s =
     (let want = (if IsUnspecified (dm_ciaddr m) then addrOpt m optRequestedIP else dm_ciaddr m) in
      if \<not> addr_IsValid want \<or> IsUnspecified want then drop_packet s
      else commit ev v m mac res want
        ((entry4 m mac ''REQUEST'')\<lparr>le_Reason := (if cidConflict then ''client-id-conflict'' else [])\<rparr>) False s)"

definition decline :: "env \<Rightarrow> view \<Rightarrow> message \<Rightarrow> string \<Rightarrow> service \<Rightarrow> service" where
  "decline ev v m mac s =
     (let want = addrOpt m optRequestedIP; t = sv_t s;
          leased = (case lease_of t mac of Some l \<Rightarrow> l_ip l = want | None \<Rightarrow> False);
          offered = (case fmlookup (tb_offers t) mac of Some off \<Rightarrow> o_ip off = want | None \<Rightarrow> False) in
      if \<not> addr_IsValid want \<or> \<not> (leased \<or> offered) then drop_packet s
      else let t1 = (if leased then dropLease mac t else t);
               t2 = dropOffer mac t1;
               t3 = quarantine_addr (vw_pool v) want (ev_now ev) t2;
               s = set_table t3 s;
               s = s\<lparr>sv_c := (sv_c s)\<lparr>ct_declines := ct_declines (sv_c s) + 1\<rparr>\<rparr>;
               s = logExchange ev ((entry4 m mac ''DECLINE'')\<lparr>le_Address := ev_String ev want, le_Result := ''processed''\<rparr>) s in
        refreshNames ev s)"

text \<open>\<^verbatim>\<open>release\<close> changes the lease in place: both maps see it.\<close>

definition end_lease :: "lref \<Rightarrow> instant \<Rightarrow> table \<Rightarrow> table" where
  "end_lease r now t = t\<lparr>tb_lheap := (tb_lheap t)(r := (tb_lheap t r)\<lparr>l_expires := now, l_updated := now\<rparr>)\<rparr>"

definition release :: "env \<Rightarrow> message \<Rightarrow> string \<Rightarrow> service \<Rightarrow> service" where
  "release ev m mac s =
     (case fmlookup (tb_leases (sv_t s)) mac of
        None \<Rightarrow> drop_packet s
      | Some r \<Rightarrow>
          let l = tb_lheap (sv_t s) r in
          if l_ip l \<noteq> dm_ciaddr m \<or> \<not> active l (ev_now ev) then drop_packet s
          else let s = set_table (end_lease r (ev_now ev) (sv_t s)) s;
                   s = s\<lparr>sv_c := (sv_c s)\<lparr>ct_releases := ct_releases (sv_c s) + 1\<rparr>\<rparr>;
                   s = logExchange ev ((entry4 m mac ''RELEASE'')\<lparr>le_Address := ev_String ev (dm_ciaddr m), le_Result := ''processed''\<rparr>) s in
            refreshNames ev s)"

definition inform :: "env \<Rightarrow> view \<Rightarrow> message \<Rightarrow> string \<Rightarrow> service \<Rightarrow> service" where
  "inform ev v m mac s =
     (let ci = dm_ciaddr m in
      if \<not> usable (vw_pool v) ci then drop_packet s
      else let (sent, s) = send ev v m \<lparr>rf_typ = msgAck, rf_ciaddr = ci, rf_yiaddr = NoAddr\<rparr> (vw_opts v) s in
        if sent then logExchange ev ((entry4 m mac ''INFORM'')\<lparr>le_Address := ev_String ev ci, le_Out := ''ACK'', le_Result := ''answered''\<rparr>)
          (s\<lparr>sv_c := (sv_c s)\<lparr>ct_informs := ct_informs (sv_c s) + 1\<rparr>\<rparr>)
        else s)"

text \<open>The part of \<^verbatim>\<open>handle4\<close> that serves a message of a client of the served network.\<close>

definition serve4 :: "env \<Rightarrow> view \<Rightarrow> message \<Rightarrow> string \<Rightarrow> u8 \<Rightarrow> bool \<Rightarrow> service \<Rightarrow> service" where
  "serve4 ev v m mac mt forOther s =
     (if mt = msgDiscover \<or> mt = msgRequest \<or> mt = msgDecline then
        if forOther then
          if mt = msgRequest then
            logExchange ev ((entry4 m mac ''REQUEST'')\<lparr>le_Address := addrString ev (addrOpt m optRequestedIP), le_Result := ''ignored'',
                le_Reason := ''other-server''\<rparr>) (set_table (dropOffer mac (sv_t s)) s)
          else s
        else let (res, cidConflict) = reservation ev m mac (sv_t s) in
          if vw_onlyReserved v \<and> res = None then
            logExchange ev ((entry4 m mac (messageName mt))\<lparr>
                le_Address := (if mt = msgRequest \<and> \<not> IsUnspecified (dm_ciaddr m) then ev_String ev (dm_ciaddr m)
                               else addrString ev (addrOpt m optRequestedIP)),
                le_Result := ''ignored'', le_Reason := ''not-reserved''\<rparr>) s
          else if mt = msgDiscover then discover ev v m mac res cidConflict s
          else if mt = msgRequest then request ev v m mac res cidConflict s
          else decline ev v m mac s
      else if mt = msgRelease then if \<not> forOther then release ev m mac s else s
      else if mt = msgInform then inform ev v m mac s
      else drop_packet s)"

text \<open>
  \<^verbatim>\<open>handle4\<close>: the checks before a message is served, \<open>Inl\<close> where it returns early, and the whole handler.
\<close>

definition accept4 :: "env \<Rightarrow> view \<Rightarrow> message \<Rightarrow> int \<Rightarrow> addr \<Rightarrow> service \<Rightarrow> service + service \<times> string \<times> u8 \<times> bool" where
  "accept4 ev v m ifIndex from s =
     (if dm_op m = opReply then Inl (probeReply ev m ifIndex from s)
      else if dm_op m \<noteq> opRequest \<or> dm_htype m \<noteq> hwEther \<or> dm_hlen m \<noteq> hwEtherLen then Inl (drop_packet s)
      else if \<not> IsUnspecified (dm_giaddr m) then Inl s
      else case macString (dm_mac m) of
          None \<Rightarrow> Inl (drop_packet s)
        | Some mac \<Rightarrow>
            let mt = msgType m; iface = vw_iface v in
            if mt = 0 then Inl (drop_packet s)
            else if if_problem iface \<noteq> [] \<or> if_index iface = 0 \<or> ifIndex \<noteq> if_index iface then Inl s
            else if \<not> IsUnspecified from \<and> \<not> Contains (Masked (if_self iface)) from then Inl (drop_packet s)
            else let self = pfx_Addr (if_self iface);
                     sid = addrOpt m optServerID;
                     forOther = (addr_IsValid sid \<and> sid \<noteq> self \<and> \<not> IsUnspecified sid);
                     s = (if mt = msgRequest \<and> forOther \<and> vw_enabled v
                          then s\<lparr>sv_others := recordOtherLocked \<lparr>ot_iface = if_name iface, ot_address = sid, ot_serverID = sid,
                                   ot_source = ''request'', ot_lastSeen = ev_now ev\<rparr> (sv_others s)\<rparr> else s) in
              if \<not> vw_serving v \<or> \<not> ev_enabled ev then Inl s else Inr (s, mac, mt, forOther))"

definition handle4 :: "env \<Rightarrow> view \<Rightarrow> bytes \<Rightarrow> int \<Rightarrow> addr \<Rightarrow> service \<Rightarrow> service" where
  "handle4 ev v b ifIndex from s =
     (let s = s\<lparr>sv_c := (sv_c s)\<lparr>ct_received := ct_received (sv_c s) + 1\<rparr>\<rparr> in
      if length b < minPacket \<or> length b > maxPacket then drop_packet s
      else let (ok, lim) = wl_allow (slice 28 34 b) (ev_now ev) (sv_limit4 s); s = s\<lparr>sv_limit4 := lim\<rparr> in
        if \<not> ok then drop_packet s
        else case parseMessage b of
          Inl _ \<Rightarrow> drop_packet s
        | Inr m \<Rightarrow>
            case accept4 ev v m ifIndex from s of
              Inl s \<Rightarrow> s
            | Inr (s, mac, mt, forOther) \<Rightarrow> serve4 ev v m mac mt forOther s)"

text \<open>\<^verbatim>\<open>purge\<close>, run by the control loop.\<close>

definition purge :: "env \<Rightarrow> string list \<Rightarrow> addr list \<Rightarrow> service \<Rightarrow> service" where
  "purge ev offer_order quarantine_order s =
     refreshNames ev (set_table (fst (expire offer_order quarantine_order (ev_order ev) (ev_now ev) (sv_t s))) s)"

section \<open>Administration\<close>

text \<open>
  The operations of \<^verbatim>\<open>internal/dhcp/leases.go\<close> on normalised addresses. The database is an argument: whether the write
  fails, and how.
\<close>

datatype static_error = MacExists | StaticMissing | LeaseMissing | TooManyStatics | SameIP | SameHostname | SameClientID | DBError string

definition staticConflict :: "static \<Rightarrow> static \<Rightarrow> static_error option" where
  "staticConflict st other =
     (if s_ip other = s_ip st then Some SameIP
      else if s_hostname st \<noteq> [] \<and> s_hostname other = s_hostname st then Some SameHostname
      else if s_clientID st \<noteq> [] \<and> s_clientID other = s_clientID st then Some SameClientID
      else None)"

definition static_of :: "table \<Rightarrow> string \<Rightarrow> static option" where
  "static_of t mac = map_option (tb_sheap t) (fmlookup (tb_statics t) mac)"

definition conflict_with :: "table \<Rightarrow> static \<Rightarrow> string \<Rightarrow> static_error option" where
  "conflict_with t st m =
     (case static_of t m of
        Some other \<Rightarrow> if s_mac other \<noteq> s_mac st then staticConflict st other else None
      | None \<Rightarrow> None)"

definition put_static :: "static_error option \<Rightarrow> string list \<Rightarrow> instant \<Rightarrow> bool \<Rightarrow> static \<Rightarrow> table \<Rightarrow> static_error + table" where
  "put_static db order now create st t =
     (let old = static_of t (s_mac st) in
      if create \<and> old \<noteq> None then Inl MacExists
      else if \<not> create \<and> old = None then Inl StaticMissing
      else if create \<and> fcard (fmdom (tb_statics t)) \<ge> maxStatics then Inl TooManyStatics
      else case first_some (conflict_with t st) order of
          Some err \<Rightarrow> Inl err
        | None \<Rightarrow>
            case db of
              Some err \<Rightarrow> Inl err
            | None \<Rightarrow>
                let st = st\<lparr>s_created := (case old of Some x \<Rightarrow> s_created x | None \<Rightarrow> now), s_updated := now\<rparr>;
                    (r, t) = new_static st t in
                Inr (putStatic r t))"

definition DeleteStatic :: "static_error option \<Rightarrow> string \<Rightarrow> table \<Rightarrow> static_error + table" where
  "DeleteStatic db mac t =
     (if fmlookup (tb_statics t) mac = None then Inl StaticMissing
      else case db of Some err \<Rightarrow> Inl err | None \<Rightarrow> Inr (dropStatic mac t))"

definition DeleteLease :: "static_error option \<Rightarrow> string \<Rightarrow> table \<Rightarrow> static_error + table" where
  "DeleteLease db mac t =
     (if fmlookup (tb_leases t) mac = None then Inl LeaseMissing
      else case db of Some err \<Rightarrow> Inl err | None \<Rightarrow> Inr (dropOffer mac (dropLease mac t)))"

text \<open>\<^verbatim>\<open>wipe\<close>: a new table, with the reservations of the old one unless they go too.\<close>

definition keep_static :: "(string, sref) fmap \<Rightarrow> string \<Rightarrow> table \<Rightarrow> table" where
  "keep_static keep mac t = (case fmlookup keep mac of Some r \<Rightarrow> putStatic r t | None \<Rightarrow> t)"

definition wipe :: "static_error option \<Rightarrow> string list \<Rightarrow> bool \<Rightarrow> table \<Rightarrow> static_error + table" where
  "wipe db order statics t =
     (case db of
        Some err \<Rightarrow> Inl err
      | None \<Rightarrow>
          let t' = newTable\<lparr>tb_lnext := tb_lnext t, tb_lheap := tb_lheap t, tb_snext := tb_snext t, tb_sheap := tb_sheap t\<rparr> in
          Inr (if statics then t' else fold (keep_static (tb_statics t)) order t'))"

datatype dhcp_op =
    Packet env view bytes int addr
  | Purge env "string list" "addr list"
  | AddStatic env "static_error option" "string list" bool static
  | DropStatic env "static_error option" string
  | DropLease env "static_error option" string
  | WipeAll env "static_error option" "string list" bool

text \<open>An operation that fails changes nothing; one that succeeds publishes the names again.\<close>

definition admin :: "env \<Rightarrow> (static_error + table) \<Rightarrow> service \<Rightarrow> service" where
  "admin ev r s = (case r of Inl _ \<Rightarrow> s | Inr t \<Rightarrow> refreshNames ev (set_table t s))"

fun dhcp_step :: "dhcp_op \<Rightarrow> service \<Rightarrow> service" where
  "dhcp_step (Packet ev v b i from) s = handle4 ev v b i from s"
| "dhcp_step (Purge ev offs qs) s = purge ev offs qs s"
| "dhcp_step (AddStatic ev db order create st) s = admin ev (put_static db order (ev_now ev) create st (sv_t s)) s"
| "dhcp_step (DropStatic ev db mac) s = admin ev (DeleteStatic db mac (sv_t s)) s"
| "dhcp_step (DropLease ev db mac) s = admin ev (DeleteLease db mac (sv_t s)) s"
| "dhcp_step (WipeAll ev db order statics) s = admin ev (wipe db order statics (sv_t s)) s"

definition new_counters :: counters where
  "new_counters = \<lparr>ct_received = 0, ct_offers = 0, ct_acks = 0, ct_naks = 0, ct_declines = 0, ct_releases = 0, ct_informs = 0, ct_dropped = 0\<rparr>"

definition new_service :: service where
  "new_service = \<lparr>sv_t = newTable, sv_holders = fmempty, sv_names = emptyNames, sv_others = [],
     sv_limit4 = newWindowLimiter limitTotal limitPerMAC, sv_xlog = new_log, sv_c = new_counters, sv_probe = None, sv_sent = []\<rparr>"

section \<open>What handlers do to the table\<close>

lemma sv_t_simps [simp]:
  "sv_t (logExchange ev e s) = sv_t s" "sv_t (drop_packet s) = sv_t s" "sv_t (set_table t s) = t"
  "sv_t (refreshNames ev s) = sv_t s" "sv_t (snd (send ev v m f opts s)) = sv_t s" "sv_t (probeReply ev m i from s) = sv_t s"
  by (simp_all add: logExchange_def drop_packet_def set_table_def refreshNames_def send_def probeReply_def Let_def split: option.split)

lemma sv_t_send: "send ev v m f opts s = (sent, s') \<Longrightarrow> sv_t s' = sv_t s"
  by (metis sv_t_simps(5) snd_conv)

lemma sv_t_commit:
  "sv_t (commit ev v m mac res want e rapid s) =
     (let (verdict, t) = commit_check ev (vw_pool v) mac res want (sv_t s) in
      if verdict = verdictNak \<or> verdict = verdictMove then t
      else case commit_room ev mac t of
          None \<Rightarrow> t
        | Some (dropped, t') \<Rightarrow> store_lease (commit_lease ev v m mac res want t') t')"
  by (auto simp: commit_def Let_def split: prod.splits option.splits dest: sv_t_send)

lemma sv_t_discover:
  "sv_t (discover ev v m mac res cid s) =
     (case pick_address ev (vw_pool v) mac res (addrOpt m optRequestedIP) (sv_t s) {} 0 of
        Exhausted t \<Rightarrow> t
      | Unavailable t \<Rightarrow> t
      | Picked t ip \<Rightarrow>
          let t' = putOffer mac ip (ev_now ev + offerHold) t in
          if vw_rapidCommit v \<and> rapidCommit m \<and> \<not> vw_ignoreOthers v \<and> \<not> othersCount (if_name (vw_iface v)) (ev_now ev) s
          then sv_t (commit ev v m mac res ip ((entry4 m mac ''DISCOVER'')\<lparr>le_Reason := ''rapid-commit''\<rparr>) True (set_table t' s))
          else t')"
  by (auto simp: discover_def Let_def sv_t_commit split: prod.splits pick.splits dest: sv_t_send)

subsection \<open>The neighbour check\<close>

lemma lease_quarantine_addr [simp]:
  "lease_of (quarantine_addr p ip now t) mac = lease_of t mac" "lease_at (quarantine_addr p ip now t) a = lease_at t a"
  by (simp_all add: lease_of_def lease_at_def)

lemma table_inv_quarantine_addr: "table_inv t \<Longrightarrow> table_inv (quarantine_addr p ip now t)"
  by (simp add: quarantine_addr_def table_inv_quarantine)

definition picked_table :: "pick \<Rightarrow> table" where
  "picked_table r = (case r of Exhausted t \<Rightarrow> t | Unavailable t \<Rightarrow> t | Picked t ip \<Rightarrow> t)"

text \<open>The search for an address only adds to the quarantine.\<close>

definition quarantine_only :: "table \<Rightarrow> table \<Rightarrow> bool" where
  "quarantine_only t t' \<longleftrightarrow> t' = t\<lparr>tb_quarantine := tb_quarantine t'\<rparr>"

lemma quarantine_only_refl [simp]: "quarantine_only t t"
  by (simp add: quarantine_only_def)

lemma quarantine_only_trans: "quarantine_only t t' \<Longrightarrow> quarantine_only t' t'' \<Longrightarrow> quarantine_only t t''"
  by (cases t; cases t'; cases t'') (simp add: quarantine_only_def)

lemma quarantine_only_addr [simp]: "quarantine_only t (quarantine_addr p ip now t)"
  by (simp add: quarantine_only_def quarantine_addr_def)

lemma quarantine_onlyD:
  "quarantine_only t t' \<Longrightarrow> tb_lheap t' = tb_lheap t \<and> tb_lnext t' = tb_lnext t \<and> tb_sheap t' = tb_sheap t \<and> tb_snext t' = tb_snext t
    \<and> tb_leases t' = tb_leases t \<and> tb_byIP t' = tb_byIP t \<and> tb_statics t' = tb_statics t \<and> tb_staticIP t' = tb_staticIP t
    \<and> tb_staticCID t' = tb_staticCID t \<and> tb_offers t' = tb_offers t \<and> tb_offerIP t' = tb_offerIP t"
  by (cases t; cases t') (simp add: quarantine_only_def)

lemma quarantine_only_lease: "quarantine_only t t' \<Longrightarrow> lease_of t' mac = lease_of t mac" "quarantine_only t t' \<Longrightarrow> lease_at t' ip = lease_at t ip"
  by (auto simp: lease_of_def lease_at_def dest!: quarantine_onlyD)

lemma quarantine_only_inv: "quarantine_only t t' \<Longrightarrow> table_inv t \<Longrightarrow> table_inv t'"
  by (metis quarantine_only_def table_inv_quarantine)

lemma pick_address_table: "quarantine_only t (picked_table (pick_address ev p mac res requested t tried checks))"
proof (induction ev p mac res requested t tried checks rule: pick_address.induct)
  case (1 ev p mac res requested t tried checks)
  show ?case
  proof (cases "candidate t p mac res requested tried (ev_now ev)")
    case None
    then show ?thesis by (subst pick_address.simps) (simp add: picked_table_def)
  next
    case (Some a)
    obtain ip c where a: "a = (ip, c)" by (cases a)
    note IH = 1 [OF Some a [symmetric]]
    note unfold = pick_address.simps [of ev p mac res requested t tried checks, unfolded Some a option.case prod.case]
    consider "c \<and> maxConflictChecks \<le> checks"
      | "\<not> (c \<and> maxConflictChecks \<le> checks)" "c \<and> conflict ev ip mac"
      | "\<not> (c \<and> maxConflictChecks \<le> checks)" "\<not> (c \<and> conflict ev ip mac)" "\<not> freeFor t ip mac res (ev_now ev)"
      | "\<not> (c \<and> maxConflictChecks \<le> checks)" "\<not> (c \<and> conflict ev ip mac)" "freeFor t ip mac res (ev_now ev)"
      by blast
    then show ?thesis
    proof cases
      case 2
      show ?thesis using quarantine_only_trans [OF quarantine_only_addr IH(1) [OF 2]] 2 by (simp add: unfold)
    next
      case 3
      show ?thesis using IH(2) [OF 3] 3 by (simp only: unfold if_False simp_thms if_True)
    qed (auto simp: unfold picked_table_def)
  qed
qed

lemma pick_address_free:
  assumes "table_inv t" and "pick_address ev p mac res requested t tried checks = Picked t' ip"
  shows "freeFor t' ip mac res (ev_now ev) \<and> usable p ip"
  using assms
proof (induction ev p mac res requested t tried checks rule: pick_address.induct)
  case (1 ev p mac res requested t tried checks)
  show ?case
  proof (cases "candidate t p mac res requested tried (ev_now ev)")
    case (Some a)
    obtain b c where a: "a = (b, c)" by (cases a)
    have "lease_inv t" using 1(3) by (simp add: table_inv_def)
    then have usable: "usable p b" using candidate_cases [of t p mac res requested tried "ev_now ev" b c] Some a by (auto simp: dynamic_def)
    show ?thesis
      using 1(4) 1(1,2) [OF Some a [symmetric]] 1(3) usable
      by (subst (asm) pick_address.simps) (auto simp: Some a table_inv_quarantine_addr split: if_splits)
  qed (use 1(4) in \<open>simp add: pick_address.simps\<close>)
qed

subsection \<open>Committing an address\<close>

lemma commit_check_table: "commit_check ev p mac res want t = (verdict, t') \<Longrightarrow> quarantine_only t t'"
  by (auto simp: commit_check_def Let_def split: if_splits)

lemma commit_check_free:
  assumes "commit_check ev p mac res want t = (verdict, t')" and "verdict \<noteq> verdictNak" and "verdict \<noteq> verdictMove"
  shows "t' = t \<and> Is4 want \<and> usable p want \<and> freeFor t want mac res (ev_now ev)"
  using assms decideRequest_free [of t p mac res want "ev_now ev"]
  by (cases "decideRequest t p mac res want (ev_now ev)") (auto simp: commit_check_def Let_def split: if_splits)

lemma commit_room_cases:
  assumes "commit_room ev mac t = Some (d, t')" and "table_inv t"
  shows "table_inv t'" "tb_sheap t' = tb_sheap t" "lease_of t mac' = Some l \<Longrightarrow> active l (ev_now ev) \<Longrightarrow> lease_of t' mac' = Some l"
    "lease_at t' ip = Some x \<Longrightarrow> lease_at t ip = Some x" "lease_of t mac = Some y \<Longrightarrow> t' = t"
proof -
  have inv: "lease_inv t" using assms(2) by (simp add: table_inv_def)
  show "table_inv t'" "tb_sheap t' = tb_sheap t" "lease_of t mac' = Some l \<Longrightarrow> active l (ev_now ev) \<Longrightarrow> lease_of t' mac' = Some l"
    using assms makeRoom_table_inv makeRoom_keeps_maps makeRoom_keeps [OF _ inv] by (auto simp: commit_room_def split: if_splits)
  show "lease_at t' ip = Some x \<Longrightarrow> lease_at t ip = Some x"
    using assms(1) by (auto simp: commit_room_def makeRoom_def lease_at_def dropLease_byIP [OF inv] split: if_splits option.splits)
  show "lease_of t mac = Some y \<Longrightarrow> t' = t"
    using assms(1) by (auto simp: commit_room_def lease_of_def split: if_splits)
qed

lemma commit_table_inv:
  assumes "table_inv (sv_t s)"
  shows "table_inv (sv_t (commit ev v m mac res want e rapid s))"
proof -
  obtain verdict t where c: "commit_check ev (vw_pool v) mac res want (sv_t s) = (verdict, t)" by fastforce
  then have "table_inv t" using commit_check_table quarantine_only_inv assms by blast
  then show ?thesis
    using commit_room_cases(1) by (auto simp: sv_t_commit c intro: table_inv_store_lease split: option.split)
qed

text \<open>An active lease of another client survives: its address is not free, so it is never acknowledged to anyone else.\<close>

lemma commit_keeps_active:
  assumes inv: "table_inv (sv_t s)" and l: "lease_of (sv_t s) mac' = Some l" "active l (ev_now ev)" and mac: "mac' \<noteq> mac"
  shows "lease_of (sv_t (commit ev v m mac res want e rapid s)) mac' = Some l"
proof -
  obtain verdict t where c: "commit_check ev (vw_pool v) mac res want (sv_t s) = (verdict, t)" by fastforce
  have kept: "lease_of t mac' = Some l" using quarantine_only_lease(1) [OF commit_check_table [OF c]] l by simp
  show ?thesis
  proof (cases "verdict = verdictNak \<or> verdict = verdictMove \<or> commit_room ev mac t = None")
    case True
    then show ?thesis using kept by (auto simp: sv_t_commit c)
  next
    case False
    then obtain d t' where room: "commit_room ev mac t = Some (d, t')" by auto
    have t: "t = sv_t s" and free: "freeFor t want mac res (ev_now ev)"
      using commit_check_free [OF c] False by auto
    note roomc = commit_room_cases [OF room, unfolded t, OF inv]
    have kept': "lease_of t' mac' = Some l" using roomc(3) l by blast
    have "lease_inv t'" using roomc(1) by (simp add: table_inv_def)
    have "l_mac x \<noteq> mac'" if x: "lease_at t' want = Some x" for x
    proof
      assume "l_mac x = mac'"
      then have "x = l" using lease_at_of [OF \<open>lease_inv t'\<close> x] kept' by simp
      then have "leased_to_other t want mac (ev_now ev)"
        using roomc(4) [OF x] l mac \<open>l_mac x = mac'\<close> by (simp add: leased_to_other_def t)
      then show False using free by (simp add: freeFor_iff)
    qed
    then have "lease_of (store_lease (commit_lease ev v m mac res want t') t') mac' = Some l"
      using mac kept' by (auto simp: store_lease_lookup(2) [OF \<open>lease_inv t'\<close>] commit_lease_def Let_def split: option.split)
    then show ?thesis using False room by (simp add: sv_t_commit c)
  qed
qed

subsection \<open>All handlers\<close>

lemma discover_table_inv: "table_inv (sv_t s) \<Longrightarrow> table_inv (sv_t (discover ev v m mac res cid s))"
  using quarantine_only_inv [OF pick_address_table [of "sv_t s" ev "vw_pool v" mac res "addrOpt m optRequestedIP" "{}" 0]]
  by (auto simp: sv_t_discover picked_table_def Let_def intro!: commit_table_inv table_inv_putOffer split: pick.split)

lemma discover_keeps_active:
  assumes "table_inv (sv_t s)" and "lease_of (sv_t s) mac' = Some l" "active l (ev_now ev)" and "mac' \<noteq> mac"
  shows "lease_of (sv_t (discover ev v m mac res cid s)) mac' = Some l"
proof -
  let ?r = "pick_address ev (vw_pool v) mac res (addrOpt m optRequestedIP) (sv_t s) {} 0"
  note q = pick_address_table [of "sv_t s" ev "vw_pool v" mac res "addrOpt m optRequestedIP" "{}" 0]
  have "table_inv (picked_table ?r)" "lease_of (picked_table ?r) mac' = Some l"
    using quarantine_only_inv [OF q] quarantine_only_lease [OF q] assms by simp_all
  then show ?thesis
    using assms(3,4) by (auto simp: sv_t_discover picked_table_def Let_def intro!: commit_keeps_active table_inv_putOffer split: pick.split)
qed

lemma end_lease_lookup:
  assumes "lease_inv t" and "fmlookup (tb_leases t) mac = Some r"
  shows "lease_of (end_lease r now t) m = (if m = mac then Some ((tb_lheap t r)\<lparr>l_expires := now, l_updated := now\<rparr>) else lease_of t m)"
proof -
  have "m = mac" if "fmlookup (tb_leases t) m = Some r"
    using lease_inv_macD(2) [OF assms(1) that] lease_inv_macD(2) [OF assms] by simp
  then show ?thesis
    using assms(2) by (cases "fmlookup (tb_leases t) m") (auto simp: end_lease_def lease_of_def)
qed

lemma end_lease_keeps [simp]:
  "l_mac (tb_lheap (end_lease r now t) x) = l_mac (tb_lheap t x)" "l_ip (tb_lheap (end_lease r now t) x) = l_ip (tb_lheap t x)"
  "tb_lnext (end_lease r now t) = tb_lnext t" "tb_sheap (end_lease r now t) = tb_sheap t" "tb_snext (end_lease r now t) = tb_snext t"
  "tb_leases (end_lease r now t) = tb_leases t" "tb_byIP (end_lease r now t) = tb_byIP t" "tb_statics (end_lease r now t) = tb_statics t"
  "tb_staticIP (end_lease r now t) = tb_staticIP t" "tb_staticCID (end_lease r now t) = tb_staticCID t"
  "tb_offers (end_lease r now t) = tb_offers t" "tb_offerIP (end_lease r now t) = tb_offerIP t"
  by (simp_all add: end_lease_def)

lemma end_lease_inv: "table_inv t \<Longrightarrow> table_inv (end_lease r now t)"
  by (simp add: table_inv_def lease_inv_def offer_inv_def static_inv_def)

lemma request_table_inv: "table_inv (sv_t s) \<Longrightarrow> table_inv (sv_t (request ev v m mac res cid s))"
  by (simp add: request_def Let_def commit_table_inv)

lemma decline_table_inv: "table_inv (sv_t s) \<Longrightarrow> table_inv (sv_t (decline ev v m mac s))"
  by (simp add: decline_def Let_def table_inv_quarantine_addr table_inv_dropOffer table_inv_dropLease)

lemma release_table_inv: "table_inv (sv_t s) \<Longrightarrow> table_inv (sv_t (release ev m mac s))"
  by (simp add: release_def Let_def end_lease_inv split: option.split)

lemma inform_table: "sv_t (inform ev v m mac s) = sv_t s"
  by (auto simp: inform_def Let_def split: prod.splits dest: sv_t_send)

lemma handler_keeps_active:
  assumes inv: "table_inv (sv_t s)" and l: "lease_of (sv_t s) mac' = Some l" "active l (ev_now ev)" and mac: "mac' \<noteq> mac"
  shows "lease_of (sv_t (request ev v m mac res cid s)) mac' = Some l"
    "lease_of (sv_t (decline ev v m mac s)) mac' = Some l"
    "lease_of (sv_t (release ev m mac s)) mac' = Some l"
proof -
  have li: "lease_inv (sv_t s)" using inv by (simp add: table_inv_def)
  show "lease_of (sv_t (request ev v m mac res cid s)) mac' = Some l"
    using l commit_keeps_active [OF inv l mac] by (simp add: request_def Let_def)
  show "lease_of (sv_t (decline ev v m mac s)) mac' = Some l"
    using l mac by (simp add: decline_def Let_def lease_of_dropLease)
  show "lease_of (sv_t (release ev m mac s)) mac' = Some l"
    using l mac end_lease_lookup [OF li] by (auto simp: release_def Let_def split: option.split)
qed

lemma serve4_table_inv: "table_inv (sv_t s) \<Longrightarrow> table_inv (sv_t (serve4 ev v m mac mt other s))"
  by (simp add: serve4_def Let_def table_inv_dropOffer request_table_inv decline_table_inv release_table_inv inform_table
      discover_table_inv split: prod.split)

lemma serve4_keeps_active:
  assumes "table_inv (sv_t s)" and "lease_of (sv_t s) mac' = Some l" "active l (ev_now ev)" and "mac' \<noteq> mac"
  shows "lease_of (sv_t (serve4 ev v m mac mt other s)) mac' = Some l"
  using handler_keeps_active [OF assms] discover_keeps_active [OF assms] assms(2)
  by (simp add: serve4_def Let_def inform_table split: prod.split)

text \<open>A packet reaches the table only through \<^verbatim>\<open>serve4\<close>.\<close>

lemma accept4_table:
  "accept4 ev v m i from s = Inl s' \<Longrightarrow> sv_t s' = sv_t s"
  "accept4 ev v m i from s = Inr (s', mac, mt, other) \<Longrightarrow> sv_t s' = sv_t s \<and> macString (dm_mac m) = Some mac"
  by (auto simp: accept4_def Let_def split: if_splits option.splits)

lemma handle4_cases:
  obtains (same) "sv_t (handle4 ev v b i from s) = sv_t s"
    | (served) m mac s' mt other where "parseMessage b = Inr m" "macString (dm_mac m) = Some mac" "sv_t s' = sv_t s"
        "handle4 ev v b i from s = serve4 ev v m mac mt other s'"
proof -
  let ?r = "handle4 ev v b i from s"
  have "sv_t ?r = sv_t s \<or> (\<exists>m mac s' mt other. parseMessage b = Inr m \<and> macString (dm_mac m) = Some mac \<and> sv_t s' = sv_t s
      \<and> ?r = serve4 ev v m mac mt other s')"
    unfolding handle4_def Let_def
    by (fastforce split: prod.split sum.split dest: accept4_table)
  then show thesis using that by blast
qed

lemma handle4_table_inv: "table_inv (sv_t s) \<Longrightarrow> table_inv (sv_t (handle4 ev v b i from s))"
  by (cases rule: handle4_cases [of ev v b i "from" s]) (simp_all add: serve4_table_inv)

lemma put_static_table_inv: "table_inv t \<Longrightarrow> put_static db order now create st t = Inr t' \<Longrightarrow> table_inv t'"
  by (auto simp: put_static_def Let_def new_static_def [THEN arg_cong [where f = fst]] split: if_splits option.splits prod.splits)
    (metis table_inv_putStatic new_static_def fst_conv snd_conv)+

lemma wipe_table_inv:
  assumes "table_inv t" and "wipe db order statics t = Inr t'"
  shows "table_inv t'"
proof -
  let ?n = "newTable\<lparr>tb_lnext := tb_lnext t, tb_lheap := tb_lheap t, tb_snext := tb_snext t, tb_sheap := tb_sheap t\<rparr>"
  let ?P = "\<lambda>u. table_inv u \<and> tb_snext u = tb_snext t"
  have less: "fmlookup (tb_statics t) mac = Some r \<Longrightarrow> r < tb_snext t" for mac r
    using assms(1) by (auto simp: table_inv_def static_inv_def)
  have n: "?P ?n" by (simp add: table_inv_def lease_inv_def offer_inv_def static_inv_def newTable_def)
  have "?P (keep_static (tb_statics t) mac u)" if "?P u" for mac u
    using that less [of mac] putStatic_static_inv [of u]
    by (cases "fmlookup (tb_statics t) mac") (auto simp: keep_static_def table_inv_def lease_inv_def offer_inv_def)
  then have "?P (fold (keep_static (tb_statics t)) order ?n)"
    using n by (rule fold_invariant [where P = ?P, rotated])
  then show ?thesis
    using assms(2) n by (auto simp: wipe_def Let_def split: option.splits if_splits)
qed

lemma dhcp_step_table_inv: "table_inv (sv_t s) \<Longrightarrow> table_inv (sv_t (dhcp_step oper s))"
proof (cases oper)
  case (AddStatic ev db order create st)
  assume "table_inv (sv_t s)"
  then show ?thesis using put_static_table_inv by (simp add: AddStatic admin_def split: sum.split)
next
  case (WipeAll ev db order statics)
  assume "table_inv (sv_t s)"
  then show ?thesis using wipe_table_inv by (simp add: WipeAll admin_def split: sum.split)
qed (auto simp: admin_def purge_def DeleteStatic_def DeleteLease_def handle4_table_inv expire_table_inv table_inv_dropStatic
    table_inv_dropOffer table_inv_dropLease split: sum.split option.split)

interpretation dhcp: invariant_machine new_service dhcp_step "\<lambda>s. table_inv (sv_t s)"
  by unfold_locales (simp_all add: new_service_def newTable_inv dhcp_step_table_inv)

subsection \<open>An address is found\<close>

lemma pick_address_step:
  assumes "lease_inv t" and "candidate t p mac res requested tried (ev_now ev) = Some (ip, c)" and "checks < maxConflictChecks"
    and "\<And>a. \<not> conflict ev a mac"
  shows "pick_address ev p mac res requested t tried checks =
    (if freeFor t ip mac res (ev_now ev) then Picked t ip else pick_address ev p mac res requested t (insert ip tried) checks)"
proof -
  have "\<not> c" if "\<not> freeFor t ip mac res (ev_now ev)"
    using candidate_cases [OF assms(2,1)] that by blast
  moreover have "conflict ev ip mac = False" "(maxConflictChecks \<le> checks) = False" using assms(3,4) by simp_all
  ultimately show ?thesis
    unfolding pick_address.simps [of ev p mac res requested t tried checks] assms(2) option.case prod.case
    by (cases "freeFor t ip mac res (ev_now ev)") simp_all
qed

lemma pick_address_finds:
  assumes inv: "lease_inv t" and a: "a \<in> set (addr_range (p_start p) (p_end p))" "dynamic p a" "freeFor t a mac res (ev_now ev)"
    and nc: "\<And>x. \<not> conflict ev x mac"
  shows "\<exists>ip. pick_address ev p mac res requested t {} 0 = Picked t ip \<and> usable p ip \<and> freeFor t ip mac res (ev_now ev)"
proof -
  have some: "\<exists>ip c. candidate t p mac res requested tried (ev_now ev) = Some (ip, c)" if "a \<notin> tried" for tried
    using candidate_None [OF _ a(1) that a(2)] a(3) by (cases "candidate t p mac res requested tried (ev_now ev)") auto
  have use: "usable p ip" if "candidate t p mac res requested tried (ev_now ev) = Some (ip, c)" for ip c tried
    using candidate_cases [OF that inv] by (auto simp: dynamic_def)
  have zero: "0 < maxConflictChecks" by (simp add: maxConflictChecks_def)
  obtain ip c where 1: "candidate t p mac res requested {} (ev_now ev) = Some (ip, c)" using some by blast
  note step = pick_address_step [OF inv 1 zero nc]
  show ?thesis
  proof (cases "freeFor t ip mac res (ev_now ev)")
    case True
    then show ?thesis using step use [OF 1] by simp
  next
    case False
    then obtain r where r: "res = Some r" "ip = s_ip (tb_sheap t r)" using candidate_cases [OF 1 inv] by blast
    have "a \<notin> {ip}" using False a(3) by auto
    then obtain ip' c' where 2: "candidate t p mac res requested {ip} (ev_now ev) = Some (ip', c')" using some by blast
    then have "freeFor t ip' mac res (ev_now ev)" using candidate_cases [OF 2 inv] r by auto
    then show ?thesis using step False pick_address_step [OF inv 2 zero nc] use [OF 2] by simp
  qed
qed

subsection \<open>An example\<close>

definition w_pool :: pool where
  "w_pool = \<lparr>p_subnet = Pfx (V4 0xC0A80100) 24, p_start = V4 0xC0A80164, p_end = V4 0xC0A80166, p_skip = [V4 0xC0A80100, V4 0xC0A801FF, V4 0xC0A80101]\<rparr>"

definition w_view :: view where
  "w_view = \<lparr>vw_enabled = True, vw_iface = \<lparr>if_name = ''eth0'', if_index = 2, if_self = Pfx (V4 0xC0A80101) 24, if_problem = []\<rparr>,
     vw_pool = w_pool, vw_serving = True, vw_leaseTime = Hour, vw_opts = [], vw_onlyReserved = False, vw_rapidCommit = False,
     vw_ignoreOthers = False\<rparr>"

definition w_env :: env where
  "w_env = \<lparr>ev_now = 0, ev_neighbour = None, ev_socket = Some (\<lambda>_ _. True), ev_enabled = True, ev_domain = ''lan'', ev_register = True,
     ev_generate = False, ev_order = [], ev_String = (\<lambda>_. [])\<rparr>"

definition w_service :: service where
  "w_service = new_service\<lparr>sv_t := store_lease w_lease newTable\<rparr>"

definition w_packet :: bytes where
  "w_packet = newRequest 7 (V4 0) [2, 0, 0, 0, 0, 9] msgDiscover"

lemma w_packet_client: "(case parseMessage w_packet of Inr m \<Rightarrow> macString (dm_mac m) = Some ''02:00:00:00:00:09'' | Inl _ \<Rightarrow> False)"
  by code_simp

lemma w_service_inv: "table_inv (sv_t w_service)"
  by (simp add: w_service_def table_inv_store_lease newTable_inv)

lemma w_service_lookups:
  "lease_of (sv_t w_service) ''02:00:00:00:00:01'' = Some w_lease"
  "freeFor (sv_t w_service) (V4 0xC0A80165) ''02:00:00:00:00:09'' None 0"
  "dynamic w_pool (V4 0xC0A80165)"
  by code_simp+

subsection \<open>The exchange log\<close>

definition log_inv :: "LogEntry list \<Rightarrow> exchangeLog \<Rightarrow> bool" where
  "log_inv h l \<longleftrightarrow> length (xl_ring l) = MaxLog \<and> xl_next l = length h mod MaxLog \<and> xl_n l = min (length h) MaxLog
     \<and> (\<forall>k < length h. length h \<le> k + MaxLog \<longrightarrow> xl_ring l ! (k mod MaxLog) = h ! k)"

lemma MaxLog_pos [simp]: "0 < MaxLog"
  by (simp add: MaxLog_def)

lemma mod_window_inj: "k mod n = m mod n \<Longrightarrow> k < m \<Longrightarrow> m < k + n \<Longrightarrow> False" for k m n :: nat
proof -
  assume a: "k mod n = m mod n" "k < m" "m < k + n"
  then have "n dvd m - k" by (metis less_imp_le mod_eq_dvd_iff_nat)
  then have "n \<le> m - k" using a(2) by (simp add: dvd_imp_le)
  then show False using a(2,3) by linarith
qed

lemma log_inv_add: "log_inv h l \<Longrightarrow> log_inv (h @ [e]) (xl_add e l)"
proof -
  assume l: "log_inv h l"
  have "(xl_ring l)[length h mod MaxLog := e] ! (k mod MaxLog) = (h @ [e]) ! k" if k: "k < Suc (length h)" "Suc (length h) \<le> k + MaxLog" for k
  proof (cases "k = length h")
    case True
    then show ?thesis using l by (simp add: log_inv_def)
  next
    case False
    then have "k < length h" using k(1) by simp
    then have "length h mod MaxLog \<noteq> k mod MaxLog" using mod_window_inj [of k MaxLog "length h"] k(2) by auto
    then show ?thesis using l \<open>k < length h\<close> k(2) by (simp add: log_inv_def nth_append)
  qed
  then show ?thesis
    using l by (simp add: log_inv_def xl_add_def mod_Suc_eq)
qed

lemma xl_list_alt:
  "xl_list limit l = map (\<lambda>i. xl_ring l ! ((xl_next l + MaxLog - Suc i) mod MaxLog)) [0..<min (nat limit) (xl_n l)]"
proof -
  have "[1..<min (nat limit) (xl_n l) + 1] = map Suc [0..<min (nat limit) (xl_n l)]" by (simp only: map_Suc_upt One_nat_def add_Suc_right add_0_right)
  then show ?thesis by (simp add: xl_list_def comp_def del: upt_Suc)
qed

lemma log_inv_list:
  assumes "log_inv h l"
  shows "xl_list limit l = take (min (nat limit) MaxLog) (rev h)"
proof (rule nth_equalityI)
  let ?n = "min (nat limit) (xl_n l)"
  have n: "?n \<le> length h" "?n \<le> MaxLog" using assms by (auto simp: log_inv_def)
  show "length (xl_list limit l) = length (take (min (nat limit) MaxLog) (rev h))"
    using assms by (simp add: xl_list_alt log_inv_def)
  fix i assume "i < length (xl_list limit l)"
  then have i: "i < ?n" by (simp add: xl_list_alt)
  let ?k = "length h - Suc i"
  have "(length h mod MaxLog + MaxLog - Suc i) mod MaxLog = ?k mod MaxLog"
  proof -
    have "(length h mod MaxLog + MaxLog - Suc i) mod MaxLog = (length h mod MaxLog + (MaxLog - Suc i)) mod MaxLog"
      using i n(2) by (subst Nat.add_diff_assoc) linarith+
    also have "\<dots> = (length h + (MaxLog - Suc i)) mod MaxLog" by (simp add: mod_add_left_eq)
    also have "length h + (MaxLog - Suc i) = ?k + MaxLog" using i n by linarith
    finally show ?thesis by simp
  qed
  moreover have "xl_ring l ! (?k mod MaxLog) = h ! ?k"
  proof -
    have "?k < length h" "length h \<le> ?k + MaxLog" using i n by linarith+
    then show ?thesis using assms unfolding log_inv_def by blast
  qed
  ultimately show "xl_list limit l ! i = take (min (nat limit) MaxLog) (rev h) ! i"
    using assms i n by (simp add: xl_list_alt log_inv_def rev_nth)
qed

lemma log_inv_new: "log_inv [] new_log"
  by (simp add: log_inv_def new_log_def)

text \<open>The ring holds the last 200 exchanges and lists them newest first.\<close>

lemma xl_list_history: "xl_list limit (fold xl_add h new_log) = take (min (nat limit) MaxLog) (rev h)"
proof -
  have "log_inv (h0 @ h) (fold xl_add h l)" if "log_inv h0 l" for h0 l
    using that
  proof (induction h arbitrary: h0 l)
    case (Cons e h)
    then show ?case using Cons.IH [of "h0 @ [e]" "xl_add e l"] log_inv_add by simp
  qed simp
  from log_inv_list [OF this [OF log_inv_new]] show ?thesis by simp
qed

section \<open>Properties\<close>


text \<open>
  C7: no packet takes an active lease away from a client that did not send it: while its lease runs, the client keeps
  it unchanged, address and expiry, whatever others request, decline or release.
\<close>

theorem active_lease_kept:
  assumes "table_inv (sv_t s)" and "lease_of (sv_t s) mac = Some l" and "active l (ev_now ev)"
    and "\<And>m. parseMessage b = Inr m \<Longrightarrow> macString (dm_mac m) \<noteq> Some mac"
  shows "lease_of (sv_t (handle4 ev v b i from s)) mac = Some l"
proof (cases rule: handle4_cases [of ev v b i "from" s])
  case (served m mac' s' mt other)
  then have "mac \<noteq> mac'" using assms(4) by auto
  then show ?thesis using serve4_keeps_active [of s' mac l ev mac'] assms served by simp
qed (use assms in simp)

theorem active_lease_kept_witness:
  "active w_lease (ev_now w_env) \<and>
   lease_of (sv_t (handle4 w_env w_view w_packet 2 (V4 0) w_service)) ''02:00:00:00:00:01'' = Some w_lease"
proof
  show act: "active w_lease (ev_now w_env)" by code_simp
  show "lease_of (sv_t (handle4 w_env w_view w_packet 2 (V4 0) w_service)) ''02:00:00:00:00:01'' = Some w_lease"
    using w_packet_client by (intro active_lease_kept w_service_inv w_service_lookups act) auto
qed

text \<open>
  A DISCOVER is answered: while an address of the range is free for the client and no neighbour conflict shows up,
  the server offers a usable free address and holds it for the client for a minute, and when the socket takes the
  datagram the OFFER with that address is what it sends.
\<close>

lemma discover_offers:
  assumes "table_inv (sv_t s)" and "p_start (vw_pool v) = V4 lo" and "p_end (vw_pool v) = V4 hi"
    and "Is4 a" and "dynamic (vw_pool v) a" and "freeFor (sv_t s) a mac res (ev_now ev)"
    and "\<And>x. \<not> conflict ev x mac" and "\<not> vw_rapidCommit v" and "ev_socket ev = Some (\<lambda>_ _. True)"
  shows "\<exists>ip host d dst. usable (vw_pool v) ip \<and> freeFor (sv_t s) ip mac res (ev_now ev)
    \<and> sv_t (discover ev v m mac res cid s) = putOffer mac ip (ev_now ev + offerHold) (sv_t s)
    \<and> sv_sent (discover ev v m mac res cid s) = sv_sent s @
        [(buildReply m \<lparr>rf_typ = msgOffer, rf_ciaddr = NoAddr, rf_yiaddr = ip\<rparr> (pfx_Addr (if_self (vw_iface v)))
            (leaseOptions host d (vw_opts v)), dst)]"
proof -
  have inv: "lease_inv (sv_t s)" using assms(1) by (simp add: table_inv_def)
  have "a \<in> set (addr_range (p_start (vw_pool v)) (p_end (vw_pool v)))"
    using assms(2-5) by (rule dynamic_in_range)
  then obtain ip where ip: "pick_address ev (vw_pool v) mac res (addrOpt m optRequestedIP) (sv_t s) {} 0 = Picked (sv_t s) ip"
      "usable (vw_pool v) ip" "freeFor (sv_t s) ip mac res (ev_now ev)"
    using pick_address_finds [OF inv] assms(5-7) by blast
  show ?thesis
    using ip assms(8,9)
    by (intro exI [of _ ip] exI) (simp add: discover_def Let_def send_def set_table_def logExchange_def)
qed

end
