(* ===== verification/Semver.thy ===== *)
theory Semver
  imports Decimals "HOL-Library.List_Lexorder" "HOL-Library.Product_Lexorder"
begin

text \<open>
  Release versions of the updater, \<^verbatim>\<open>internal/update/semver.go\<close>: parsing, printing, precedence, the channels and the
  check that an installation is an update. The two regular expressions are written out as what they match.
\<close>

section \<open>Versions\<close>

definition maxVersionLen :: nat where "maxVersionLen = 128"

record Version =
  v_Major :: u64
  v_Minor :: u64
  v_Patch :: u64
  v_Pre :: "string list"

datatype version_error = InvalidVersion | LeadingZero | OutOfRange | EmptyIdentifier | IdentifierLeadingZero

definition pre_char :: "char \<Rightarrow> bool" where
  "pre_char c \<longleftrightarrow> is_digit c \<or> CHR ''A'' \<le> c \<and> c \<le> CHR ''Z'' \<or> CHR ''a'' \<le> c \<and> c \<le> CHR ''z'' \<or> c = CHR ''.'' \<or> c = CHR ''-''"

text \<open>\<^verbatim>\<open>strings.Cut\<close> at the first hyphen.\<close>

definition cut_pre :: "string \<Rightarrow> string \<times> string option" where
  "cut_pre s = (case strings_CutByte s (CHR ''-'') of None \<Rightarrow> (s, None) | Some (core, pre) \<Rightarrow> (core, Some pre))"

text \<open>\<^verbatim>\<open>^v\d+\.\d+\.\d+(-[0-9A-Za-z.-]+)?$\<close>: no part before the first hyphen has a hyphen.\<close>

definition versionRE :: "string \<Rightarrow> bool" where
  "versionRE s =
     (case s of
        [] \<Rightarrow> False
      | c # r \<Rightarrow>
          let (core, pre) = cut_pre r; nums = strings_Split (CHR ''.'') core in
          c = CHR ''v'' \<and> length nums = 3 \<and> list_all (\<lambda>p. p \<noteq> [] \<and> list_all is_digit p) nums
          \<and> (case pre of None \<Rightarrow> True | Some p \<Rightarrow> p \<noteq> [] \<and> list_all pre_char p))"

definition isNumeric :: "string \<Rightarrow> bool" where
  "isNumeric s \<longleftrightarrow> list_all is_digit s \<and> s \<noteq> []"

definition parse_num :: "string \<Rightarrow> version_error + u64" where
  "parse_num s =
     (if length s > 1 \<and> hd s = CHR ''0'' then Inl LeadingZero
      else if digits_value s \<ge> 2 ^ 64 then Inl OutOfRange
      else Inr (of_nat (digits_value s)))"

fun check_idents :: "string list \<Rightarrow> version_error option" where
  "check_idents [] = None"
| "check_idents (i # is) =
     (if i = [] then Some EmptyIdentifier
      else if isNumeric i \<and> length i > 1 \<and> hd i = CHR ''0'' then Some IdentifierLeadingZero
      else check_idents is)"

definition ParseVersion :: "string \<Rightarrow> version_error + Version" where
  "ParseVersion s =
     (if length s > maxVersionLen \<or> \<not> versionRE s then Inl InvalidVersion
      else let (core, pre) = cut_pre (tl s); nums = strings_Split (CHR ''.'') core in
        case parse_num (nums ! 0) of Inl err \<Rightarrow> Inl err | Inr major \<Rightarrow>
        case parse_num (nums ! 1) of Inl err \<Rightarrow> Inl err | Inr minor \<Rightarrow>
        case parse_num (nums ! 2) of Inl err \<Rightarrow> Inl err | Inr patch \<Rightarrow>
        case pre of
          None \<Rightarrow> Inr \<lparr>v_Major = major, v_Minor = minor, v_Patch = patch, v_Pre = []\<rparr>
        | Some p \<Rightarrow>
            let ids = strings_Split (CHR ''.'') p in
            case check_idents ids of
              Some err \<Rightarrow> Inl err
            | None \<Rightarrow> Inr \<lparr>v_Major = major, v_Minor = minor, v_Patch = patch, v_Pre = ids\<rparr>)"

definition Version_String :: "Version \<Rightarrow> string" where
  "Version_String v =
     (CHR ''v'' # strings_Join ''.'' [decimal (unat (v_Major v)), decimal (unat (v_Minor v)), decimal (unat (v_Patch v))])
     @ (if length (v_Pre v) > 0 then ''-'' @ strings_Join ''.'' (v_Pre v) else [])"

definition Prerelease :: "Version \<Rightarrow> bool" where
  "Prerelease v \<longleftrightarrow> length (v_Pre v) > 0"

definition IsNightly :: "string \<Rightarrow> bool" where
  "IsNightly s = strings_Contains s ''-nightly.''"

definition Offered :: "string \<Rightarrow> Version \<Rightarrow> bool" where
  "Offered channel v =
     (if \<not> Prerelease v then True
      else if IsNightly (Version_String v) then channel = ''nightly''
      else channel = ''beta'' \<or> channel = ''nightly'')"

definition ValidChannel :: "string \<Rightarrow> bool" where
  "ValidChannel c \<longleftrightarrow> c = ''stable'' \<or> c = ''beta'' \<or> c = ''nightly''"

section \<open>Precedence\<close>

text \<open>\<^verbatim>\<open>strings.Compare\<close> and the comparisons of numbers.\<close>

definition cmp3 :: "'a::linorder \<Rightarrow> 'a \<Rightarrow> int" where
  "cmp3 a b = (if a < b then -1 else if b < a then 1 else 0)"

definition compareIdent :: "string \<Rightarrow> string \<Rightarrow> int" where
  "compareIdent a b =
     (let an = isNumeric a; bn = isNumeric b in
      if an \<and> bn then if length a \<noteq> length b then if length a < length b then -1 else 1 else cmp3 a b
      else if an then -1
      else if bn then 1
      else cmp3 a b)"

fun compare_idents :: "string list \<Rightarrow> string list \<Rightarrow> int" where
  "compare_idents (a # as) (b # bs) = (let c = compareIdent a b in if c \<noteq> 0 then c else compare_idents as bs)"
| "compare_idents as bs = (if length as < length bs then -1 else if length as > length bs then 1 else 0)"

fun compare_numbers :: "(u64 \<times> u64) list \<Rightarrow> int" where
  "compare_numbers [] = 0"
| "compare_numbers ((a, b) # ps) = (if a < b then -1 else if a > b then 1 else compare_numbers ps)"

definition Compare :: "Version \<Rightarrow> Version \<Rightarrow> int" where
  "Compare a b =
     (let c = compare_numbers [(v_Major a, v_Major b), (v_Minor a, v_Minor b), (v_Patch a, v_Patch b)] in
      if c \<noteq> 0 then c
      else if length (v_Pre a) = 0 \<and> length (v_Pre b) = 0 then 0
      else if length (v_Pre a) = 0 then 1
      else if length (v_Pre b) = 0 then -1
      else compare_idents (v_Pre a) (v_Pre b))"

section \<open>The running version\<close>

record Running =
  r_Raw :: string
  r_Dev :: bool
  r_Base :: "Version option"

definition is_hex :: "char \<Rightarrow> bool" where
  "is_hex c \<longleftrightarrow> is_digit c \<or> CHR ''a'' \<le> c \<and> c \<le> CHR ''f''"

text \<open>\<^verbatim>\<open>-\d+-g[0-9a-f]{4,40}$\<close> on a suffix, and the left-most suffix it matches.\<close>

definition describe_tail :: "string \<Rightarrow> bool" where
  "describe_tail s =
     (case s of
        [] \<Rightarrow> False
      | c # r \<Rightarrow>
          let ds = takeWhile is_digit r; h = drop (length ds + 2) r in
          c = CHR ''-'' \<and> ds \<noteq> [] \<and> strings_HasPrefix (drop (length ds) r) ''-g'' \<and> 4 \<le> length h \<and> length h \<le> 40 \<and> list_all is_hex h)"

definition describeTailRE :: "string \<Rightarrow> nat option" where
  "describeTailRE s = find (\<lambda>i. describe_tail (drop i s)) [0..<length s]"

definition ParseRunning :: "string \<Rightarrow> Running" where
  "ParseRunning s =
     (let (base, dirty) = (case strings_CutSuffix s ''-dirty'' of Some b \<Rightarrow> (b, True) | None \<Rightarrow> (s, False));
          (base, described) = (case describeTailRE base of Some i \<Rightarrow> (take i base, True) | None \<Rightarrow> (base, False)) in
      case ParseVersion base of
        Inr v \<Rightarrow> \<lparr>r_Raw = s, r_Dev = (dirty \<or> described), r_Base = Some v\<rparr>
      | Inl _ \<Rightarrow> \<lparr>r_Raw = s, r_Dev = True, r_Base = None\<rparr>)"

definition Accepts :: "Running \<Rightarrow> Version \<Rightarrow> bool" where
  "Accepts r v = (case r_Base r of None \<Rightarrow> True | Some b \<Rightarrow> Compare v b > 0)"

datatype update_error = errNotNewer

definition checkNewer :: "string \<Rightarrow> Version \<Rightarrow> bool \<Rightarrow> update_error option" where
  "checkNewer current v allowDowngrade =
     (if allowDowngrade \<or> Accepts (ParseRunning current) v then None else Some errNotNewer)"

section \<open>Parsing and printing\<close>

definition ident_ok :: "string \<Rightarrow> bool" where
  "ident_ok i \<longleftrightarrow> i \<noteq> [] \<and> list_all pre_char i \<and> CHR ''.'' \<notin> set i \<and> \<not> (isNumeric i \<and> length i > 1 \<and> hd i = CHR ''0'')"

definition wf_version :: "Version \<Rightarrow> bool" where
  "wf_version v = list_all ident_ok (v_Pre v)"

lemma parse_num_iff:
  assumes "s \<noteq> []" and "list_all is_digit s"
  shows "parse_num s = Inr n \<longleftrightarrow> s = decimal (unat n)"
proof
  assume a: "parse_num s = Inr n"
  then have "plain_number s" "digits_value s < 2 ^ 64" "n = of_nat (digits_value s)"
    using assms by (auto simp: parse_num_def plain_number_def split: if_splits)
  then show "s = decimal (unat n)" using decimal_digits_value by (simp add: unat_of_nat take_bit_eq_mod)
next
  assume s: "s = decimal (unat n)"
  have "plain_number s" using s by simp
  then have "\<not> (length s > 1 \<and> hd s = CHR ''0'')" unfolding plain_number_def by blast
  moreover have "unat n < 2 ^ 64" using unsigned_less [of n] by simp
  ultimately show "parse_num s = Inr n" using s by (auto simp: parse_num_def)
qed

lemma check_idents_None:
  "check_idents is = None \<longleftrightarrow> list_all (\<lambda>i. i \<noteq> [] \<and> \<not> (isNumeric i \<and> length i > 1 \<and> hd i = CHR ''0'')) is"
  by (induction "is") auto

lemma digit_not_sep: "list_all is_digit s \<Longrightarrow> CHR ''.'' \<notin> set s" "list_all is_digit s \<Longrightarrow> CHR ''-'' \<notin> set s"
  by (auto simp: list_all_iff is_digit_iff)

lemma cut_pre_append:
  "CHR ''-'' \<notin> set core \<Longrightarrow> cut_pre core = (core, None)"
  "CHR ''-'' \<notin> set core \<Longrightarrow> cut_pre (core @ CHR ''-'' # p) = (core, Some p)"
  by (simp_all add: cut_pre_def CutByte_append strings_CutByte_def [of core])

lemma cut_pre_cases:
  assumes "cut_pre s = (core, pre)"
  shows "CHR ''-'' \<notin> set core \<and> s = core @ (case pre of None \<Rightarrow> [] | Some p \<Rightarrow> CHR ''-'' # p)"
proof (cases "CHR ''-'' \<in> set s")
  case True
  then obtain xs p where s: "s = xs @ CHR ''-'' # p" "CHR ''-'' \<notin> set xs" by (metis split_list_first)
  then show ?thesis using assms cut_pre_append(2) [OF s(2), of p] by auto
next
  case False
  then show ?thesis using assms cut_pre_append(1) [OF False] by auto
qed

definition core_string :: "Version \<Rightarrow> string" where
  "core_string v = strings_Join ''.'' [decimal (unat (v_Major v)), decimal (unat (v_Minor v)), decimal (unat (v_Patch v))]"

lemma core_string_parts:
  "strings_Split (CHR ''.'') (core_string v) = [decimal (unat (v_Major v)), decimal (unat (v_Minor v)), decimal (unat (v_Patch v))]"
  "CHR ''-'' \<notin> set (core_string v)"
proof -
  show "strings_Split (CHR ''.'') (core_string v) = [decimal (unat (v_Major v)), decimal (unat (v_Minor v)), decimal (unat (v_Patch v))]"
    unfolding core_string_def by (rule Split_Join) (auto simp: digit_not_sep)
  show "CHR ''-'' \<notin> set (core_string v)" by (auto simp: core_string_def digit_not_sep)
qed

lemma Version_String_alt:
  "Version_String v = CHR ''v'' # core_string v @ (if v_Pre v = [] then [] else CHR ''-'' # strings_Join ''.'' (v_Pre v))"
  by (simp add: Version_String_def core_string_def)

lemma Join_chars: "list_all (list_all P) ps \<Longrightarrow> P c \<Longrightarrow> list_all P (strings_Join [c] ps)"
  by (induction "[c]" ps rule: strings_Join.induct) auto

lemma Split_chars: "list_all P s \<Longrightarrow> list_all (list_all P) (strings_Split c s)"
  by (induction s) (auto split: list.splits)

lemma Join_nonempty: "ps \<noteq> [] \<Longrightarrow> hd ps \<noteq> [] \<Longrightarrow> strings_Join sep ps \<noteq> []"
  by (cases "(sep, ps)" rule: strings_Join.cases) auto

lemma wf_pre:
  assumes "wf_version v" and "v_Pre v \<noteq> []"
  shows "strings_Split (CHR ''.'') (strings_Join ''.'' (v_Pre v)) = v_Pre v" "strings_Join ''.'' (v_Pre v) \<noteq> []"
    "list_all pre_char (strings_Join ''.'' (v_Pre v))" "check_idents (v_Pre v) = None"
proof -
  have ids: "list_all ident_ok (v_Pre v)" using assms(1) by (simp add: wf_version_def)
  show "strings_Split (CHR ''.'') (strings_Join ''.'' (v_Pre v)) = v_Pre v"
    using ids assms(2) by (intro Split_Join) (auto simp: list_all_iff ident_ok_def)
  show "strings_Join ''.'' (v_Pre v) \<noteq> []"
    using ids assms(2) by (intro Join_nonempty) (auto simp: ident_ok_def neq_Nil_conv)
  show "list_all pre_char (strings_Join ''.'' (v_Pre v))"
    using ids by (intro Join_chars) (auto simp: list_all_iff ident_ok_def pre_char_def)
  show "check_idents (v_Pre v) = None"
    using ids by (auto simp: check_idents_None list_all_iff ident_ok_def)
qed

lemma parse_string:
  assumes "wf_version v" and "length (Version_String v) \<le> maxVersionLen"
  shows "ParseVersion (Version_String v) = Inr v"
proof -
  have nums: "parse_num (decimal (unat n)) = Inr n" for n :: u64 by (simp add: parse_num_iff)
  have len: "\<not> length (Version_String v) > maxVersionLen" using assms(2) by simp
  show ?thesis
  proof (cases "v_Pre v = []")
    case True
    have "cut_pre (core_string v) = (core_string v, None)" by (rule cut_pre_append) (rule core_string_parts)
    then show ?thesis
      using True len nums by (cases v) (simp add: ParseVersion_def versionRE_def Version_String_alt core_string_parts Let_def)
  next
    case False
    have "cut_pre (core_string v @ CHR ''-'' # strings_Join ''.'' (v_Pre v)) = (core_string v, Some (strings_Join ''.'' (v_Pre v)))"
      by (rule cut_pre_append) (rule core_string_parts)
    then show ?thesis
      using False len nums wf_pre [OF assms(1) False]
      by (cases v) (simp add: ParseVersion_def versionRE_def Version_String_alt core_string_parts Let_def)
  qed
qed

lemma string_parse:
  assumes "ParseVersion s = Inr v"
  shows "Version_String v = s \<and> length s \<le> maxVersionLen \<and> wf_version v"
proof -
  have len: "length s \<le> maxVersionLen" and re: "versionRE s" using assms by (auto simp: ParseVersion_def split: if_splits)
  then obtain r where s: "s = CHR ''v'' # r" by (auto simp: versionRE_def Let_def split: list.splits prod.splits)
  obtain core pre where cut: "cut_pre r = (core, pre)" by fastforce
  obtain a b c where nums: "strings_Split (CHR ''.'') core = [a, b, c]"
    using re by (auto simp: s versionRE_def cut length_Suc_conv numeral_3_eq_3 Let_def)
  have dig: "a \<noteq> []" "list_all is_digit a" "b \<noteq> []" "list_all is_digit b" "c \<noteq> []" "list_all is_digit c"
      "pre = Some p \<Longrightarrow> list_all pre_char p" for p
    using re by (auto simp: s versionRE_def cut nums Let_def)
  have vals: "parse_num a = Inr (v_Major v)" "parse_num b = Inr (v_Minor v)" "parse_num c = Inr (v_Patch v)"
      "v_Pre v = (case pre of None \<Rightarrow> [] | Some p \<Rightarrow> strings_Split (CHR ''.'') p)"
      "pre = Some p \<Longrightarrow> check_idents (strings_Split (CHR ''.'') p) = None" for p
    using assms len re by (auto simp: ParseVersion_def s cut nums Let_def split: sum.splits option.splits)
  have core: "core = core_string v"
    using Join_Split [of "CHR ''.''" core] vals(1-3) dig(1-6) by (simp add: nums core_string_def parse_num_iff)
  have str: "Version_String v = s"
    using cut_pre_cases [OF cut] Join_Split [of "CHR ''.''"] by (auto simp: Version_String_alt s core vals(4) split: option.splits)
  have "wf_version v"
  proof (cases pre)
    case (Some p)
    have "list_all (list_all pre_char) (strings_Split (CHR ''.'') p)" using dig(7) [OF Some] by (rule Split_chars)
    then show ?thesis
      using vals(5) [OF Some] Split_no_sep [of _ "CHR ''.''" p]
      by (auto simp: wf_version_def vals(4) Some check_idents_None list_all_iff ident_ok_def)
  qed (simp add: wf_version_def vals(4))
  with str len show ?thesis by simp
qed

text \<open>
  C38: parsing and printing versions are inverse to each other: a text parses to a version exactly when it is the
  canonical text of that version (no leading zeros, no other spelling), its identifiers are well formed and it is at
  most 128 bytes long. So two different texts never denote the same version.
\<close>

theorem ParseVersion_canonical:
  "ParseVersion s = Inr v \<longleftrightarrow> Version_String v = s \<and> length s \<le> maxVersionLen \<and> wf_version v"
  using string_parse parse_string by blast

section \<open>Precedence is a total order\<close>

text \<open>
  The reference: versions ordered by their numbers, a release after its pre-releases, pre-releases by their identifiers
  (a prefix first), numeric identifiers by length and digits and before the others.
\<close>

definition ident_key :: "string \<Rightarrow> nat \<times> nat \<times> string" where
  "ident_key i = (if isNumeric i then (0, length i, i) else (1, 0, i))"

definition version_key :: "Version \<Rightarrow> u64 \<times> u64 \<times> u64 \<times> nat \<times> (nat \<times> nat \<times> string) list" where
  "version_key v = (v_Major v, v_Minor v, v_Patch v, if v_Pre v = [] then 1 else 0, map ident_key (v_Pre v))"

lemma cmp3_prod: "cmp3 (a, b) (c, d) = (if cmp3 a c \<noteq> 0 then cmp3 a c else cmp3 b d)"
  by (auto simp: cmp3_def less_prod_def)

lemma cmp3_list: "cmp3 (a # as) (b # bs) = (if cmp3 a b \<noteq> 0 then cmp3 a b else cmp3 as bs)" "cmp3 [] (b # bs) = -1"
  "cmp3 (a # as) [] = 1" "cmp3 x x = 0"
  by (auto simp: cmp3_def)

lemma cmp3_zero: "cmp3 a b = 0 \<longleftrightarrow> a = b"
  by (auto simp: cmp3_def)

lemma cmp3_nat: "cmp3 (0::nat) (Suc n) = -1" "cmp3 (Suc n) (0::nat) = 1"
  by (simp_all add: cmp3_def)

lemma compareIdent_key: "compareIdent a b = cmp3 (ident_key a) (ident_key b)"
proof (cases "isNumeric a \<and> isNumeric b")
  case True
  then have "compareIdent a b = (if cmp3 (length a) (length b) \<noteq> 0 then cmp3 (length a) (length b) else cmp3 a b)"
    by (simp add: compareIdent_def cmp3_def [of "length a"])
  then show ?thesis using True by (simp add: ident_key_def cmp3_prod cmp3_list(4))
next
  case False
  then show ?thesis
    by (cases "isNumeric a"; cases "isNumeric b") (simp_all add: compareIdent_def ident_key_def cmp3_prod cmp3_list(4) cmp3_nat)
qed

lemma compare_idents_key: "compare_idents as bs = cmp3 (map ident_key as) (map ident_key bs)"
proof (induction as arbitrary: bs)
  case Nil
  then show ?case by (cases bs) (simp_all add: cmp3_list)
next
  case (Cons a as)
  then show ?case by (cases bs) (simp_all add: cmp3_list compareIdent_key Let_def)
qed

lemma compare_numbers_key: "compare_numbers [(a, b), (c, d), (e, f)] = cmp3 (a, c, e) (b, d, f)"
  by (simp add: cmp3_prod cmp3_def)

lemma ident_key_inj: "ident_key a = ident_key b \<Longrightarrow> a = b"
  by (auto simp: ident_key_def split: if_splits)

lemma version_key_inj: "version_key a = version_key b \<longleftrightarrow> a = b"
proof
  assume k: "version_key a = version_key b"
  then have "v_Pre a = v_Pre b"
    using inj_onI [of UNIV ident_key] ident_key_inj by (auto simp: version_key_def dest!: map_injective)
  then show "a = b" using k by (cases a; cases b) (simp add: version_key_def)
qed simp

lemma Compare_key: "Compare a b = cmp3 (version_key a) (version_key b)"
  by (cases "v_Pre a"; cases "v_Pre b")
    (simp_all add: Compare_def compare_numbers_key compare_idents_key version_key_def cmp3_prod cmp3_list(4) cmp3_nat Let_def del: compare_numbers.simps)

text \<open>
  C39: precedence is the total order of the reference: the three values of \<^verbatim>\<open>Compare\<close> say smaller, equal and greater in it,
  and only equal versions compare as equal.
\<close>

theorem Compare_total_order:
  "(Compare a b = -1 \<longleftrightarrow> version_key a < version_key b) \<and> (Compare a b = 1 \<longleftrightarrow> version_key b < version_key a)
   \<and> (Compare a b = 0 \<longleftrightarrow> a = b) \<and> Compare a b \<in> {-1, 0, 1}"
  unfolding version_key_inj [symmetric] Compare_key cmp3_def by auto



end
