(* ===== verification/Ranges.thy ===== *)
theory Ranges
  imports Decimals
begin

text \<open>
  Range requests of the download cache, \<^verbatim>\<open>internal/dlcache/proxy/ranges.go\<close>: parsing the header, the plan of a response and
  the \<^verbatim>\<open>Content-Range\<close> of the origin. Sizes are integers: the parsers admit at most 18 digits. A header is a function from
  names to values; \<^verbatim>\<open>http.ParseTime\<close> and the random multipart boundary are arguments.
\<close>

definition maxRanges :: nat where "maxRanges = 16"
definition maxRangeHeader :: nat where "maxRangeHeader = 4096"

record byteRange =
  br_start :: int
  br_end :: int

definition br_length :: "byteRange \<Rightarrow> int" where
  "br_length r = br_end r - br_start r + 1"

record rangeSpec =
  sp_start :: int
  sp_end :: int

definition resolve :: "rangeSpec \<Rightarrow> int \<Rightarrow> byteRange option" where
  "resolve sp sz =
     (if sp_start sp < 0 then
        if sp_end sp = 0 \<or> sz = 0 then None
        else Some \<lparr>br_start = max 0 (sz - sp_end sp), br_end = sz - 1\<rparr>
      else if sp_start sp \<ge> sz then None
      else Some \<lparr>br_start = sp_start sp, br_end = (if sp_end sp < 0 \<or> sp_end sp \<ge> sz then sz - 1 else sp_end sp)\<rparr>)"

record rangeHeader =
  rh_specs :: "rangeSpec list"
  rh_tooMany :: bool

definition parseDigits :: "string \<Rightarrow> int option" where
  "parseDigits s = (if s = [] \<or> length s > 18 \<or> \<not> list_all is_digit s then None else Some (int (digits_value s)))"

text \<open>\<^verbatim>\<open>strings.Trim(s, " \t")\<close>.\<close>

definition blank :: "char \<Rightarrow> bool" where
  "blank c \<longleftrightarrow> c = CHR '' '' \<or> c = CHR 0x09"

definition trim_blank :: "string \<Rightarrow> string" where
  "trim_blank s = rev (dropWhile blank (rev (dropWhile blank s)))"

definition parse_spec :: "string \<Rightarrow> rangeSpec option" where
  "parse_spec part =
     (case strings_CutByte part (CHR ''-'') of
        None \<Rightarrow> None
      | Some (first0, last0) \<Rightarrow>
          let first = trim_blank first0; lst = trim_blank last0 in
          if first = [] then map_option (\<lambda>n. \<lparr>sp_start = -1, sp_end = n\<rparr>) (parseDigits lst)
          else case parseDigits first of
              None \<Rightarrow> None
            | Some a \<Rightarrow>
                if lst = [] then Some \<lparr>sp_start = a, sp_end = -1\<rparr>
                else case parseDigits lst of
                    None \<Rightarrow> None
                  | Some b \<Rightarrow> if b < a then None else Some \<lparr>sp_start = a, sp_end = b\<rparr>)"

fun range_specs :: "string list \<Rightarrow> rangeSpec list \<Rightarrow> rangeHeader option" where
  "range_specs [] specs = Some \<lparr>rh_specs = specs, rh_tooMany = False\<rparr>"
| "range_specs (part0 # parts) specs =
     (let part = trim_blank part0 in
      if part = [] then range_specs parts specs
      else if length specs = maxRanges then Some \<lparr>rh_specs = specs, rh_tooMany = True\<rparr>
      else case parse_spec part of
          None \<Rightarrow> None
        | Some sp \<Rightarrow> range_specs parts (specs @ [sp]))"

text \<open>\<^verbatim>\<open>parseRange\<close> of the values of the Range header.\<close>

definition parseRange :: "string list \<Rightarrow> rangeHeader option" where
  "parseRange vv =
     (if length vv \<noteq> 1 \<or> length (vv ! 0) > maxRangeHeader then None
      else case strings_CutByte (vv ! 0) (CHR ''='') of
          None \<Rightarrow> None
        | Some (unit, elems) \<Rightarrow>
            if fold_ascii (strings_TrimSpace unit) \<noteq> ''bytes'' then None
            else case range_specs (strings_Split (CHR '','') elems) [] of
                None \<Rightarrow> None
              | Some rh \<Rightarrow> if length (rh_specs rh) = 0 then None else Some rh)"

type_synonym header = "string \<Rightarrow> string"

definition firstSliceIndex :: "rangeHeader option \<Rightarrow> header \<Rightarrow> int \<Rightarrow> int" where
  "firstSliceIndex rh h sliceSize =
     (case rh of
        None \<Rightarrow> 0
      | Some x \<Rightarrow>
          if rh_tooMany x \<or> length (rh_specs x) \<noteq> 1 \<or> sp_start (rh_specs x ! 0) < 0 \<or> h ''If-Range'' \<noteq> [] then 0
          else sp_start (rh_specs x ! 0) div sliceSize)"

record plan =
  pn_status :: int
  pn_total :: int
  pn_ranges :: "byteRange list"
  pn_contentLength :: int
  pn_multipart :: bool
  pn_contentType :: string
  pn_boundary :: string
  pn_parts :: "string list"
  pn_trailer :: string

definition no_plan :: plan where
  "no_plan = \<lparr>pn_status = 0, pn_total = 0, pn_ranges = [], pn_contentLength = 0, pn_multipart = False, pn_contentType = [],
     pn_boundary = [], pn_parts = [], pn_trailer = []\<rparr>"

definition FormatInt :: "int \<Rightarrow> string" where
  "FormatInt i = (if i < 0 then CHR ''-'' # decimal (nat (- i)) else decimal (nat i))"

definition contentRange :: "byteRange \<Rightarrow> int \<Rightarrow> string" where
  "contentRange r sz = ''bytes '' @ FormatInt (br_start r) @ ''-'' @ FormatInt (br_end r) @ ''/'' @ FormatInt sz"

definition notModified :: "(string \<Rightarrow> int option) \<Rightarrow> header \<Rightarrow> string \<Rightarrow> bool" where
  "notModified ParseTime req lastModified =
     (let ims = req ''If-Modified-Since'' in
      if ims = [] \<or> lastModified = [] \<or> req ''If-None-Match'' \<noteq> [] then False
      else case (ParseTime ims, ParseTime lastModified) of
          (Some t, Some m) \<Rightarrow> \<not> m > t
        | _ \<Rightarrow> False)"

definition ifRangeMatches :: "(string \<Rightarrow> int option) \<Rightarrow> string \<Rightarrow> string \<Rightarrow> bool" where
  "ifRangeMatches ParseTime v0 lastModified =
     (let v = strings_TrimSpace v0 in
      if v = [] \<or> lastModified = [] \<or> strings_HasPrefix v [CHR 0x22] \<or> strings_HasPrefix v ''W/'' then False
      else case (ParseTime v, ParseTime lastModified) of
          (Some t, Some m) \<Rightarrow> t = m
        | _ \<Rightarrow> False)"

definition CRLF :: string where "CRLF = [CHR 0x0D, CHR 0x0A]"

definition part_header :: "string \<Rightarrow> string \<Rightarrow> int \<Rightarrow> nat \<Rightarrow> byteRange \<Rightarrow> string" where
  "part_header boundary contentType sz i r =
     (if i > 0 then CRLF else []) @ ''--'' @ boundary @ CRLF
     @ (if contentType \<noteq> [] then ''Content-Type: '' @ contentType @ CRLF else [])
     @ ''Content-Range: '' @ contentRange r sz @ CRLF @ CRLF"

fun ascending :: "byteRange list \<Rightarrow> bool" where
  "ascending (r # s # rs) \<longleftrightarrow> \<not> br_start s \<le> br_end r \<and> ascending (s # rs)"
| "ascending _ = True"

definition multipart_plan :: "string \<Rightarrow> string \<Rightarrow> int \<Rightarrow> byteRange list \<Rightarrow> plan" where
  "multipart_plan boundary ct sz rs =
     (let parts = map (\<lambda>(i, r). part_header boundary ct sz i r) (List.enumerate 0 rs);
          trailer = CRLF @ ''--'' @ boundary @ ''--'' @ CRLF in
      no_plan\<lparr>pn_status := 206, pn_total := sz, pn_ranges := rs, pn_multipart := True, pn_contentType := ct,
        pn_boundary := boundary, pn_parts := parts, pn_trailer := trailer,
        pn_contentLength := sum_list (map (\<lambda>(p, r). int (length p) + br_length r) (zip parts rs)) + int (length trailer)\<rparr>)"

definition makePlan :: "(string \<Rightarrow> int option) \<Rightarrow> string \<Rightarrow> rangeHeader option \<Rightarrow> header \<Rightarrow> int \<Rightarrow> header \<Rightarrow> plan" where
  "makePlan ParseTime boundary rh0 req sz stored =
     (let lm = stored ''Last-Modified'' in
      if notModified ParseTime req lm then no_plan\<lparr>pn_status := 304, pn_total := sz\<rparr>
      else let rh = (if rh0 \<noteq> None \<and> req ''If-Range'' \<noteq> [] \<and> \<not> ifRangeMatches ParseTime (req ''If-Range'') lm then None else rh0);
               full = no_plan\<lparr>pn_status := 200, pn_total := sz, pn_contentLength := sz,
                 pn_ranges := (if sz > 0 then [\<lparr>br_start = 0, br_end = sz - 1\<rparr>] else [])\<rparr> in
        case rh of
          None \<Rightarrow> full
        | Some h \<Rightarrow>
            if rh_tooMany h then full
            else let rs = List.map_filter (\<lambda>sp. resolve sp sz) (rh_specs h) in
              if length rs = 0 then no_plan\<lparr>pn_status := 416, pn_total := sz\<rparr>
              else if length rs = 1 then
                no_plan\<lparr>pn_status := 206, pn_total := sz, pn_ranges := rs, pn_contentLength := br_length (rs ! 0)\<rparr>
              else if \<not> ascending rs then full
              else multipart_plan boundary (stored ''Content-Type'') sz rs)"

definition parseContentRange :: "string \<Rightarrow> (int \<times> int \<times> int) option" where
  "parseContentRange v =
     (case strings_CutByte (strings_TrimSpace v) (CHR '' '') of
        None \<Rightarrow> None
      | Some (unit, rest) \<Rightarrow>
          if fold_ascii unit \<noteq> ''bytes'' then None
          else case strings_CutByte (strings_TrimSpace rest) (CHR ''/'') of
              None \<Rightarrow> None
            | Some (rng, tot) \<Rightarrow>
          case strings_CutByte rng (CHR ''-'') of
              None \<Rightarrow> None
            | Some (a, b) \<Rightarrow>
          case parseDigits a of
              None \<Rightarrow> None
            | Some start \<Rightarrow>
          case parseDigits b of
              None \<Rightarrow> None
            | Some en \<Rightarrow>
                if en < start then None
                else if tot = ''*'' then Some (start, en, -1)
                else case parseDigits tot of
                    None \<Rightarrow> None
                  | Some sz \<Rightarrow> if en \<ge> sz then None else Some (start, en, sz))"

section \<open>Plans stay inside the object\<close>

definition in_object :: "int \<Rightarrow> byteRange \<Rightarrow> bool" where
  "in_object sz r \<longleftrightarrow> 0 \<le> br_start r \<and> br_start r \<le> br_end r \<and> br_end r < sz"

text \<open>What the parser guarantees of a spec.\<close>

definition spec_ok :: "rangeSpec \<Rightarrow> bool" where
  "spec_ok sp \<longleftrightarrow> (if sp_start sp < 0 then 0 \<le> sp_end sp else sp_end sp < 0 \<or> sp_start sp \<le> sp_end sp)"

lemma parseDigits_nonneg: "parseDigits s = Some n \<Longrightarrow> 0 \<le> n \<and> n < 10 ^ 18"
proof -
  assume "parseDigits s = Some n"
  then have s: "length s \<le> 18" "list_all is_digit s" "n = int (digits_value s)" by (auto simp: parseDigits_def split: if_splits)
  then have "digits_value s < 10 ^ 18"
    using digits_value_bound [OF s(2)] power_increasing [OF s(1), of "10::nat"] by simp
  then have "int (digits_value s) < int (10 ^ 18)" by (simp only: of_nat_less_iff)
  then show ?thesis using s(3) by simp
qed

lemma parse_spec_ok: "parse_spec part = Some sp \<Longrightarrow> spec_ok sp"
  by (auto simp: parse_spec_def spec_ok_def Let_def dest!: parseDigits_nonneg split: option.splits if_splits prod.splits)

lemma range_specs_ok: "range_specs parts specs = Some rh \<Longrightarrow> list_all spec_ok specs \<Longrightarrow> length specs \<le> maxRanges \<Longrightarrow>
    list_all spec_ok (rh_specs rh) \<and> length (rh_specs rh) \<le> maxRanges"
proof (induction parts specs rule: range_specs.induct)
  case (2 part0 parts specs)
  then show ?case by (fastforce simp: Let_def dest: parse_spec_ok split: if_splits option.splits)
qed auto

lemma parseRange_ok: "parseRange vv = Some rh \<Longrightarrow> list_all spec_ok (rh_specs rh) \<and> length (rh_specs rh) \<le> maxRanges \<and> rh_specs rh \<noteq> []"
  by (auto simp: parseRange_def dest: range_specs_ok split: if_splits option.splits prod.splits)

lemma resolve_in_object: "spec_ok sp \<Longrightarrow> resolve sp sz = Some r \<Longrightarrow> 0 \<le> sz \<Longrightarrow> in_object sz r"
  by (auto simp: resolve_def spec_ok_def in_object_def split: if_splits)

lemma map_filter_in_object:
  "list_all spec_ok specs \<Longrightarrow> 0 \<le> sz \<Longrightarrow> list_all (in_object sz) (List.map_filter (\<lambda>sp. resolve sp sz) specs)"
  by (auto simp: list_all_iff map_filter_def intro: resolve_in_object)

lemma map_filter_length: "length (List.map_filter f xs) \<le> length xs"
  by (simp add: map_filter_def)

lemma ascending_sorted:
  "ascending rs \<Longrightarrow> list_all (in_object sz) rs \<Longrightarrow> sorted_wrt (\<lambda>r s. br_end r < br_start s) rs"
proof (induction rs rule: ascending.induct)
  case (1 r s rs)
  then have "br_end r < br_start s" "in_object sz s" "sorted_wrt (\<lambda>r s. br_end r < br_start s) (s # rs)" by auto
  then have "br_end r < br_start x" if "x \<in> set (s # rs)" for x
    using that by (force simp: in_object_def)
  then show ?case using 1 by simp
qed auto

lemma sum_list_zip:
  "length ps = length rs \<Longrightarrow>
    sum_list (map (\<lambda>(p, r). int (length p) + f r) (zip ps rs)) = int (length (concat ps)) + sum_list (map f rs)"
  by (induction ps rs rule: list_induct2) auto

text \<open>The body a plan stands for: the parts, the bytes of the ranges and the closing delimiter.\<close>

definition body_length :: "plan \<Rightarrow> int" where
  "body_length p = int (length (concat (pn_parts p))) + sum_list (map br_length (pn_ranges p)) + int (length (pn_trailer p))"

definition plan_ok :: "plan \<Rightarrow> bool" where
  "plan_ok p \<longleftrightarrow> list_all (in_object (pn_total p)) (pn_ranges p) \<and> sorted_wrt (\<lambda>r s. br_end r < br_start s) (pn_ranges p)
     \<and> length (pn_ranges p) \<le> maxRanges \<and> pn_contentLength p = body_length p
     \<and> (pn_status p = 200 \<longrightarrow> \<not> pn_multipart p \<and> body_length p = pn_total p)
     \<and> (pn_status p = 206 \<longrightarrow> pn_ranges p \<noteq> [] \<and> (pn_multipart p \<longleftrightarrow> length (pn_ranges p) > 1))
     \<and> (pn_status p \<in> {304, 416} \<longrightarrow> pn_ranges p = []) \<and> pn_status p \<in> {200, 206, 304, 416}"

lemmas plan_simps = plan_ok_def body_length_def no_plan_def br_length_def in_object_def maxRanges_def

lemma multipart_plan_ok:
  assumes "list_all (in_object sz) rs" and "length rs > 1" and "length rs \<le> maxRanges" and "ascending rs"
  shows "plan_ok (multipart_plan boundary ct sz rs)"
  using assms ascending_sorted [OF assms(4,1)]
  by (auto simp: multipart_plan_def Let_def plan_ok_def body_length_def no_plan_def sum_list_zip)

lemma makePlan_ok:
  assumes "0 \<le> sz" and "\<And>h. rh = Some h \<Longrightarrow> list_all spec_ok (rh_specs h) \<and> length (rh_specs h) \<le> maxRanges"
  shows "plan_ok (makePlan ParseTime boundary rh req sz stored) \<and> pn_total (makePlan ParseTime boundary rh req sz stored) = sz"
proof -
  define full where "full = no_plan\<lparr>pn_status := 200, pn_total := sz, pn_contentLength := sz,
      pn_ranges := (if sz > 0 then [\<lparr>br_start = 0, br_end = sz - 1\<rparr>] else [])\<rparr>"
  define rh' where "rh' = (if rh \<noteq> None \<and> req ''If-Range'' \<noteq> [] \<and> \<not> ifRangeMatches ParseTime (req ''If-Range'') (stored ''Last-Modified'') then None else rh)"
  have full: "plan_ok full" "pn_total full = sz" using assms(1) by (auto simp: full_def plan_simps)
  have empty: "plan_ok (no_plan\<lparr>pn_status := 304, pn_total := sz\<rparr>)" "plan_ok (no_plan\<lparr>pn_status := 416, pn_total := sz\<rparr>)"
    by (simp_all add: plan_simps)
  have ranged: "list_all (in_object sz) (List.map_filter (\<lambda>sp. resolve sp sz) (rh_specs h))"
      "length (List.map_filter (\<lambda>sp. resolve sp sz) (rh_specs h)) \<le> maxRanges" if "rh' = Some h" for h
  proof -
    have h: "list_all spec_ok (rh_specs h)" "length (rh_specs h) \<le> maxRanges" using that assms(2) by (auto simp: rh'_def split: if_splits)
    show "list_all (in_object sz) (List.map_filter (\<lambda>sp. resolve sp sz) (rh_specs h))" using h(1) assms(1) by (rule map_filter_in_object)
    show "length (List.map_filter (\<lambda>sp. resolve sp sz) (rh_specs h)) \<le> maxRanges" using h(2) map_filter_length le_trans by blast
  qed
  have single: "plan_ok (no_plan\<lparr>pn_status := 206, pn_total := sz, pn_ranges := rs, pn_contentLength := br_length (rs ! 0)\<rparr>)"
    if "list_all (in_object sz) rs" "length rs = 1" for rs
    using that by (cases rs) (auto simp: plan_simps)
  have totals: "pn_total (multipart_plan boundary ct sz rs) = sz" for ct rs by (simp add: multipart_plan_def Let_def)
  show ?thesis
  proof (cases "notModified ParseTime req (stored ''Last-Modified'') \<or> rh' = None \<or> rh_tooMany (the rh')")
    case True
    then consider "notModified ParseTime req (stored ''Last-Modified'')"
      | "\<not> notModified ParseTime req (stored ''Last-Modified'')" "rh' = None"
      | h where "\<not> notModified ParseTime req (stored ''Last-Modified'')" "rh' = Some h" "rh_tooMany h" by fastforce
    then show ?thesis
      using full empty unfolding makePlan_def Let_def full_def [symmetric] rh'_def [symmetric] by cases simp_all
  next
    case False
    then obtain h where h: "rh' = Some h" "\<not> rh_tooMany h" by auto
    define rs where "rs = List.map_filter (\<lambda>sp. resolve sp sz) (rh_specs h)"
    note rs = ranged [OF h(1), folded rs_def]
    have "makePlan ParseTime boundary rh req sz stored =
      (if length rs = 0 then no_plan\<lparr>pn_status := 416, pn_total := sz\<rparr>
       else if length rs = 1 then no_plan\<lparr>pn_status := 206, pn_total := sz, pn_ranges := rs, pn_contentLength := br_length (rs ! 0)\<rparr>
       else if \<not> ascending rs then full else multipart_plan boundary (stored ''Content-Type'') sz rs)"
      using False h unfolding makePlan_def Let_def full_def [symmetric] rh'_def [symmetric] rs_def by auto
    moreover have "length rs = 0 \<or> length rs = 1 \<or> length rs > 1" by linarith
    ultimately show ?thesis
      using full empty(2) rs single [OF rs(1)] multipart_plan_ok [OF rs(1) _ rs(2)] totals by auto
  qed
qed

text \<open>
  C17: whatever the Range header, the response stays inside the object: its ranges lie within it, ascend without
  overlapping, are at most sixteen, and the Content-Length is the number of bytes of the body, multipart headers
  included; without a usable range the whole object is sent.
\<close>

theorem makePlan_sound:
  assumes "0 \<le> sz"
  shows "plan_ok (makePlan ParseTime boundary (parseRange vv) req sz stored)
    \<and> pn_total (makePlan ParseTime boundary (parseRange vv) req sz stored) = sz"
  using makePlan_ok [OF assms] parseRange_ok by blast

theorem makePlan_sound_witness:
  "plan_ok (makePlan (\<lambda>_. None) ''b'' (parseRange [''bytes=0-99, -50'']) (\<lambda>_. []) 1000 (\<lambda>_. []))"
  using makePlan_sound [of 1000 "\<lambda>_. None" "''b''" "[''bytes=0-99, -50'']" "\<lambda>_. []" "\<lambda>_. []"] by simp

section \<open>Content-Range\<close>

lemma parseDigits_decimal: "n < 10 ^ 18 \<Longrightarrow> parseDigits (decimal n) = Some (int n)"
  using decimal_length [of n 18] by (simp add: parseDigits_def)

text \<open>
  The Content-Range the cache writes reads back as the range and the size it was written for.
\<close>

theorem contentRange_roundtrip:
  assumes "in_object sz r" and "sz < 10 ^ 18"
  shows "parseContentRange (contentRange r sz) = Some (br_start r, br_end r, sz)"
proof -
  obtain a b n where nums: "br_start r = int a" "br_end r = int b" "sz = int n"
    using assms(1) nonneg_int_cases [of "br_start r"] nonneg_int_cases [of "br_end r"] nonneg_int_cases [of sz]
    by (metis in_object_def le_less_trans less_imp_le order_trans)
  have le: "a \<le> b" "b < n" "n < 10 ^ 18"
    using assms by (simp_all add: nums in_object_def)
  have fmt: "FormatInt (int k) = decimal k" for k by (simp add: FormatInt_def)
  define rest where "rest = decimal a @ CHR ''-'' # decimal b @ CHR ''/'' # decimal n"
  have cr: "contentRange r sz = ''bytes'' @ CHR '' '' # rest"
    by (simp add: contentRange_def nums fmt rest_def)
  have dig: "ascii (decimal k)" "CHR ''-'' \<notin> set (decimal k)" "CHR ''/'' \<notin> set (decimal k)" "\<not> is_space (hd (decimal k))"
      "\<not> is_space (last (decimal k))" "decimal k \<noteq> ''*''" for k
    using decimal_digits [of k] by (auto simp: decimal_chars)
  have trim: "strings_TrimSpace rest = rest" "strings_TrimSpace (''bytes'' @ CHR '' '' # rest) = ''bytes'' @ CHR '' '' # rest"
    using dig by (auto simp: rest_def ascii_def is_space_def intro!: TrimSpace_ends)
  have cuts: "strings_CutByte (''bytes'' @ CHR '' '' # rest) (CHR '' '') = Some (''bytes'', rest)"
      "strings_CutByte rest (CHR ''/'') = Some (decimal a @ CHR ''-'' # decimal b, decimal n)"
      "strings_CutByte (decimal a @ CHR ''-'' # decimal b) (CHR ''-'') = Some (decimal a, decimal b)"
    using CutByte_append [of "CHR '' ''" "''bytes''" rest] CutByte_append [of "CHR ''/''" "decimal a @ CHR ''-'' # decimal b" "decimal n"]
      CutByte_append [of "CHR ''-''" "decimal a" "decimal b"] dig by (simp_all add: rest_def)
  have "fold_ascii ''bytes'' = ''bytes''" by code_simp
  moreover have "parseDigits (decimal a) = Some (int a)" "parseDigits (decimal b) = Some (int b)" "parseDigits (decimal n) = Some (int n)"
    using le by (auto intro: parseDigits_decimal)
  ultimately show ?thesis
    unfolding parseContentRange_def cr trim cuts option.case prod.case
    using le dig(6) by (simp add: nums)
qed

theorem contentRange_roundtrip_witness:
  "parseContentRange (contentRange \<lparr>br_start = 100, br_end = 199\<rparr> 1000) = Some (100, 199, 1000)"
  using contentRange_roundtrip [of 1000 "\<lparr>br_start = 100, br_end = 199\<rparr>"] by (simp add: in_object_def)

end
