(* ===== verification/TlsHello.thy ===== *)
theory TlsHello
  imports GoStrings ByteCodec NetAddr
begin

text \<open>
  Reading the server name of a TLS ClientHello, \<^verbatim>\<open>internal/dlcache/sni/hello.go\<close>. The reader is the list of
  bytes the connection still delivers; \<^verbatim>\<open>io.ReadFull\<close> fails when it ends before. \<^verbatim>\<open>netip.ParseAddr\<close> is an
  argument. The checks of \<open>normalizeServerName\<close> see the name after \<^verbatim>\<open>ToLower\<close>; a name with a byte from 128 on
  is refused whatever the order of the checks, so only its error depends on the exact lower case.
\<close>

definition recordHeaderLen :: nat where "recordHeaderLen = 5"
definition recordTypeHandshake :: u8 where "recordTypeHandshake = 0x16"
definition maxRecordLen :: nat where "maxRecordLen = 16384"
definition maxHelloLen :: nat where "maxHelloLen = 16384"
definition maxHelloRecords :: nat where "maxHelloRecords = 64"
definition handshakeClientHello :: u8 where "handshakeClientHello = 1"
definition extServerName :: nat where "extServerName = 0"
definition nameTypeHostName :: nat where "nameTypeHostName = 0"

lemmas hello_consts = recordHeaderLen_def recordTypeHandshake_def maxRecordLen_def maxHelloLen_def maxHelloRecords_def
  handshakeClientHello_def extServerName_def nameTypeHostName_def

datatype hello_error =
  errRead | errNotTLS | TooManyRecords | RecordLength nat | NotClientHello | HelloLength nat
  | errHello | errNoSNI | NameLength | NameIsAddress | EmptyLabel | LabelTooLong | NameCharacter

definition ReadFull :: "nat \<Rightarrow> bytes \<Rightarrow> (bytes \<times> bytes) option" where
  "ReadFull n r = (if length r < n then None else Some (take n r, drop n r))"

definition hello_size :: "bytes \<Rightarrow> nat" where
  "hello_size hello = 4 + (unat (hello ! 1) * 65536 + unat (hello ! 2) * 256 + unat (hello ! 3))"

text \<open>The loop of \<^verbatim>\<open>readClientHello\<close>; the result holds what is left of the reader.\<close>

function read_records :: "bytes \<Rightarrow> nat \<Rightarrow> bytes \<Rightarrow> bytes \<Rightarrow> hello_error + bytes \<times> bytes \<times> bytes" where
  "read_records r records raw hello =
     (if records = maxHelloRecords then Inl TooManyRecords
      else case ReadFull recordHeaderLen r of
        None \<Rightarrow> Inl errRead
      | Some (hdr, r1) \<Rightarrow>
          if hdr ! 0 \<noteq> recordTypeHandshake \<or> hdr ! 1 \<noteq> 3 then Inl errNotTLS
          else let n = unat (be16 (drop 3 hdr)) in
            if n = 0 \<or> n > maxRecordLen then Inl (RecordLength n)
            else case ReadFull n r1 of
              None \<Rightarrow> Inl errRead
            | Some (payload, r2) \<Rightarrow>
                let raw' = raw @ hdr @ payload; hello' = hello @ payload in
                if length hello' < 4 then read_records r2 (records + 1) raw' hello'
                else if hello' ! 0 \<noteq> handshakeClientHello then Inl NotClientHello
                else if hello_size hello' > maxHelloLen then Inl (HelloLength (hello_size hello'))
                else if length hello' \<ge> hello_size hello' then Inr (raw', take (hello_size hello') hello', r2)
                else read_records r2 (records + 1) raw' hello')"
  by pat_completeness auto
termination by (relation "measure (length \<circ> fst)") (auto simp: ReadFull_def recordHeaderLen_def split: if_splits)

declare read_records.simps [simp del]

definition readClientHello :: "bytes \<Rightarrow> hello_error + bytes \<times> bytes \<times> bytes" where
  "readClientHello r = read_records r 0 [] []"

section \<open>The bounds-checked reader\<close>

definition p_skip :: "nat \<Rightarrow> bytes \<Rightarrow> bytes option" where
  "p_skip n p = (if length p < n then None else Some (drop n p))"

definition p_u8 :: "bytes \<Rightarrow> (nat \<times> bytes) option" where
  "p_u8 p = (if length p < 1 then None else Some (unat (p ! 0), drop 1 p))"

definition p_u16 :: "bytes \<Rightarrow> (nat \<times> bytes) option" where
  "p_u16 p = (if length p < 2 then None else Some (unat (be16 p), drop 2 p))"

definition p_bytes :: "nat \<Rightarrow> bytes \<Rightarrow> (bytes \<times> bytes) option" where
  "p_bytes n p = (if length p < n then None else Some (take n p, drop n p))"

definition p_vec8 :: "bytes \<Rightarrow> (bytes \<times> bytes) option" where
  "p_vec8 p = (case p_u8 p of None \<Rightarrow> None | Some (n, p') \<Rightarrow> p_bytes n p')"

definition p_vec16 :: "bytes \<Rightarrow> (bytes \<times> bytes) option" where
  "p_vec16 p = (case p_u16 p of None \<Rightarrow> None | Some (n, p') \<Rightarrow> p_bytes n p')"

lemma p_shorter:
  "p_u8 p = Some (v, p') \<Longrightarrow> length p' < length p" "p_u16 p = Some (w, p') \<Longrightarrow> length p' < length p"
  "p_vec8 p = Some (d, p') \<Longrightarrow> length p' < length p" "p_vec16 p = Some (d, p') \<Longrightarrow> length p' < length p"
  by (auto simp: p_u8_def p_u16_def p_vec8_def p_vec16_def p_bytes_def split: if_splits option.splits)

section \<open>The server name\<close>

definition name_char :: "char \<Rightarrow> bool" where
  "name_char c \<longleftrightarrow> CHR ''a'' \<le> c \<and> c \<le> CHR ''z'' \<or> CHR ''0'' \<le> c \<and> c \<le> CHR ''9'' \<or> c = CHR ''-'' \<or> c = CHR ''_''"

fun check_labels :: "string \<Rightarrow> nat \<Rightarrow> hello_error option" where
  "check_labels [] label = None"
| "check_labels (c # s) label =
     (if c = CHR ''.'' then (if label = 0 then Some EmptyLabel else check_labels s 0)
      else if name_char c then (if label + 1 > 63 then Some LabelTooLong else check_labels s (label + 1))
      else Some NameCharacter)"

definition normalizeServerName :: "(string \<Rightarrow> addr option) \<Rightarrow> string \<Rightarrow> hello_error + string" where
  "normalizeServerName ParseAddr s0 =
     (let s = strings_ToLower (strings_TrimSuffix s0 ''.'') in
      if s = [] \<or> length s > 253 then Inl NameLength
      else if ParseAddr s \<noteq> None then Inl NameIsAddress
      else case check_labels s 0 of Some e \<Rightarrow> Inl e | None \<Rightarrow> Inr s)"

function name_list :: "(string \<Rightarrow> addr option) \<Rightarrow> bytes \<Rightarrow> hello_error + string" where
  "name_list ParseAddr l =
     (if l = [] then Inl errNoSNI
      else case p_u8 l of
        None \<Rightarrow> Inl errHello
      | Some (nameType, l1) \<Rightarrow>
          (case p_vec16 l1 of
             None \<Rightarrow> Inl errHello
           | Some (name, l2) \<Rightarrow>
               if nameType = nameTypeHostName then normalizeServerName ParseAddr (map byte_char name)
               else name_list ParseAddr l2))"
  by pat_completeness auto
termination by (relation "measure (length \<circ> snd)") (auto dest!: p_shorter)

declare name_list.simps [simp del]

function ext_list :: "(string \<Rightarrow> addr option) \<Rightarrow> bytes \<Rightarrow> hello_error + string" where
  "ext_list ParseAddr exts =
     (if exts = [] then Inl errNoSNI
      else case p_u16 exts of
        None \<Rightarrow> Inl errHello
      | Some (typ, e1) \<Rightarrow>
          (case p_vec16 e1 of
             None \<Rightarrow> Inl errHello
           | Some (data, e2) \<Rightarrow>
               if typ \<noteq> extServerName then ext_list ParseAddr e2
               else case p_vec16 data of
                   None \<Rightarrow> Inl errHello
                 | Some (l, data') \<Rightarrow> if data' \<noteq> [] \<or> l = [] then Inl errHello else name_list ParseAddr l))"
  by pat_completeness auto
termination by (relation "measure (length \<circ> snd)") (auto dest!: p_shorter)

declare ext_list.simps [simp del]

definition hello_prefix :: "bytes \<Rightarrow> bytes option" where
  "hello_prefix b0 =
     (case p_skip (2 + 32) b0 of None \<Rightarrow> None | Some b1 \<Rightarrow>
      (case p_vec8 b1 of None \<Rightarrow> None | Some (sessionID, b2) \<Rightarrow> if length sessionID > 32 then None else
      (case p_vec16 b2 of None \<Rightarrow> None | Some (suites, b3) \<Rightarrow> if length suites < 2 \<or> length suites mod 2 \<noteq> 0 then None else
      (case p_vec8 b3 of None \<Rightarrow> None | Some (compression, b4) \<Rightarrow> if length compression < 1 then None else Some b4))))"

definition serverName :: "(string \<Rightarrow> addr option) \<Rightarrow> bytes \<Rightarrow> hello_error + string" where
  "serverName ParseAddr hello =
     (if length hello < 4 \<or> hello ! 0 \<noteq> handshakeClientHello then Inl errHello
      else case hello_prefix (drop 4 hello) of
        None \<Rightarrow> Inl errHello
      | Some b \<Rightarrow>
          if b = [] then Inl errNoSNI
          else case p_vec16 b of
              None \<Rightarrow> Inl errHello
            | Some (exts, b') \<Rightarrow> if b' \<noteq> [] then Inl errHello else ext_list ParseAddr exts)"

section \<open>A ClientHello is reassembled from its records\<close>

definition tls_record :: "u8 \<times> bytes \<Rightarrow> bytes" where
  "tls_record = (\<lambda>(minor, payload). [recordTypeHandshake, 3, minor] @ put16 (of_nat (length payload)) @ payload)"

definition record_ok :: "u8 \<times> bytes \<Rightarrow> bool" where
  "record_ok p \<longleftrightarrow> 0 < length (snd p) \<and> length (snd p) \<le> maxRecordLen"

definition handshake_ok :: "bytes \<Rightarrow> bool" where
  "handshake_ok msg \<longleftrightarrow> 4 \<le> length msg \<and> msg ! 0 = handshakeClientHello \<and> hello_size msg = length msg \<and> length msg \<le> maxHelloLen"

lemma hello_size_append [simp]: "4 \<le> length a \<Longrightarrow> hello_size (a @ b) = hello_size a"
  by (simp add: hello_size_def nth_append)

lemma hello_size_prefix: "4 \<le> length a \<Longrightarrow> a @ b = c @ d \<Longrightarrow> 4 \<le> length c \<Longrightarrow> hello_size a = hello_size c \<and> a ! 0 = c ! 0"
  by (metis hello_size_append nth_append less_le_trans zero_less_numeral)

lemma read_record:
  assumes "record_ok p" and "k < maxHelloRecords"
  shows "read_records (tls_record p @ r) k raw hello =
     (let raw' = raw @ tls_record p; hello' = hello @ snd p in
      if length hello' < 4 then read_records r (k + 1) raw' hello'
      else if hello' ! 0 \<noteq> handshakeClientHello then Inl NotClientHello
      else if hello_size hello' > maxHelloLen then Inl (HelloLength (hello_size hello'))
      else if length hello' \<ge> hello_size hello' then Inr (raw', take (hello_size hello') hello', r)
      else read_records r (k + 1) raw' hello')"
proof -
  let ?n = "put16 (of_nat (length (snd p)))"
  have n: "unat (of_nat (length (snd p)) :: u16) = length (snd p)"
    using assms(1) by (simp add: record_ok_def hello_consts unat_of_nat_u16)
  have bytes: "tls_record p = ([recordTypeHandshake, 3, fst p] @ ?n) @ snd p" by (simp add: tls_record_def split_beta)
  have hdr: "ReadFull recordHeaderLen (tls_record p @ r) = Some ([recordTypeHandshake, 3, fst p] @ ?n, snd p @ r)"
    by (simp add: ReadFull_def bytes recordHeaderLen_def)
  have pay: "ReadFull (length (snd p)) (snd p @ r) = Some (snd p, r)" by (simp add: ReadFull_def)
  show ?thesis
    using assms unfolding read_records.simps [of "tls_record p @ r"] hdr by (simp add: n pay Let_def record_ok_def bytes)
qed

lemma read_records_concat:
  assumes "handshake_ok msg" and "\<forall>p \<in> set fs. record_ok p" and "fs \<noteq> []" and "k + length fs \<le> maxHelloRecords"
    and "hello @ concat (map snd fs) = msg @ extra" and "length (hello @ concat (map snd (butlast fs))) < length msg"
  shows "read_records (concat (map tls_record fs) @ rest) k raw hello = Inr (raw @ concat (map tls_record fs), msg, rest)"
  using assms(2-)
proof (induction fs arbitrary: k raw hello)
  case (Cons p fs)
  let ?h = "hello @ snd p"
  note step = read_record [of p k "concat (map tls_record fs) @ rest" raw hello]
  have msg: "4 \<le> length msg" "msg ! 0 = handshakeClientHello" "hello_size msg = length msg" "length msg \<le> maxHelloLen"
    using assms(1) by (simp_all add: handshake_ok_def)
  have app: "?h @ concat (map snd fs) = msg @ extra" using Cons.prems(4) by simp
  have pre: "hello_size ?h = length msg \<and> ?h ! 0 = handshakeClientHello" if "4 \<le> length ?h"
    using hello_size_prefix [OF that app msg(1)] msg by simp
  show ?case
  proof (cases "fs = []")
    case True
    then have "?h = msg @ extra" using app by simp
    moreover from this have "4 \<le> length ?h" using msg(1) by simp
    ultimately show ?thesis using True step pre Cons.prems(1,3) msg by (simp add: Let_def)
  next
    case False
    then have less: "length (?h @ concat (map snd (butlast fs))) < length msg" using Cons.prems(5) by simp
    have "read_records (concat (map tls_record fs) @ rest) (k + 1) (raw @ tls_record p) ?h
        = Inr ((raw @ tls_record p) @ concat (map tls_record fs), msg, rest)"
      using Cons.prems(1,3) False app less by (intro Cons.IH) auto
    then show ?thesis
      using step pre Cons.prems(1,3) False msg less by (cases "4 \<le> length ?h") (auto simp: Let_def)
  qed
qed simp

lemma read_records_sound:
  "read_records r k raw hello = Inr (raw', hello', rest) \<Longrightarrow> length hello < maxHelloLen \<Longrightarrow> k \<le> maxHelloRecords \<Longrightarrow>
   \<exists>cs. raw' = raw @ cs \<and> r = cs @ rest \<and> handshake_ok hello'
     \<and> length cs + length hello \<le> recordHeaderLen * (maxHelloRecords - k) + maxHelloLen + maxRecordLen"
proof (induction "length r" arbitrary: r k raw hello rule: less_induct)
  case less
  note run = less.prems(1) [unfolded read_records.simps [of r k raw hello]]
  then have k: "k < maxHelloRecords" using less.prems(3) by (auto split: if_splits)
  with run obtain hdr r1 where hdr: "ReadFull recordHeaderLen r = Some (hdr, r1)" by (auto split: option.splits)
  define n where "n = unat (be16 (drop 3 hdr))"
  have ok: "\<not> (hdr ! 0 \<noteq> recordTypeHandshake \<or> hdr ! 1 \<noteq> 3)" "\<not> (n = 0 \<or> n > maxRecordLen)"
    using run k hdr by (auto simp: Let_def n_def split: if_splits)
  obtain payload r2 where pay: "ReadFull n r1 = Some (payload, r2)"
    using run k hdr ok by (auto simp: Let_def n_def split: option.splits)
  define h where "h = hello @ payload"
  have lh: "length hello + length payload = length h" by (simp add: h_def)
  have r: "r = hdr @ r1" "length hdr = recordHeaderLen" using hdr by (auto simp: ReadFull_def split: if_splits)
  have r1: "r1 = payload @ r2" "length payload = n" using pay by (auto simp: ReadFull_def split: if_splits)
  show ?case
  proof (cases "4 \<le> length h \<and> hello_size h \<le> length h")
    case True
    then have "raw' = raw @ hdr @ payload" "hello' = take (hello_size h) h" "rest = r2" "h ! 0 = handshakeClientHello" "hello_size h \<le> maxHelloLen"
      using run k hdr ok pay by (auto simp: Let_def n_def [symmetric] h_def [symmetric] lh split: if_splits)
    moreover from this True have "handshake_ok hello'"
      using hello_size_append [of "take (hello_size h) h" "drop (hello_size h) h"]
      by (auto simp: handshake_ok_def min_def hello_size_def)
    moreover have "recordHeaderLen + n + length hello \<le> recordHeaderLen * (maxHelloRecords - k) + maxHelloLen + maxRecordLen"
      using ok(2) k less.prems(2) unfolding hello_consts by arith
    ultimately show ?thesis using r r1 by auto
  next
    case False
    then have rec: "read_records r2 (k + 1) (raw @ hdr @ payload) h = Inr (raw', hello', rest)" "length h < maxHelloLen"
      using run k hdr ok pay by (auto simp: Let_def n_def [symmetric] h_def [symmetric] lh hello_consts split: if_splits)
    have "\<exists>cs. raw' = (raw @ hdr @ payload) @ cs \<and> r2 = cs @ rest \<and> handshake_ok hello'
        \<and> length cs + length h \<le> recordHeaderLen * (maxHelloRecords - (k + 1)) + maxHelloLen + maxRecordLen"
      using less.hyps [OF _ rec] k r r1 ok(2) by (simp add: hello_consts)
    then show ?thesis using r r1 k by (auto simp: h_def hello_consts)
  qed
qed

section \<open>The server name of an encoded ClientHello\<close>

definition vec8 :: "bytes \<Rightarrow> bytes" where "vec8 d = of_nat (length d) # d"
definition vec16 :: "bytes \<Rightarrow> bytes" where "vec16 d = put16 (of_nat (length d)) @ d"

lemma p_vec8 [simp]: "length d \<le> 255 \<Longrightarrow> p_vec8 (vec8 d @ r) = Some (d, r)"
  by (simp add: p_vec8_def vec8_def p_u8_def p_bytes_def unat_of_nat_byte)

lemma p_u16_put [simp]: "p_u16 (put16 v @ r) = Some (unat v, r)"
  by (simp add: p_u16_def)

lemma p_vec16 [simp]: "length d < 65536 \<Longrightarrow> p_vec16 (vec16 d @ r) = Some (d, r)"
  by (simp add: p_vec16_def vec16_def p_bytes_def unat_of_nat_u16)

record client_hello =
  ch_version :: bytes
  ch_random :: bytes
  ch_session :: bytes
  ch_suites :: bytes
  ch_compression :: bytes
  ch_exts :: "(u16 \<times> bytes) list"

definition enc_exts :: "(u16 \<times> bytes) list \<Rightarrow> bytes" where
  "enc_exts es = concat (map (\<lambda>(t, d). put16 t @ vec16 d) es)"

definition enc_names :: "(u8 \<times> bytes) list \<Rightarrow> bytes" where
  "enc_names ns = concat (map (\<lambda>(t, n). t # vec16 n) ns)"

definition hello_body :: "client_hello \<Rightarrow> bytes" where
  "hello_body ch = ch_version ch @ ch_random ch @ vec8 (ch_session ch) @ vec16 (ch_suites ch) @ vec8 (ch_compression ch)
     @ vec16 (enc_exts (ch_exts ch))"

definition enc_hello :: "client_hello \<Rightarrow> bytes" where
  "enc_hello ch = (let n = length (hello_body ch) in
     [handshakeClientHello, of_nat (n div 65536), of_nat (n div 256), of_nat n] @ hello_body ch)"

definition hello_ok :: "client_hello \<Rightarrow> bool" where
  "hello_ok ch \<longleftrightarrow> length (ch_version ch) = 2 \<and> length (ch_random ch) = 32 \<and> length (ch_session ch) \<le> 32
     \<and> 2 \<le> length (ch_suites ch) \<and> even (length (ch_suites ch))
     \<and> 0 < length (ch_compression ch) \<and> length (ch_compression ch) \<le> 255
     \<and> length (enc_hello ch) \<le> maxHelloLen"

lemma hello_lengths:
  assumes "hello_ok ch"
  shows "length (ch_suites ch) < 65536" and "length (enc_exts (ch_exts ch)) < 65536"
  using assms by (auto simp: hello_ok_def enc_hello_def Let_def hello_body_def vec8_def vec16_def hello_consts)

lemma enc_hello_handshake: "hello_ok ch \<Longrightarrow> handshake_ok (enc_hello ch)"
proof -
  assume ok: "hello_ok ch"
  have "unat (of_nat (n div 65536) :: u8) * 65536 + unat (of_nat (n div 256) :: u8) * 256 + unat (of_nat n :: u8) = n"
    if "n < 65536" for n :: nat
    using that by (simp add: unat_of_nat take_bit_nat_def)
  moreover have "length (hello_body ch) < 65536" "length (enc_hello ch) \<le> maxHelloLen"
    using ok by (auto simp: hello_ok_def enc_hello_def Let_def hello_consts)
  ultimately show ?thesis
    by (simp add: handshake_ok_def enc_hello_def Let_def hello_size_def hello_consts)
qed

text \<open>The first server name extension, and in it the first entry that is a host name.\<close>

lemma name_list_enc:
  assumes "\<forall>x \<in> set pre. fst x \<noteq> 0 \<and> length (snd x) < 65536" and "length name < 65536"
  shows "name_list P (enc_names (pre @ (0, name) # post)) = normalizeServerName P (map byte_char name)"
  using assms(1)
proof (induction pre)
  case Nil
  then show ?case
    using assms(2) by (subst name_list.simps) (simp add: enc_names_def p_u8_def nameTypeHostName_def)
next
  case (Cons x pre)
  obtain t n where x: "x = (t, n)" by (cases x)
  have "unat t \<noteq> 0" using Cons.prems by (simp add: x unat_eq_zero)
  with Cons show ?case
    by (subst name_list.simps) (simp add: enc_names_def p_u8_def nameTypeHostName_def x)
qed

lemma ext_list_enc:
  assumes "\<forall>x \<in> set pre. fst x \<noteq> 0 \<and> length (snd x) < 65536" and "d = vec16 (enc_names ns)" and "ns \<noteq> []" and "length d < 65536"
  shows "ext_list P (enc_exts (pre @ (0, d) # post)) = name_list P (enc_names ns)"
  using assms(1)
proof (induction pre)
  case Nil
  have "enc_names ns \<noteq> []" using assms(3) by (cases ns) (auto simp: enc_names_def)
  moreover have "length (enc_names ns) < 65536" using assms(2,4) by (simp add: vec16_def)
  moreover have "p_vec16 d = Some (enc_names ns, [])" using p_vec16 [of "enc_names ns" "[]"] calculation(2) by (simp add: assms(2))
  ultimately show ?case
    using assms(4) by (subst ext_list.simps) (simp add: enc_exts_def extServerName_def)
next
  case (Cons x pre)
  obtain t n where x: "x = (t, n)" by (cases x)
  have "unat t \<noteq> 0" using Cons.prems by (simp add: x unat_eq_zero)
  moreover have "put16 t @ y \<noteq> []" for y by (simp add: put16_def)
  ultimately show ?case
    using Cons by (subst ext_list.simps) (simp add: enc_exts_def extServerName_def x)
qed

lemma enc_split_lengths:
  "x \<in> set es \<Longrightarrow> length (snd x) < length (enc_exts es)" "y \<in> set ns \<Longrightarrow> length (snd y) < length (enc_names ns)"
  by (auto simp: enc_exts_def enc_names_def vec16_def dest!: split_list split: prod.splits)

lemma serverName_enc:
  assumes "hello_ok ch" and "ch_exts ch = pre @ (0, vec16 (enc_names (npre @ (0, name) # npost))) # post"
    and "\<forall>x \<in> set pre. fst x \<noteq> 0" and "\<forall>x \<in> set npre. fst x \<noteq> 0"
  shows "serverName P (enc_hello ch) = normalizeServerName P (map byte_char name)"
proof -
  let ?ns = "npre @ (0, name) # npost" and ?e = "enc_exts (ch_exts ch)"
  note len = hello_lengths [OF assms(1)]
  have ext: "length (snd x) < 65536" if "x \<in> set (ch_exts ch)" for x
    using enc_split_lengths(1) [OF that] len(2) by simp
  have names: "length (vec16 (enc_names ?ns)) < 65536" using ext [of "(0, vec16 (enc_names ?ns))"] assms(2) by simp
  then have nm: "length (snd x) < 65536" if "x \<in> set ?ns" for x
    using enc_split_lengths(2) [OF that] by (simp add: vec16_def)
  have "hello_prefix (hello_body ch) = Some (vec16 ?e)"
    using assms(1) len(1) by (simp add: hello_prefix_def hello_body_def p_skip_def hello_ok_def mod2_eq_if)
  moreover have "p_vec16 (vec16 ?e) = Some (?e, [])" using p_vec16 [OF len(2), of "[]"] by simp
  moreover have "vec16 ?e \<noteq> []" by (simp add: vec16_def put16_def)
  ultimately have "serverName P (enc_hello ch) = ext_list P ?e"
    by (simp add: serverName_def enc_hello_def Let_def)
  also have "\<dots> = name_list P (enc_names ?ns)"
    unfolding assms(2) using assms(3) ext names by (intro ext_list_enc) (auto simp: assms(2))
  also have "\<dots> = normalizeServerName P (map byte_char name)"
    using assms(4) nm nm [of "(0, name)"] by (intro name_list_enc) auto
  finally show ?thesis .
qed

text \<open>
  C11: the server name is read back however the ClientHello is cut into TLS records: for a well-formed message with
  a host name in its first server name extension, split over up to 64 records of which the last may hold more,
  \<^verbatim>\<open>readClientHello\<close> returns exactly the bytes of these records and the message, leaves the rest of the stream
  alone, and \<^verbatim>\<open>serverName\<close> is the normalised host name.
\<close>

theorem client_hello_read:
  assumes "hello_ok ch" and "ch_exts ch = pre @ (0, vec16 (enc_names (npre @ (0, name) # npost))) # post"
    and "\<forall>x \<in> set pre. fst x \<noteq> 0" and "\<forall>x \<in> set npre. fst x \<noteq> 0"
    and "\<forall>p \<in> set fs. record_ok p" and "fs \<noteq> []" and "length fs \<le> maxHelloRecords"
    and "concat (map snd fs) = enc_hello ch @ extra" and "length (concat (map snd (butlast fs))) < length (enc_hello ch)"
  shows "readClientHello (concat (map tls_record fs) @ rest) = Inr (concat (map tls_record fs), enc_hello ch, rest)
    \<and> serverName ParseAddr (enc_hello ch) = normalizeServerName ParseAddr (map byte_char name)"
  using read_records_concat [OF enc_hello_handshake [OF assms(1)] assms(5,6), of 0 "[]" extra rest "[]"]
    serverName_enc [OF assms(1-4)] assms(7-9) by (simp add: readClientHello_def)

definition ex_hello :: client_hello where
  "ex_hello = \<lparr>ch_version = [3, 3], ch_random = replicate 32 7, ch_session = [], ch_suites = [19, 1], ch_compression = [0],
     ch_exts = [(10, [0, 0]), (0, vec16 (enc_names [(0, map char_byte ''Cdn.Epic.Test'')]))]\<rparr>"

lemma ex_hello_facts:
  "length (enc_hello ex_hello) = 75" "enc_hello ex_hello \<noteq> []" "hello_ok ex_hello"
  "ch_exts ex_hello = [(10, [0, 0]), (0, vec16 (enc_names [(0, map char_byte ''Cdn.Epic.Test'')]))]"
  "normalizeServerName (\<lambda>_. None) ''Cdn.Epic.Test'' = Inr ''cdn.epic.test''"
proof -
  show len: "length (enc_hello ex_hello) = 75"
    by (simp add: enc_hello_def Let_def hello_body_def ex_hello_def enc_exts_def enc_names_def vec8_def vec16_def)
  then show "enc_hello ex_hello \<noteq> []" by auto
  show "hello_ok ex_hello" using len by (simp add: hello_ok_def hello_consts) (simp add: ex_hello_def)
  show "normalizeServerName (\<lambda>_. None) ''Cdn.Epic.Test'' = Inr ''cdn.epic.test''" by code_simp
qed (simp add: ex_hello_def)

theorem client_hello_read_witness:
  "readClientHello (tls_record (1, take 3 (enc_hello ex_hello)) @ tls_record (1, drop 3 (enc_hello ex_hello)) @ [9]) =
     Inr (tls_record (1, take 3 (enc_hello ex_hello)) @ tls_record (1, drop 3 (enc_hello ex_hello)), enc_hello ex_hello, [9])
   \<and> serverName (\<lambda>_. None) (enc_hello ex_hello) = Inr ''cdn.epic.test''"
  using client_hello_read [of ex_hello "[(10, [0, 0])]" "[]" "map char_byte ''Cdn.Epic.Test''" "[]" "[]"
      "[(1, take 3 (enc_hello ex_hello)), (1, drop 3 (enc_hello ex_hello))]" "[]" "[9]" "\<lambda>_. None"] ex_hello_facts
  by (simp add: record_ok_def hello_consts comp_def)

section \<open>What a server name is\<close>

text \<open>
  A name as the checks of \<open>normalizeServerName\<close> admit it: labels of at most 63 of the allowed characters, none
  empty except that a second trailing dot of the name leaves an empty last one.
\<close>

definition host_labels :: "string \<Rightarrow> bool" where
  "host_labels s \<longleftrightarrow> (let ls = strings_Split (CHR ''.'') s in
     list_all (\<lambda>l. list_all name_char l \<and> length l \<le> 63) ls \<and> [] \<notin> set (butlast ls))"

definition server_name :: "(string \<Rightarrow> addr option) \<Rightarrow> string \<Rightarrow> bool" where
  "server_name ParseAddr s \<longleftrightarrow> host_labels s \<and> s \<noteq> [] \<and> length s \<le> 253 \<and> ParseAddr s = None"

lemma dot_no_name_char [simp]: "\<not> name_char (CHR ''.'')"
  by (simp add: name_char_def less_eq_char_def)

lemma check_labels_split:
  "n \<le> 63 \<Longrightarrow> check_labels s n = None \<longleftrightarrow> (let ls = strings_Split (CHR ''.'') s in
     list_all (list_all name_char) ls \<and> n + length (hd ls) \<le> 63 \<and> list_all (\<lambda>l. length l \<le> 63) (tl ls)
     \<and> (tl ls \<noteq> [] \<longrightarrow> 0 < n + length (hd ls)) \<and> [] \<notin> set (butlast (tl ls)))"
proof (induction s arbitrary: n)
  case (Cons c s)
  obtain l ls where split: "strings_Split (CHR ''.'') s = l # ls" using Split_nonempty [of "CHR ''.''" s] by (cases "strings_Split (CHR ''.'') s") auto
  show ?case
    using Cons.IH [of 0] Cons.IH [of "Suc n"] Cons.prems by (cases "c = CHR ''.''") (auto simp: split Let_def)
qed simp

lemma check_labels_ok: "check_labels s 0 = None \<Longrightarrow> host_labels s"
  using check_labels_split [of 0 s] by (cases "strings_Split (CHR ''.'') s") (auto simp: host_labels_def Let_def list_all_iff split: if_splits)

lemma normalizeServerName_ok:
  "normalizeServerName P n = Inr s \<Longrightarrow> server_name P s"
  by (auto simp: server_name_def normalizeServerName_def Let_def intro: check_labels_ok split: if_splits option.splits)

lemma name_list_ok: "name_list P l = Inr s \<Longrightarrow> server_name P s"
proof (induction P l rule: name_list.induct)
  case (1 P l)
  show ?case
    using "1.prems" unfolding name_list.simps [of P l]
    by (auto split: if_splits option.splits) (blast intro: normalizeServerName_ok "1.IH")+
qed

lemma ext_list_ok: "ext_list P l = Inr s \<Longrightarrow> server_name P s"
proof (induction P l rule: ext_list.induct)
  case (1 P l)
  show ?case
    using "1.prems" unfolding ext_list.simps [of P l]
    by (auto split: if_splits option.splits) (blast intro: name_list_ok "1.IH")+
qed

lemma serverName_ok: "serverName P hello = Inr s \<Longrightarrow> server_name P s"
  by (auto simp: serverName_def dest: ext_list_ok split: if_splits option.splits)

text \<open>Two trailing dots: one is removed, the other stays, unlike what the comment of \<^verbatim>\<open>serverName\<close> says.\<close>

lemma serverName_trailing_dot: "normalizeServerName (\<lambda>_. None) ''example.com..'' = Inr ''example.com.''"
  by code_simp

end
