(* ===== verification/CacheServices.thy ===== *)
theory CacheServices
  imports GoStrings NetAddr Decimals "HOL-Library.Finite_Map" "HOL-Library.List_Lexorder"
begin

text \<open>
  The catalogue of download services, \<^verbatim>\<open>internal/dlcache/services\<close> (\<^verbatim>\<open>pattern.go\<close>, \<^verbatim>\<open>match.go\<close>, \<^verbatim>\<open>source.go\<close>,
  \<^verbatim>\<open>custom.go\<close>, \<^verbatim>\<open>services.go\<close>): host patterns and their validation, domain files, the registry of source and
  custom services, the matcher built from it, and the lookups of DNS, proxy and TLS pass-through. The IP parser
  and the public suffix list are arguments, so are the outcome of a database transaction and the display names;
  the registry's lock makes every operation atomic.
\<close>

section \<open>Host patterns\<close>

definition maxHostLen :: nat where "maxHostLen = 253"

definition id_char :: "char \<Rightarrow> bool" where
  "id_char c \<longleftrightarrow> CHR ''a'' \<le> c \<and> c \<le> CHR ''z'' \<or> CHR ''0'' \<le> c \<and> c \<le> CHR ''9''"

definition ValidServiceID :: "string \<Rightarrow> bool" where
  "ValidServiceID s \<longleftrightarrow> (case s of [] \<Rightarrow> False | c # r \<Rightarrow>
     id_char c \<and> length r \<le> 31 \<and> list_all (\<lambda>d. id_char d \<or> d = CHR ''_'' \<or> d = CHR ''-'') r)"

definition NormalizePattern :: "string \<Rightarrow> string" where
  "NormalizePattern p = strings_TrimSuffix (strings_ToLower (strings_TrimSpace p)) ''.''"

datatype pattern_error =
  PatEmpty | PatWildcard | PatTooLong | PatAddress | PatLabelEmpty | PatLabelLong | PatLabelHyphen | PatLabelChar
  | PatOneLabel | PatNumericTLD | PatPublicSuffix

definition checkLabel :: "string \<Rightarrow> pattern_error option" where
  "checkLabel l =
     (if l = [] then Some PatLabelEmpty
      else if length l > 63 then Some PatLabelLong
      else if hd l = CHR ''-'' \<or> last l = CHR ''-'' then Some PatLabelHyphen
      else if \<not> list_all (\<lambda>c. id_char c \<or> c = CHR ''-'') l then Some PatLabelChar
      else None)"

definition allDigits :: "string \<Rightarrow> bool" where
  "allDigits s \<longleftrightarrow> list_all is_digit s \<and> s \<noteq> []"

definition ValidatePattern :: "(string \<Rightarrow> addr option) \<Rightarrow> (string \<Rightarrow> string \<times> bool) \<Rightarrow> string \<Rightarrow> pattern_error option" where
  "ValidatePattern ParseAddr PublicSuffix p0 =
     (let p = strings_ToLower p0;
          base = strings_TrimPrefix p ''*.'';
          labels = strings_Split (CHR ''.'') base in
      if p = [] then Some PatEmpty
      else if CHR ''*'' \<in> set base then Some PatWildcard
      else if length base > maxHostLen then Some PatTooLong
      else if ParseAddr base \<noteq> None then Some PatAddress
      else case first_some checkLabel labels of
          Some e \<Rightarrow> Some e
        | None \<Rightarrow>
            if length labels < 2 then Some PatOneLabel
            else if allDigits (last labels) then Some PatNumericTLD
            else if fst (PublicSuffix base) = base then Some PatPublicSuffix
            else None)"

definition normalizeHost :: "string \<Rightarrow> string" where
  "normalizeHost h0 = (let h = strings_ToLower (strings_TrimSuffix h0 ''.'') in if length h > maxHostLen then [] else h)"

definition cutWildcard :: "string \<Rightarrow> string option" where
  "cutWildcard p = (if length p > 2 \<and> p ! 0 = CHR ''*'' \<and> p ! 1 = CHR ''.'' then Some (drop 2 p) else None)"

section \<open>Domain files\<close>

definition maxFileBytes :: nat where "maxFileBytes = 4 * 2 ^ 20"
definition maxFileLines :: nat where "maxFileLines = 50000"
definition maxSkipped :: nat where "maxSkipped = 100"

text \<open>\<^verbatim>\<open>strings.Lines\<close>: the lines with their newline, an unterminated last line included if it is not empty.\<close>

fun strings_Lines :: "string \<Rightarrow> string list" where
  "strings_Lines [] = []"
| "strings_Lines (c # s) =
     (if c = CHR 0x0A then [c] # strings_Lines s
      else case strings_Lines s of
          [] \<Rightarrow> [[c]]
        | l # ls \<Rightarrow> (c # l) # ls)"

record skipList =
  sk_items :: "(string \<times> pattern_error) list"
  sk_more :: nat

definition sk_add :: "string \<times> pattern_error \<Rightarrow> skipList \<Rightarrow> skipList" where
  "sk_add e s = (if length (sk_items s) < maxSkipped then s\<lparr>sk_items := sk_items s @ [e]\<rparr> else s\<lparr>sk_more := sk_more s + 1\<rparr>)"

datatype content_error = FileTooLarge | FileTooManyLines

text \<open>The loop of \<^verbatim>\<open>parseDomainFile\<close>: the patterns so far (\<^verbatim>\<open>out\<close> holds what \<^verbatim>\<open>seen\<close> does), the count of lines and the skipped.\<close>

fun domain_lines ::
  "(string \<Rightarrow> pattern_error option) \<Rightarrow> string list \<Rightarrow> nat \<Rightarrow> string list \<Rightarrow> skipList \<Rightarrow> (content_error + string list) \<times> skipList" where
  "domain_lines validate [] n out sk = (Inr out, sk)"
| "domain_lines validate (line # rest) n out sk =
     (if n + 1 > maxFileLines then (Inl FileTooManyLines, sk)
      else let p = NormalizePattern line in
        if p = [] \<or> strings_HasPrefix p ''#'' then domain_lines validate rest (n + 1) out sk
        else case validate p of
            Some e \<Rightarrow> domain_lines validate rest (n + 1) out (sk_add (p, e) sk)
          | None \<Rightarrow> domain_lines validate rest (n + 1) (if p \<in> set out then out else out @ [p]) sk)"

definition parseDomainFile ::
  "(string \<Rightarrow> pattern_error option) \<Rightarrow> string \<Rightarrow> skipList \<Rightarrow> (content_error + string list) \<times> skipList" where
  "parseDomainFile validate b sk =
     (if length b > maxFileBytes then (Inl FileTooLarge, sk) else domain_lines validate (strings_Lines b) 0 [] sk)"

section \<open>The registry and its snapshot\<close>

definition steamID :: string where "steamID = ''steam''"
definition SteamTrigger :: string where "SteamTrigger = ''lancache.steamcontent.com''"
definition SteamUserAgentSuffix :: string where "SteamUserAgentSuffix = ''Valve/Steam HTTP Client 1.0''"
definition steamDescription :: string where
  "steamDescription = ''Steam (built in: the lancache.steamcontent.com trigger and the Steam User-Agent rule)''"
definition customPrefix :: string where "customPrefix = ''custom-''"
definition maxCustomServices :: nat where "maxCustomServices = 64"
definition maxExtraDomains :: nat where "maxExtraDomains = 1000"

record Service =
  sv_ID :: string
  sv_Name :: string
  sv_Description :: string
  sv_Notes :: string
  sv_MixedContent :: bool
  sv_Custom :: bool
  sv_Enabled :: bool
  sv_Domains :: "string list"
  sv_ExtraDomains :: "string list"
  sv_DomainCount :: nat

record sourceService =
  ss_ID :: string
  ss_Description :: string
  ss_Notes :: string
  ss_MixedContent :: bool
  ss_Domains :: "string list"

record customService =
  cs_ID :: string
  cs_Name :: string
  cs_Description :: string

record catalogue =
  ca_ready :: bool
  ca_services :: "Service list"
  ca_index :: "(string, nat) fmap"
  ca_exact :: "string \<rightharpoonup> nat"
  ca_suffix :: "string \<rightharpoonup> nat"
  ca_steam :: nat

record registry =
  rg_src :: "sourceService list option"
  rg_custom :: "customService list"
  rg_extras :: "string \<rightharpoonup> string list"
  rg_disabled :: "string list"
  rg_snap :: catalogue

text \<open>The closure \<^verbatim>\<open>add\<close> of \<^verbatim>\<open>rebuildLocked\<close>: the effective patterns of a service.\<close>

definition extras_of :: "registry \<Rightarrow> string \<Rightarrow> string list" where
  "extras_of r i = (case rg_extras r i of None \<Rightarrow> [] | Some e \<Rightarrow> e)"

definition add_new :: "string \<Rightarrow> string list \<Rightarrow> string list" where
  "add_new p domains = (if p \<in> set domains then domains else domains @ [p])"

definition service_domains :: "registry \<Rightarrow> string \<Rightarrow> string list \<Rightarrow> string list" where
  "service_domains r i patterns =
     (let domains = fold add_new (extras_of r i) patterns in
      if i = steamID then add_new SteamTrigger domains else domains)"

definition add_service :: "registry \<Rightarrow> Service \<times> string list \<Rightarrow> Service list \<times> (string, nat) fmap \<Rightarrow> Service list \<times> (string, nat) fmap" where
  "add_service r = (\<lambda>(sv, patterns) (svs, index).
     let domains = service_domains r (sv_ID sv) patterns in
     (svs @ [sv\<lparr>sv_ExtraDomains := extras_of r (sv_ID sv), sv_Domains := domains, sv_DomainCount := length domains,
        sv_Enabled := sv_ID sv \<notin> set (rg_disabled r)\<rparr>], fmupd (sv_ID sv) (length svs) index))"

definition source_entry :: "(string \<Rightarrow> string) \<Rightarrow> sourceService \<Rightarrow> Service \<times> string list" where
  "source_entry displayName s = (\<lparr>sv_ID = ss_ID s, sv_Name = displayName (ss_ID s), sv_Description = ss_Description s, sv_Notes = ss_Notes s,
     sv_MixedContent = ss_MixedContent s, sv_Custom = False, sv_Enabled = False, sv_Domains = [], sv_ExtraDomains = [], sv_DomainCount = 0\<rparr>,
     ss_Domains s)"

definition steam_entry :: "(string \<Rightarrow> string) \<Rightarrow> Service \<times> string list" where
  "steam_entry displayName = (\<lparr>sv_ID = steamID, sv_Name = displayName steamID, sv_Description = steamDescription, sv_Notes = [],
     sv_MixedContent = False, sv_Custom = False, sv_Enabled = False, sv_Domains = [], sv_ExtraDomains = [], sv_DomainCount = 0\<rparr>, [])"

definition custom_entry :: "customService \<Rightarrow> Service \<times> string list" where
  "custom_entry c = (\<lparr>sv_ID = cs_ID c, sv_Name = cs_Name c, sv_Description = cs_Description c, sv_Notes = [],
     sv_MixedContent = False, sv_Custom = True, sv_Enabled = False, sv_Domains = [], sv_ExtraDomains = [], sv_DomainCount = 0\<rparr>, [])"

definition all_services :: "(string \<Rightarrow> string) \<Rightarrow> registry \<Rightarrow> Service list \<times> (string, nat) fmap" where
  "all_services displayName r =
     (let s1 = fold (add_service r) (map (source_entry displayName) (case rg_src r of None \<Rightarrow> [] | Some src \<Rightarrow> src)) ([], fmempty);
          s2 = (if fmlookup (snd s1) steamID = None then add_service r (steam_entry displayName) s1 else s1) in
      fold (add_service r) (map custom_entry (rg_custom r)) s2)"

text \<open>An enabled service beats a disabled one, otherwise the first wins.\<close>

definition take_pattern :: "Service list \<Rightarrow> nat \<Rightarrow> 'k \<Rightarrow> ('k \<rightharpoonup> nat) \<Rightarrow> ('k \<rightharpoonup> nat)" where
  "take_pattern svs i k m =
     (case m k of
        Some cur \<Rightarrow> if sv_Enabled (svs ! cur) \<or> \<not> sv_Enabled (svs ! i) then m else m(k \<mapsto> i)
      | None \<Rightarrow> m(k \<mapsto> i))"

definition put_pattern ::
  "Service list \<Rightarrow> nat \<times> string \<Rightarrow> (string \<rightharpoonup> nat) \<times> (string \<rightharpoonup> nat) \<Rightarrow> (string \<rightharpoonup> nat) \<times> (string \<rightharpoonup> nat)" where
  "put_pattern svs = (\<lambda>(i, p) (exact, suffix).
     case cutWildcard p of
       Some base \<Rightarrow> (exact, take_pattern svs i base suffix)
     | None \<Rightarrow> (take_pattern svs i p exact, suffix))"

definition service_patterns :: "Service list \<Rightarrow> (nat \<times> string) list" where
  "service_patterns svs = concat (map (\<lambda>i. map (Pair i) (sv_Domains (svs ! i))) [0..<length svs])"

definition rebuildLocked :: "(string \<Rightarrow> string) \<Rightarrow> registry \<Rightarrow> registry" where
  "rebuildLocked displayName r =
     (let (svs, index) = all_services displayName r;
          (exact, suffix) = fold (put_pattern svs) (service_patterns svs) (Map.empty, Map.empty) in
      r\<lparr>rg_snap := \<lparr>ca_ready = rg_src r \<noteq> None, ca_services = svs, ca_index = index, ca_exact = exact, ca_suffix = suffix,
         ca_steam = (case fmlookup index steamID of None \<Rightarrow> 0 | Some i \<Rightarrow> i)\<rparr>\<rparr>)"

section \<open>Lookups\<close>

definition ca_lookup :: "catalogue \<Rightarrow> string \<Rightarrow> Service option" where
  "ca_lookup s host =
     (if host = [] then None
      else case ca_exact s host of
        Some i \<Rightarrow> Some (ca_services s ! i)
      | None \<Rightarrow> map_option (\<lambda>j. ca_services s ! j)
          (first_some (\<lambda>i. if host ! i = CHR ''.'' then ca_suffix s (drop (i + 1) host) else None) [0..<length host - 1]))"

definition MatchDNS :: "registry \<Rightarrow> string \<Rightarrow> string option" where
  "MatchDNS r qname =
     (let s = rg_snap r in
      if \<not> ca_ready s then None
      else case ca_lookup s (normalizeHost qname) of
        None \<Rightarrow> None
      | Some sv \<Rightarrow> if sv_Enabled sv then Some (sv_ID sv) else None)"

definition isSteamPath :: "string \<Rightarrow> bool" where
  "isSteamPath path =
     (if path = ''/server-status'' then True
      else case strings_CutPrefix path ''/depot/'' of
        None \<Rightarrow> False
      | Some rest \<Rightarrow> let i = length (takeWhile is_digit rest) in i > 0 \<and> i < length rest \<and> rest ! i = CHR ''/'')"

text \<open>\<^verbatim>\<open>Classify\<close>: the service and whether it is enabled, \<open>None\<close> for a host of no service.\<close>

definition Classify :: "registry \<Rightarrow> string \<Rightarrow> string \<Rightarrow> string \<Rightarrow> (string \<times> bool) option" where
  "Classify r host userAgent path =
     (let s = rg_snap r in
      if strings_HasSuffix userAgent SteamUserAgentSuffix \<and> isSteamPath path
      then Some (steamID, sv_Enabled (ca_services s ! ca_steam s))
      else map_option (\<lambda>sv. (sv_ID sv, sv_Enabled sv)) (ca_lookup s (normalizeHost host)))"

definition SNIAllowed :: "registry \<Rightarrow> string \<Rightarrow> string option" where
  "SNIAllowed r sni = map_option sv_ID (ca_lookup (rg_snap r) (normalizeHost sni))"

section \<open>Changing the registry\<close>

datatype service_error =
  ServiceNotFound | TooManyServices | ServiceNameExists | NotCustom | TooManyDomains | BadDomain nat pattern_error | TooFewDomains
  | NameRequired | BadName | BadDescription | TxFailed

fun normalize_patterns :: "(string \<Rightarrow> pattern_error option) \<Rightarrow> string list \<Rightarrow> nat \<Rightarrow> string list \<Rightarrow> service_error + string list" where
  "normalize_patterns validate [] i out = Inr out"
| "normalize_patterns validate (raw # rest) i out =
     (let p = NormalizePattern raw in
      case validate p of
        Some e \<Rightarrow> Inl (BadDomain i e)
      | None \<Rightarrow> normalize_patterns validate rest (i + 1) (add_new p out))"

definition normalizePatterns :: "(string \<Rightarrow> pattern_error option) \<Rightarrow> string list \<Rightarrow> nat \<Rightarrow> service_error + string list" where
  "normalizePatterns validate ins m =
     (if length ins > maxExtraDomains then Inl TooManyDomains
      else case normalize_patterns validate ins 0 [] of
        Inl e \<Rightarrow> Inl e
      | Inr out \<Rightarrow> if length out < m then Inl TooFewDomains else Inr out)"

definition setExtrasLocked :: "string \<Rightarrow> string list \<Rightarrow> registry \<Rightarrow> registry" where
  "setExtrasLocked i patterns r =
     (if patterns = [] then r\<lparr>rg_extras := (rg_extras r)(i := None)\<rparr> else r\<lparr>rg_extras := (rg_extras r)(i \<mapsto> patterns)\<rparr>)"

text \<open>
  What the operations need of their surroundings: the checks of pattern, name and description texts, the comparison
  of names, the display names, and whether the transaction commits.
\<close>

record registry_env =
  re_validate :: "string \<Rightarrow> pattern_error option"
  re_nameOK :: "string \<Rightarrow> bool"
  re_descOK :: "string \<Rightarrow> bool"
  re_EqualFold :: "string \<Rightarrow> string \<Rightarrow> bool"
  re_displayName :: "string \<Rightarrow> string"
  re_commit :: bool

definition SetExtraDomains :: "registry_env \<Rightarrow> string \<Rightarrow> string list \<Rightarrow> registry \<Rightarrow> service_error + registry" where
  "SetExtraDomains ev i domains r =
     (case normalizePatterns (re_validate ev) domains 0 of
        Inl e \<Rightarrow> Inl e
      | Inr patterns \<Rightarrow>
          if fmlookup (ca_index (rg_snap r)) i = None then Inl ServiceNotFound
          else if \<not> re_commit ev then Inl TxFailed
          else Inr (rebuildLocked (re_displayName ev) (setExtrasLocked i patterns r)))"

definition validateInput :: "registry_env \<Rightarrow> string \<Rightarrow> string \<Rightarrow> string list \<Rightarrow> service_error + string \<times> string \<times> string list" where
  "validateInput ev name0 desc0 domains =
     (let name = strings_TrimSpace name0; desc = strings_TrimSpace desc0 in
      if name = [] then Inl NameRequired
      else if \<not> re_nameOK ev name then Inl BadName
      else if \<not> re_descOK ev desc then Inl BadDescription
      else case normalizePatterns (re_validate ev) domains 1 of
          Inl e \<Rightarrow> Inl e
        | Inr patterns \<Rightarrow> Inr (name, desc, patterns))"

fun slug_chars :: "string \<Rightarrow> bool \<Rightarrow> string \<Rightarrow> string" where
  "slug_chars [] dash b = b"
| "slug_chars (c # s) dash b =
     (if id_char c then slug_chars s False ((if dash \<and> b \<noteq> [] then b @ ''-'' else b) @ [c])
      else slug_chars s True b)"

definition trim_dashes :: "string \<Rightarrow> string" where
  "trim_dashes s = rev (dropWhile (\<lambda>c. c = CHR ''-'') (rev s))"

definition slugify :: "string \<Rightarrow> nat \<Rightarrow> string" where
  "slugify name m = (let s = trim_dashes (take m (slug_chars (strings_ToLower name) False [])) in if s = [] then ''service'' else s)"

definition numbered_id :: "string \<Rightarrow> nat \<Rightarrow> string" where
  "numbered_id slug n = (let sfx = ''-'' @ decimal n in
     customPrefix @ trim_dashes (take (32 - length customPrefix - length sfx) slug) @ sfx)"

definition id_taken :: "registry \<Rightarrow> string \<Rightarrow> bool" where
  "id_taken r i \<longleftrightarrow> fmlookup (ca_index (rg_snap r)) i \<noteq> None \<or> i \<in> set (map cs_ID (rg_custom r))"

text \<open>The loop ends: only finitely many ids are taken, and the numbered ids differ.\<close>

lemma decimal_no_dash: "CHR ''-'' \<notin> set (decimal n)"
  using decimal_digits(1) [of n] digit_props by (auto simp: list_all_iff)

lemma numbered_id_inj: "numbered_id slug m = numbered_id slug n \<Longrightarrow> m = n"
proof -
  assume eq: "numbered_id slug m = numbered_id slug n"
  have last: "takeWhile (\<lambda>c. c \<noteq> CHR ''-'') (rev (numbered_id slug k)) = rev (decimal k)" for k
    unfolding numbered_id_def Let_def rev_append append_assoc
    by (subst takeWhile_append2) (use decimal_no_dash [of k] in auto)
  have "decimal m = decimal n" using last [of m] last [of n] eq by simp
  then show "m = n" using digits_value_decimal by metis
qed

lemma finite_taken: "finite {m. n \<le> m \<and> id_taken r (numbered_id slug m)}"
proof -
  have "finite (fset (fmdom (ca_index (rg_snap r))) \<union> set (map cs_ID (rg_custom r)))" by simp
  moreover have "inj (numbered_id slug)" by (rule injI) (rule numbered_id_inj)
  ultimately have "finite (numbered_id slug -` (fset (fmdom (ca_index (rg_snap r))) \<union> set (map cs_ID (rg_custom r))))"
    by (rule finite_vimageI)
  then show ?thesis by (rule finite_subset [rotated]) (auto simp: id_taken_def fmlookup_dom_iff)
qed

function custom_id :: "registry \<Rightarrow> string \<Rightarrow> string \<Rightarrow> nat \<Rightarrow> string" where
  "custom_id r slug i n = (if id_taken r i then custom_id r slug (numbered_id slug n) (n + 1) else i)"
  by pat_completeness auto
termination custom_id
proof (relation "measure (\<lambda>(r, slug, i, n). card {m. n \<le> m \<and> id_taken r (numbered_id slug m)} + (if id_taken r i then 1 else 0))")
  fix r slug i n
  assume taken: "id_taken r i"
  let ?S = "\<lambda>n. {m. n \<le> m \<and> id_taken r (numbered_id slug m)}"
  have "?S n = (if id_taken r (numbered_id slug n) then insert n (?S (n + 1)) else ?S (n + 1))"
    by (auto simp: Suc_le_eq order.order_iff_strict)
  then have "card (?S n) = card (?S (n + 1)) + (if id_taken r (numbered_id slug n) then 1 else 0)"
    using finite_taken [of "n + 1" r slug] by simp
  with taken show "((r, slug, numbered_id slug n, n + 1), (r, slug, i, n)) \<in>
      measure (\<lambda>(r, slug, i, n). card {m. n \<le> m \<and> id_taken r (numbered_id slug m)} + (if id_taken r i then 1 else 0))"
    by simp
qed simp

declare custom_id.simps [simp del]

definition newCustomIDLocked :: "registry \<Rightarrow> string \<Rightarrow> string" where
  "newCustomIDLocked r name = (let slug = slugify name (32 - length customPrefix) in custom_id r slug (customPrefix @ slug) 2)"

definition CreateCustom :: "registry_env \<Rightarrow> string \<Rightarrow> string \<Rightarrow> string list \<Rightarrow> registry \<Rightarrow> service_error + registry" where
  "CreateCustom ev name0 desc0 domains r =
     (case validateInput ev name0 desc0 domains of
        Inl e \<Rightarrow> Inl e
      | Inr (name, desc, patterns) \<Rightarrow>
          if length (rg_custom r) \<ge> maxCustomServices then Inl TooManyServices
          else if list_ex (\<lambda>c. re_EqualFold ev (cs_Name c) name) (rg_custom r) then Inl ServiceNameExists
          else let i = newCustomIDLocked r name in
            if \<not> re_commit ev then Inl TxFailed
            else Inr (rebuildLocked (re_displayName ev) (setExtrasLocked i patterns
              (r\<lparr>rg_custom := sort_key cs_ID (rg_custom r @ [\<lparr>cs_ID = i, cs_Name = name, cs_Description = desc\<rparr>])\<rparr>))))"

definition customIndexLocked :: "registry \<Rightarrow> string \<Rightarrow> service_error + nat" where
  "customIndexLocked r i =
     (case find (\<lambda>(k, c). cs_ID c = i) (enumerate 0 (rg_custom r)) of
        Some (k, c) \<Rightarrow> Inr k
      | None \<Rightarrow> if fmlookup (ca_index (rg_snap r)) i \<noteq> None then Inl NotCustom else Inl ServiceNotFound)"

definition UpdateCustom :: "registry_env \<Rightarrow> string \<Rightarrow> string \<Rightarrow> string \<Rightarrow> string list \<Rightarrow> registry \<Rightarrow> service_error + registry" where
  "UpdateCustom ev i name0 desc0 domains r =
     (case validateInput ev name0 desc0 domains of
        Inl e \<Rightarrow> Inl e
      | Inr (name, desc, patterns) \<Rightarrow>
          (case customIndexLocked r i of
             Inl e \<Rightarrow> Inl e
           | Inr k \<Rightarrow>
               if list_ex (\<lambda>c. cs_ID c \<noteq> i \<and> re_EqualFold ev (cs_Name c) name) (rg_custom r) then Inl ServiceNameExists
               else if \<not> re_commit ev then Inl TxFailed
               else Inr (rebuildLocked (re_displayName ev) (setExtrasLocked i patterns
                 (r\<lparr>rg_custom := (rg_custom r)[k := \<lparr>cs_ID = i, cs_Name = name, cs_Description = desc\<rparr>]\<rparr>)))))"

text \<open>The list of disabled services is a setting; its listener \<^verbatim>\<open>onSettings\<close> rebuilds the snapshot when it changed.\<close>

definition onSettings :: "registry_env \<Rightarrow> string list \<Rightarrow> registry \<Rightarrow> registry" where
  "onSettings ev disabled r =
     (if rg_disabled r \<noteq> disabled then rebuildLocked (re_displayName ev) (r\<lparr>rg_disabled := disabled\<rparr>) else r)"

definition setDisabled :: "registry_env \<Rightarrow> string \<Rightarrow> bool \<Rightarrow> registry \<Rightarrow> registry" where
  "setDisabled ev i disabled r =
     (let l = filter (\<lambda>s. s \<noteq> i) (rg_disabled r) in onSettings ev (if disabled then l @ [i] else l) r)"

definition SetEnabled :: "registry_env \<Rightarrow> string \<Rightarrow> bool \<Rightarrow> registry \<Rightarrow> service_error + registry" where
  "SetEnabled ev i enabled r =
     (if fmlookup (ca_index (rg_snap r)) i = None then Inl ServiceNotFound else Inr (setDisabled ev i (\<not> enabled) r))"

definition DeleteCustom :: "registry_env \<Rightarrow> string \<Rightarrow> registry \<Rightarrow> service_error + registry" where
  "DeleteCustom ev i r =
     (case customIndexLocked r i of
        Inl e \<Rightarrow> Inl e
      | Inr k \<Rightarrow>
          if \<not> re_commit ev then Inl TxFailed
          else let r' = rebuildLocked (re_displayName ev)
              (r\<lparr>rg_custom := take k (rg_custom r) @ drop (k + 1) (rg_custom r), rg_extras := (rg_extras r)(i := None)\<rparr>) in
            Inr (if i \<in> set (rg_disabled r') then setDisabled ev i False r' else r'))"

definition applySource :: "registry_env \<Rightarrow> sourceService list \<Rightarrow> registry \<Rightarrow> registry" where
  "applySource ev src r = rebuildLocked (re_displayName ev) (r\<lparr>rg_src := Some src\<rparr>)"

definition minRetry :: duration where "minRetry = Minute"
definition maxRetry :: duration where "maxRetry = Hour"

text \<open>The backoff after failed fetches: doubled per failure up to an hour; the loop of \<^verbatim>\<open>retryDelay\<close> runs \<open>n - 1\<close> times at most.\<close>

fun double_retry :: "nat \<Rightarrow> duration \<Rightarrow> duration" where
  "double_retry 0 d = d"
| "double_retry (Suc n) d = (if d < maxRetry then double_retry n (d * 2) else d)"

definition retryDelay :: "nat \<Rightarrow> duration" where
  "retryDelay n = min (double_retry (n - 1) minRetry) maxRetry"

section \<open>Which service owns a pattern\<close>

definition slot :: "(string \<rightharpoonup> nat) \<times> (string \<rightharpoonup> nat) \<Rightarrow> string \<Rightarrow> nat option" where
  "slot s p = (case cutWildcard p of Some b \<Rightarrow> snd s b | None \<Rightarrow> fst s p)"

text \<open>The reference: the first enabled service that lists the pattern, else the first that lists it.\<close>

definition owner :: "Service list \<Rightarrow> (nat \<times> string) list \<Rightarrow> string \<Rightarrow> nat option" where
  "owner svs ps p = (case find (\<lambda>(i, q). q = p \<and> sv_Enabled (svs ! i)) ps of
     Some x \<Rightarrow> Some (fst x) | None \<Rightarrow> map_option fst (find (\<lambda>(i, q). q = p) ps))"

lemma cutWildcard_Some: "cutWildcard p = Some b \<longleftrightarrow> p = ''*.'' @ b \<and> b \<noteq> []"
proof -
  have "length p > 2 \<and> p ! 0 = CHR ''*'' \<and> p ! 1 = CHR ''.'' \<longleftrightarrow> (\<exists>b. p = ''*.'' @ b \<and> b \<noteq> [])"
    by (cases p; cases "tl p") auto
  then show ?thesis by (auto simp: cutWildcard_def split: if_splits)
qed

lemma slot_put_pattern:
  "slot (put_pattern svs (i, q) s) p =
     (if q = p then (case slot s p of
        Some cur \<Rightarrow> Some (if sv_Enabled (svs ! cur) \<or> \<not> sv_Enabled (svs ! i) then cur else i) | None \<Rightarrow> Some i)
      else slot s p)"
proof (cases "q = p")
  case True
  then show ?thesis
    by (cases s) (simp add: slot_def put_pattern_def take_pattern_def split: option.split)
next
  case False
  then have "cutWildcard q = None \<or> cutWildcard q \<noteq> cutWildcard p" by (metis cutWildcard_Some option.exhaust)
  with False show ?thesis
    by (cases s; cases "cutWildcard q"; cases "cutWildcard p") (auto simp: slot_def put_pattern_def take_pattern_def split: option.split)
qed

lemma find_snoc: "find P (xs @ [x]) = (case find P xs of Some y \<Rightarrow> Some y | None \<Rightarrow> if P x then Some x else None)"
  by (induction xs) auto

lemma find_weaken: "find P xs = Some x \<Longrightarrow> (\<And>y. P y \<Longrightarrow> Q y) \<Longrightarrow> find Q xs \<noteq> None"
  by (metis find_None_iff find_Some_iff nth_mem)

lemma slot_fold: "slot (fold (put_pattern svs) ps (Map.empty, Map.empty)) p = owner svs ps p"
proof (induction ps rule: rev_induct)
  case Nil
  then show ?case by (simp add: slot_def owner_def split: option.split)
next
  case (snoc x ps)
  obtain i q where x: "x = (i, q)" by (cases x)
  have en: "sv_Enabled (svs ! fst y)" if "find (\<lambda>(i, q). q = p \<and> sv_Enabled (svs ! i)) ps = Some y" for y
    using that by (auto simp: find_Some_iff)
  have dis: "\<not> sv_Enabled (svs ! fst y)" if "find (\<lambda>(i, q). q = p \<and> sv_Enabled (svs ! i)) ps = None" "find (\<lambda>(i, q). q = p) ps = Some y" for y
    using that by (fastforce simp: find_Some_iff find_None_iff in_set_conv_nth)
  show ?case
    using snoc en dis by (auto simp: x slot_put_pattern owner_def find_snoc split: option.splits)
qed

lemma fold_put_maps:
  fixes svs ps defines "s \<equiv> fold (put_pattern svs) ps (Map.empty, Map.empty)"
  shows "fst s p = (if cutWildcard p = None then owner svs ps p else None)" and "b \<noteq> [] \<Longrightarrow> snd s b = owner svs ps (''*.'' @ b)"
proof -
  have "cutWildcard p \<noteq> None \<Longrightarrow> fst s p = None"
    unfolding s_def by (induction ps rule: rev_induct) (auto simp: put_pattern_def take_pattern_def split: prod.split option.split)
  then show "fst s p = (if cutWildcard p = None then owner svs ps p else None)"
    using slot_fold [of svs ps p] by (auto simp: s_def slot_def)
  show "snd s b = owner svs ps (''*.'' @ b)" if "b \<noteq> []"
    using slot_fold [of svs ps "''*.'' @ b"] that cutWildcard_Some [of "''*.'' @ b" b] by (simp add: s_def slot_def)
qed

text \<open>The patterns that decide a host, the most specific first.\<close>

definition host_keys :: "string \<Rightarrow> string list" where
  "host_keys host = host # map (\<lambda>i. ''*.'' @ drop (i + 1) host) (filter (\<lambda>i. host ! i = CHR ''.'') [0..<length host - 1])"

definition pattern_matches :: "string \<Rightarrow> string \<Rightarrow> bool" where
  "pattern_matches p host \<longleftrightarrow> p = host \<or> (\<exists>pre b. p = ''*.'' @ b \<and> b \<noteq> [] \<and> host = pre @ ''.'' @ b)"

lemma set_host_keys: "p \<in> set (host_keys host) \<longleftrightarrow> pattern_matches p host"
proof -
  have "(\<exists>i < length host - 1. host ! i = CHR ''.'' \<and> p = ''*.'' @ drop (i + 1) host) \<longleftrightarrow>
      (\<exists>pre b. p = ''*.'' @ b \<and> b \<noteq> [] \<and> host = pre @ ''.'' @ b)"
  proof safe
    fix i assume i: "i < length host - 1" "host ! i = CHR ''.''" "p = ''*.'' @ drop (i + 1) host"
    then have "host = take i host @ ''.'' @ drop (i + 1) host" using id_take_nth_drop [of i host] by simp
    with i show "\<exists>pre b. ''*.'' @ drop (i + 1) host = ''*.'' @ b \<and> b \<noteq> [] \<and> host = pre @ ''.'' @ b"
      by (intro exI [of _ "take i host"] exI [of _ "drop (i + 1) host"]) auto
  next
    fix pre b :: string assume "b \<noteq> []" "host = pre @ ''.'' @ b"
    then show "\<exists>i < length (pre @ ''.'' @ b) - 1. (pre @ ''.'' @ b) ! i = CHR ''.'' \<and> ''*.'' @ b = ''*.'' @ drop (i + 1) (pre @ ''.'' @ b)"
      by (intro exI [of _ "length pre"]) auto
  qed
  then show ?thesis by (auto simp: host_keys_def pattern_matches_def)
qed

lemma first_some_filter: "first_some (\<lambda>i. if P i then f i else None) xs = first_some f (filter P xs)"
  by (induction xs) (auto split: option.splits)

lemma first_some_idem: "first_some f (x # x # xs) = first_some f (x # xs)"
  by (simp split: option.split)

lemma lookup_reference:
  assumes "host \<noteq> []"
  shows "ca_lookup (rg_snap (rebuildLocked dn r)) host =
    map_option (\<lambda>i. fst (all_services dn r) ! i)
      (first_some (owner (fst (all_services dn r)) (service_patterns (fst (all_services dn r)))) (host_keys host))"
proof -
  define svs where "svs = fst (all_services dn r)"
  define own where "own = owner svs (service_patterns svs)"
  let ?s = "rg_snap (rebuildLocked dn r)"
  let ?is = "filter (\<lambda>i. host ! i = CHR ''.'') [0..<length host - 1]"
  have sel: "ca_services ?s = svs" "ca_exact ?s = fst (fold (put_pattern svs) (service_patterns svs) (Map.empty, Map.empty))"
      "ca_suffix ?s = snd (fold (put_pattern svs) (service_patterns svs) (Map.empty, Map.empty))"
    by (auto simp: rebuildLocked_def svs_def split: prod.split)
  have suff: "first_some (\<lambda>i. if host ! i = CHR ''.'' then ca_suffix ?s (drop (i + 1) host) else None) [0..<length host - 1]
      = first_some own (map (\<lambda>i. ''*.'' @ drop (i + 1) host) ?is)"
    unfolding first_some_filter first_some_map sel own_def
    by (rule first_some_cong) (auto simp: fold_put_maps(2))
  have exact: "ca_exact ?s host = (if cutWildcard host = None then own host else None)"
    unfolding sel own_def by (rule fold_put_maps(1))
  have "first_some own (host_keys host) = first_some own (map (\<lambda>i. ''*.'' @ drop (i + 1) host) ?is)" if "cutWildcard host = Some b" for b
  proof -
    have h: "host = ''*.'' @ b" "b \<noteq> []" using that by (simp_all add: cutWildcard_Some)
    then obtain n where "length host - 1 = Suc (Suc n)" by (cases b) auto
    then have "[0..<length host - 1] = 0 # 1 # [2..<length host - 1]" by (simp add: upt_rec numeral_2_eq_2)
    then show ?thesis using h by (simp add: host_keys_def split: option.split)
  qed
  then show ?thesis
    using assms unfolding ca_lookup_def exact suff unfolding sel svs_def [symmetric] own_def [symmetric]
    by (cases "cutWildcard host") (auto simp: host_keys_def split: option.split)
qed

section \<open>The registry's invariant\<close>

definition source_ok :: "(string \<Rightarrow> pattern_error option) \<Rightarrow> sourceService list \<Rightarrow> bool" where
  "source_ok V src \<longleftrightarrow> distinct (map ss_ID src)
     \<and> list_all (\<lambda>s. \<not> strings_HasPrefix (ss_ID s) customPrefix \<and> list_all (\<lambda>p. V p = None) (ss_Domains s)) src"

definition reg_ok :: "(string \<Rightarrow> pattern_error option) \<Rightarrow> registry \<Rightarrow> bool" where
  "reg_ok V r \<longleftrightarrow> pred_option (source_ok V) (rg_src r)
     \<and> (\<forall>i ps. rg_extras r i = Some ps \<longrightarrow> list_all (\<lambda>p. V p = None) ps)
     \<and> distinct (map cs_ID (rg_custom r)) \<and> list_all (\<lambda>c. strings_HasPrefix (cs_ID c) customPrefix) (rg_custom r)
     \<and> length (rg_custom r) \<le> maxCustomServices"

definition reg_inv :: "(string \<Rightarrow> pattern_error option) \<Rightarrow> (string \<Rightarrow> string) \<Rightarrow> registry \<Rightarrow> bool" where
  "reg_inv V dn r \<longleftrightarrow> reg_ok V r \<and> rg_snap r = rg_snap (rebuildLocked dn r)"

lemma rebuildLocked_sel [simp]:
  "rg_src (rebuildLocked dn r) = rg_src r" "rg_custom (rebuildLocked dn r) = rg_custom r"
  "rg_extras (rebuildLocked dn r) = rg_extras r" "rg_disabled (rebuildLocked dn r) = rg_disabled r"
  by (auto simp: rebuildLocked_def split: prod.split)

lemma rebuild_snap: "rg_snap (rebuildLocked dn (r\<lparr>rg_snap := s\<rparr>)) = rg_snap (rebuildLocked dn r)"
proof -
  have "service_domains (r\<lparr>rg_snap := s\<rparr>) = service_domains r" "extras_of (r\<lparr>rg_snap := s\<rparr>) = extras_of r"
    by (intro ext; simp add: service_domains_def extras_of_def)+
  then have "add_service (r\<lparr>rg_snap := s\<rparr>) = add_service r" by (intro ext) (simp add: add_service_def)
  then have "all_services dn (r\<lparr>rg_snap := s\<rparr>) = all_services dn r" by (simp add: all_services_def Let_def)
  then show ?thesis by (simp add: rebuildLocked_def split_beta)
qed

lemma rebuild_idem: "rg_snap (rebuildLocked dn (rebuildLocked dn r)) = rg_snap (rebuildLocked dn r)"
proof -
  have "rebuildLocked dn r = r\<lparr>rg_snap := rg_snap (rebuildLocked dn r)\<rparr>" by (auto simp: rebuildLocked_def split: prod.split)
  then show ?thesis using rebuild_snap by metis
qed

lemma reg_inv_rebuild: "reg_ok V r \<Longrightarrow> reg_inv V dn (rebuildLocked dn r)"
  by (simp add: reg_inv_def reg_ok_def rebuild_idem)

lemma set_add_new [simp]: "set (add_new p xs) = insert p (set xs)"
  by (auto simp: add_new_def)

lemma set_fold_add_new [simp]: "set (fold add_new ps xs) = set ps \<union> set xs"
  by (induction ps arbitrary: xs) auto

lemma normalize_patterns_ok: "normalize_patterns V ins i out = Inr ps \<Longrightarrow> \<forall>p \<in> set out. V p = None \<Longrightarrow> list_all (\<lambda>p. V p = None) ps"
proof (induction ins arbitrary: i out)
  case (Cons raw ins)
  from Cons.prems(1) obtain n where "V (NormalizePattern raw) = None"
      "normalize_patterns V ins n (add_new (NormalizePattern raw) out) = Inr ps"
    by (auto simp: Let_def split: option.splits)
  then show ?case using Cons.IH Cons.prems(2) by auto
qed (simp add: list_all_iff)

lemma normalizePatterns_ok: "normalizePatterns V ins m = Inr ps \<Longrightarrow> list_all (\<lambda>p. V p = None) ps"
  by (auto simp: normalizePatterns_def dest: normalize_patterns_ok split: if_splits sum.splits)

lemma reg_ok_setExtras: "reg_ok V r \<Longrightarrow> list_all (\<lambda>p. V p = None) ps \<Longrightarrow> reg_ok V (setExtrasLocked i ps r)"
  by (auto simp: reg_ok_def setExtrasLocked_def)

lemma custom_id_fresh: "\<not> id_taken r (custom_id r slug i n)"
  by (induction r slug i n rule: custom_id.induct) (subst custom_id.simps, simp)

lemma custom_id_prefix: "strings_HasPrefix i customPrefix \<Longrightarrow> strings_HasPrefix (custom_id r slug i n) customPrefix"
proof (induction r slug i n rule: custom_id.induct)
  case (1 r slug i n)
  then show ?case
    by (subst custom_id.simps) (auto simp: numbered_id_def Let_def strings_HasPrefix_def)
qed

datatype registry_op =
    OpSource registry_env "sourceService list"
  | OpExtra registry_env string "string list"
  | OpCreate registry_env string string "string list"
  | OpUpdate registry_env string string string "string list"
  | OpDelete registry_env string
  | OpEnable registry_env string bool
  | OpSettings registry_env "string list"

definition result_or :: "registry \<Rightarrow> service_error + registry \<Rightarrow> registry" where
  "result_or r x = (case x of Inl _ \<Rightarrow> r | Inr r' \<Rightarrow> r')"

text \<open>
  The operations on one registry share the pattern check and the display names. A source comes from
  \<^verbatim>\<open>fetchSource\<close> or \<^verbatim>\<open>loadSnapshot\<close>, which reject ids and patterns \<open>source_ok\<close> does not admit.
\<close>

fun registry_step :: "(string \<Rightarrow> pattern_error option) \<Rightarrow> (string \<Rightarrow> string) \<Rightarrow> registry_op \<Rightarrow> registry \<Rightarrow> registry" where
  "registry_step V dn (OpSource ev src) r = (if source_ok V src then applySource (ev\<lparr>re_displayName := dn\<rparr>) src r else r)"
| "registry_step V dn (OpExtra ev i ds) r = result_or r (SetExtraDomains (ev\<lparr>re_validate := V, re_displayName := dn\<rparr>) i ds r)"
| "registry_step V dn (OpCreate ev name desc ds) r = result_or r (CreateCustom (ev\<lparr>re_validate := V, re_displayName := dn\<rparr>) name desc ds r)"
| "registry_step V dn (OpUpdate ev i name desc ds) r = result_or r (UpdateCustom (ev\<lparr>re_validate := V, re_displayName := dn\<rparr>) i name desc ds r)"
| "registry_step V dn (OpDelete ev i) r = result_or r (DeleteCustom (ev\<lparr>re_displayName := dn\<rparr>) i r)"
| "registry_step V dn (OpEnable ev i b) r = result_or r (SetEnabled (ev\<lparr>re_displayName := dn\<rparr>) i b r)"
| "registry_step V dn (OpSettings ev disabled) r = onSettings (ev\<lparr>re_displayName := dn\<rparr>) disabled r"

definition new_registry :: "(string \<Rightarrow> string) \<Rightarrow> registry" where
  "new_registry dn = rebuildLocked dn \<lparr>rg_src = None, rg_custom = [], rg_extras = Map.empty, rg_disabled = [],
     rg_snap = \<lparr>ca_ready = False, ca_services = [], ca_index = fmempty, ca_exact = Map.empty, ca_suffix = Map.empty, ca_steam = 0\<rparr>\<rparr>"

lemma validateInput_ok: "validateInput ev n d ds = Inr (name, desc, ps) \<Longrightarrow> list_all (\<lambda>p. re_validate ev p = None) ps"
  by (auto simp: validateInput_def Let_def dest: normalizePatterns_ok split: if_splits sum.splits)

lemma reg_ok_create:
  assumes "reg_ok V r" and "length (rg_custom r) < maxCustomServices" and "i = newCustomIDLocked r name"
  shows "reg_ok V (r\<lparr>rg_custom := sort_key cs_ID (rg_custom r @ [\<lparr>cs_ID = i, cs_Name = name, cs_Description = desc\<rparr>])\<rparr>)"
proof -
  let ?l = "rg_custom r @ [\<lparr>cs_ID = i, cs_Name = name, cs_Description = desc\<rparr>]"
  have "i \<notin> set (map cs_ID (rg_custom r))" "strings_HasPrefix i customPrefix"
    using custom_id_fresh custom_id_prefix unfolding assms(3) newCustomIDLocked_def Let_def id_taken_def
    by (blast, simp add: strings_HasPrefix_def)
  then have "distinct (map cs_ID ?l)" "list_all (\<lambda>c. strings_HasPrefix (cs_ID c) customPrefix) ?l"
    using assms(1) by (auto simp: reg_ok_def)
  moreover have "distinct (map cs_ID (sort_key cs_ID ?l))"
    using calculation(1) by (metis mset_map mset_eq_imp_distinct_iff mset_sort)
  ultimately show ?thesis using assms(1,2) by (simp add: reg_ok_def list_all_iff)
qed

lemma customIndex_nth: "customIndexLocked r i = Inr k \<Longrightarrow> k < length (rg_custom r) \<and> cs_ID (rg_custom r ! k) = i"
  by (auto simp: customIndexLocked_def find_Some_iff in_set_enumerate_eq nth_enumerate_eq split: option.splits if_splits)

lemma reg_ok_update:
  assumes "reg_ok V r" and "customIndexLocked r i = Inr k"
  shows "reg_ok V (r\<lparr>rg_custom := (rg_custom r)[k := \<lparr>cs_ID = i, cs_Name = name, cs_Description = desc\<rparr>]\<rparr>)"
proof -
  have k: "k < length (rg_custom r)" "cs_ID (rg_custom r ! k) = i" using customIndex_nth [OF assms(2)] by simp_all
  then have "map cs_ID ((rg_custom r)[k := \<lparr>cs_ID = i, cs_Name = name, cs_Description = desc\<rparr>]) = map cs_ID (rg_custom r)"
    by (simp add: map_update list_update_same_conv)
  then show ?thesis
    using assms(1) k by (auto simp: reg_ok_def list_all_length nth_list_update)
qed

lemma reg_ok_delete: "reg_ok V r \<Longrightarrow> reg_ok V (r\<lparr>rg_custom := take k (rg_custom r) @ drop (k + 1) (rg_custom r), rg_extras := (rg_extras r)(i := None)\<rparr>)"
  by (auto simp: reg_ok_def list_all_iff take_map [symmetric] drop_map [symmetric] set_take_disj_set_drop_if_distinct
      dest: in_set_takeD in_set_dropD)

lemma reg_inv_onSettings: "reg_inv V dn r \<Longrightarrow> re_displayName ev = dn \<Longrightarrow> reg_inv V dn (onSettings ev disabled r)"
  using reg_inv_rebuild [of V "r\<lparr>rg_disabled := disabled\<rparr>" dn] by (auto simp: onSettings_def reg_inv_def reg_ok_def)

lemma reg_invD: "reg_inv V dn r \<Longrightarrow> reg_ok V r"
  by (simp add: reg_inv_def)

lemma reg_inv_source: "reg_inv V dn r \<Longrightarrow> source_ok V src \<Longrightarrow> re_displayName ev = dn \<Longrightarrow> reg_inv V dn (applySource ev src r)"
  unfolding applySource_def by (auto intro!: reg_inv_rebuild dest!: reg_invD simp: reg_ok_def)

lemma reg_inv_extra:
  "reg_inv V dn r \<Longrightarrow> re_validate ev = V \<Longrightarrow> re_displayName ev = dn \<Longrightarrow> SetExtraDomains ev i ds r = Inr r' \<Longrightarrow> reg_inv V dn r'"
  by (auto simp: SetExtraDomains_def intro!: reg_inv_rebuild reg_ok_setExtras dest: normalizePatterns_ok reg_invD split: sum.splits if_splits)

lemma reg_inv_create:
  assumes "reg_inv V dn r" "re_validate ev = V" "re_displayName ev = dn" "CreateCustom ev n d ds r = Inr r'"
  shows "reg_inv V dn r'"
proof -
  obtain name desc ps where ok: "validateInput ev n d ds = Inr (name, desc, ps)" "length (rg_custom r) < maxCustomServices"
    and r': "r' = rebuildLocked dn (setExtrasLocked (newCustomIDLocked r name) ps
      (r\<lparr>rg_custom := sort_key cs_ID (rg_custom r @ [\<lparr>cs_ID = newCustomIDLocked r name, cs_Name = name, cs_Description = desc\<rparr>])\<rparr>))"
    using assms(3,4) by (auto simp: CreateCustom_def Let_def not_le split: sum.splits if_splits)
  show ?thesis
    unfolding r' using validateInput_ok [OF ok(1)] assms(1,2) ok(2)
    by (intro reg_inv_rebuild reg_ok_setExtras reg_ok_create reg_invD [OF assms(1)]) auto
qed

lemma reg_inv_update:
  assumes "reg_inv V dn r" "re_validate ev = V" "re_displayName ev = dn" "UpdateCustom ev i n d ds r = Inr r'"
  shows "reg_inv V dn r'"
proof -
  obtain name desc ps k where ok: "validateInput ev n d ds = Inr (name, desc, ps)" "customIndexLocked r i = Inr k"
    and r': "r' = rebuildLocked dn (setExtrasLocked i ps (r\<lparr>rg_custom := (rg_custom r)[k := \<lparr>cs_ID = i, cs_Name = name, cs_Description = desc\<rparr>]\<rparr>))"
    using assms(3,4) by (auto simp: UpdateCustom_def Let_def split: sum.splits if_splits)
  show ?thesis
    unfolding r' using validateInput_ok [OF ok(1)] assms(1,2) ok(2)
    by (intro reg_inv_rebuild reg_ok_setExtras reg_ok_update reg_invD [OF assms(1)]) auto
qed

lemma reg_inv_delete: "reg_inv V dn r \<Longrightarrow> re_displayName ev = dn \<Longrightarrow> DeleteCustom ev i r = Inr r' \<Longrightarrow> reg_inv V dn r'"
  by (auto simp: DeleteCustom_def Let_def setDisabled_def dest!: reg_invD split: sum.splits if_splits
      intro!: reg_inv_onSettings reg_inv_rebuild reg_ok_delete [simplified])

lemma registry_step_inv:
  assumes "reg_inv V dn r"
  shows "reg_inv V dn (registry_step V dn oper r)"
proof (cases oper)
  case (OpSource ev src)
  then show ?thesis using assms by (simp add: reg_inv_source)
next
  case (OpExtra ev i ds)
  then show ?thesis using assms reg_inv_extra [of V dn r "ev\<lparr>re_validate := V, re_displayName := dn\<rparr>" i ds] by (auto simp: result_or_def split: sum.split)
next
  case (OpCreate ev n d ds)
  then show ?thesis using assms reg_inv_create [of V dn r "ev\<lparr>re_validate := V, re_displayName := dn\<rparr>" n d ds] by (auto simp: result_or_def split: sum.split)
next
  case (OpUpdate ev i n d ds)
  then show ?thesis using assms reg_inv_update [of V dn r "ev\<lparr>re_validate := V, re_displayName := dn\<rparr>" i n d ds] by (auto simp: result_or_def split: sum.split)
next
  case (OpDelete ev i)
  then show ?thesis using assms reg_inv_delete [of V dn r "ev\<lparr>re_displayName := dn\<rparr>" i] by (auto simp: result_or_def split: sum.split)
qed (use assms in \<open>auto simp: result_or_def SetEnabled_def setDisabled_def Let_def intro: reg_inv_onSettings\<close>)

lemma new_registry_inv: "reg_inv V dn (new_registry dn)"
  unfolding new_registry_def by (rule reg_inv_rebuild) (simp add: reg_ok_def)

interpretation reg: invariant_machine "new_registry dn" "registry_step V dn" "reg_inv V dn" for V dn
  by unfold_locales (simp_all add: new_registry_inv registry_step_inv)

section \<open>The services of a snapshot\<close>

definition finished :: "registry \<Rightarrow> Service \<times> string list \<Rightarrow> Service" where
  "finished r = (\<lambda>(sv, patterns). let domains = service_domains r (sv_ID sv) patterns in
     sv\<lparr>sv_ExtraDomains := extras_of r (sv_ID sv), sv_Domains := domains, sv_DomainCount := length domains,
        sv_Enabled := sv_ID sv \<notin> set (rg_disabled r)\<rparr>)"

definition index_of_ids :: "Service list \<times> (string, nat) fmap \<Rightarrow> bool" where
  "index_of_ids s \<longleftrightarrow> (\<forall>i < length (fst s). fmlookup (snd s) (sv_ID (fst s ! i)) = Some i)
     \<and> fset (fmdom (snd s)) = sv_ID ` set (fst s)"

lemma finished_sel [simp]:
  "sv_ID (finished r e) = sv_ID (fst e)" "sv_Domains (finished r e) = service_domains r (sv_ID (fst e)) (snd e)"
  "sv_Enabled (finished r e) \<longleftrightarrow> sv_ID (fst e) \<notin> set (rg_disabled r)"
  by (simp_all add: finished_def Let_def split_beta)

lemma fst_add_service: "fst (add_service r e s) = fst s @ [finished r e]"
  by (simp add: add_service_def finished_def Let_def split_beta)

lemma snd_add_service: "snd (add_service r e s) = fmupd (sv_ID (fst e)) (length (fst s)) (snd s)"
  by (simp add: add_service_def Let_def split_beta)

lemma fst_fold_add: "fst (fold (add_service r) es s) = fst s @ map (finished r) es"
  by (induction es arbitrary: s) (simp_all add: fst_add_service)

lemma index_add_service: "index_of_ids s \<Longrightarrow> sv_ID (fst e) \<notin> sv_ID ` set (fst s) \<Longrightarrow> index_of_ids (add_service r e s)"
  by (auto simp: index_of_ids_def fst_add_service snd_add_service nth_append less_Suc_eq)

lemma index_fold_add:
  "index_of_ids s \<Longrightarrow> distinct (map (sv_ID \<circ> fst) es) \<Longrightarrow> (sv_ID \<circ> fst) ` set es \<inter> sv_ID ` set (fst s) = {} \<Longrightarrow>
   index_of_ids (fold (add_service r) es s)"
  by (induction es arbitrary: s) (auto simp: fst_add_service index_add_service image_iff)

definition service_entries :: "(string \<Rightarrow> string) \<Rightarrow> registry \<Rightarrow> (Service \<times> string list) list" where
  "service_entries dn r =
     (let src = map (source_entry dn) (case rg_src r of None \<Rightarrow> [] | Some src \<Rightarrow> src) in
      src @ (if steamID \<in> (sv_ID \<circ> fst) ` set src then [] else [steam_entry dn]) @ map custom_entry (rg_custom r))"

lemma steam_no_prefix: "\<not> strings_HasPrefix steamID customPrefix"
  by (simp add: strings_HasPrefix_def steamID_def customPrefix_def)

lemma entry_ids [simp]:
  "sv_ID (fst (source_entry dn s)) = ss_ID s" "sv_ID (fst (steam_entry dn)) = steamID" "sv_ID (fst (custom_entry c)) = cs_ID c"
  "snd (source_entry dn s) = ss_Domains s" "snd (steam_entry dn) = []" "snd (custom_entry c) = []"
  by (simp_all add: source_entry_def steam_entry_def custom_entry_def)

lemma all_services_entries:
  assumes "reg_ok V r"
  shows "fst (all_services dn r) = map (finished r) (service_entries dn r)" and "index_of_ids (all_services dn r)"
    and "distinct (map (sv_ID \<circ> fst) (service_entries dn r))" and "steamID \<in> (sv_ID \<circ> fst) ` set (service_entries dn r)"
proof -
  define src where "src = (case rg_src r of None \<Rightarrow> [] | Some src \<Rightarrow> src)"
  let ?es = "map (source_entry dn) src" and ?cs = "map custom_entry (rg_custom r)"
  define s1 where "s1 = fold (add_service r) ?es ([], fmempty)"
  define s2 where "s2 = (if fmlookup (snd s1) steamID = None then add_service r (steam_entry dn) s1 else s1)"
  have src: "distinct (map ss_ID src)" "\<forall>s \<in> set src. \<not> strings_HasPrefix (ss_ID s) customPrefix"
    using assms by (cases "rg_src r"; auto simp: reg_ok_def src_def source_ok_def list_all_iff)+
  have cust: "distinct (map cs_ID (rg_custom r))" "\<forall>c \<in> set (rg_custom r). strings_HasPrefix (cs_ID c) customPrefix"
    using assms by (auto simp: reg_ok_def list_all_iff)
  have "index_of_ids ([], fmempty)" by (simp add: index_of_ids_def)
  then have ix1: "index_of_ids s1" "fst s1 = map (finished r) ?es"
    using src(1) index_fold_add [of "([], fmempty)" ?es r] by (simp_all add: s1_def fst_fold_add comp_def)
  have "fset (fmdom (snd s1)) = ss_ID ` set src" using ix1 by (simp add: index_of_ids_def image_image)
  then have steam: "fmlookup (snd s1) steamID = None \<longleftrightarrow> steamID \<notin> ss_ID ` set src" by (metis fmdom_notD fmdom_notI)
  have ix2: "index_of_ids s2" "fst s2 = map (finished r) (?es @ (if steamID \<in> ss_ID ` set src then [] else [steam_entry dn]))"
    using ix1 steam by (auto simp: s2_def fst_add_service intro!: index_add_service)
  have all: "all_services dn r = fold (add_service r) ?cs s2"
    by (simp add: all_services_def Let_def s2_def s1_def src_def)
  have ids: "sv_ID ` set (fst s2) \<inter> cs_ID ` set (rg_custom r) = {}"
    using src(2) cust(2) steam_no_prefix by (auto simp: ix2(2) split: if_splits)
  show "fst (all_services dn r) = map (finished r) (service_entries dn r)"
    by (auto simp: all fst_fold_add ix2(2) service_entries_def Let_def src_def [symmetric] image_image comp_def)
  show "index_of_ids (all_services dn r)"
    unfolding all using ix2(1) cust(1) ids by (intro index_fold_add) (simp_all add: comp_def image_image Int_commute)
  show "distinct (map (sv_ID \<circ> fst) (service_entries dn r))"
    using src cust steam_no_prefix by (auto simp: service_entries_def Let_def src_def [symmetric] comp_def image_image)
  show "steamID \<in> (sv_ID \<circ> fst) ` set (service_entries dn r)"
    by (auto simp: service_entries_def Let_def src_def [symmetric] image_Un image_image)
qed

lemma service_domains_ok:
  assumes "reg_ok V r" and "e \<in> set (service_entries dn r)" and "p \<in> set (sv_Domains (finished r e))"
  shows "V p = None \<or> p = SteamTrigger"
proof -
  have "\<forall>q \<in> set (extras_of r i). V q = None" for i
    using assms(1) by (cases "rg_extras r i") (auto simp: reg_ok_def extras_of_def list_all_iff)
  moreover have "\<forall>q \<in> set (snd e). V q = None"
    using assms(1,2) by (cases "rg_src r") (auto simp: reg_ok_def service_entries_def Let_def source_ok_def list_all_iff split: if_splits)
  ultimately show ?thesis
    using assms(3) by (auto simp: service_domains_def Let_def split: if_splits)
qed

lemma owner_SomeD: "owner svs (service_patterns svs) p = Some i \<Longrightarrow> i < length svs \<and> p \<in> set (sv_Domains (svs ! i))"
  by (auto simp: owner_def service_patterns_def find_Some_iff split: option.splits dest!: nth_mem)

lemma catalogue_facts:
  assumes "reg_inv V dn r"
  defines "s \<equiv> rg_snap r"
  shows "distinct (map sv_ID (ca_services s)) \<and> (\<forall>i < length (ca_services s). fmlookup (ca_index s) (sv_ID (ca_services s ! i)) = Some i)
    \<and> ca_steam s < length (ca_services s) \<and> sv_ID (ca_services s ! ca_steam s) = steamID
    \<and> (\<forall>sv \<in> set (ca_services s). (sv_Enabled sv \<longleftrightarrow> sv_ID sv \<notin> set (rg_disabled r)) \<and> (\<forall>p \<in> set (sv_Domains sv). V p = None \<or> p = SteamTrigger))
    \<and> length (rg_custom r) \<le> maxCustomServices"
proof -
  have ok: "reg_ok V r" and "s = rg_snap (rebuildLocked dn r)" using assms by (simp_all add: reg_inv_def)
  then have s: "ca_services s = fst (all_services dn r)" "ca_index s = snd (all_services dn r)"
      "ca_steam s = (case fmlookup (snd (all_services dn r)) steamID of None \<Rightarrow> 0 | Some i \<Rightarrow> i)"
    by (auto simp: rebuildLocked_def split: prod.split)
  note es = all_services_entries [OF ok, of dn]
  have dist: "distinct (map sv_ID (ca_services s))" using es(1,3) by (simp add: s comp_def)
  have "steamID \<in> sv_ID ` set (ca_services s)" using es(4) by (simp add: s es(1) image_image comp_def)
  then obtain k where k: "k < length (ca_services s)" "sv_ID (ca_services s ! k) = steamID" by (auto simp: in_set_conv_nth)
  then have "ca_steam s = k" using es(2) by (auto simp: s index_of_ids_def)
  then show ?thesis
    using dist k es(1,2) ok service_domains_ok [OF ok, of _ dn] by (auto simp: s index_of_ids_def reg_ok_def)
qed

lemma ca_lookup_sound:
  assumes "reg_inv V dn r" and "ca_lookup (rg_snap r) host = Some sv"
  shows "sv \<in> set (ca_services (rg_snap r)) \<and> (\<exists>p \<in> set (sv_Domains sv). pattern_matches p host)"
proof -
  let ?svs = "fst (all_services dn r)"
  have snap: "rg_snap r = rg_snap (rebuildLocked dn r)" using assms(1) by (simp add: reg_inv_def)
  have svs: "ca_services (rg_snap r) = ?svs" unfolding snap by (auto simp: rebuildLocked_def split: prod.split)
  have "host \<noteq> []" using assms(2) by (auto simp: ca_lookup_def)
  then obtain i where i: "first_some (owner ?svs (service_patterns ?svs)) (host_keys host) = Some i" "sv = ?svs ! i"
    using assms(2) lookup_reference [of host dn r] snap by auto
  then obtain p where "p \<in> set (host_keys host)" "owner ?svs (service_patterns ?svs) p = Some i" by (blast dest: first_some_SomeD)
  then show ?thesis using owner_SomeD i(2) svs set_host_keys by auto
qed

lemma ca_lookup_complete:
  assumes "reg_inv V dn r" and "sv \<in> set (ca_services (rg_snap r))" and "p \<in> set (sv_Domains sv)" and "pattern_matches p host"
    and "host \<noteq> []"
  shows "\<exists>sv'. ca_lookup (rg_snap r) host = Some sv'"
proof -
  let ?svs = "fst (all_services dn r)"
  have snap: "rg_snap r = rg_snap (rebuildLocked dn r)" using assms(1) by (simp add: reg_inv_def)
  then have "ca_services (rg_snap r) = ?svs" by (auto simp: rebuildLocked_def split: prod.splits)
  then obtain i where "i < length ?svs" "sv = ?svs ! i" using assms(2) by (auto simp: in_set_conv_nth)
  then have "(i, p) \<in> set (service_patterns ?svs)" using assms(3) by (auto simp: service_patterns_def)
  then have "find (\<lambda>(i, q). q = p) (service_patterns ?svs) \<noteq> None" by (auto simp: find_None_iff)
  then have "owner ?svs (service_patterns ?svs) p \<noteq> None" by (auto simp: owner_def split: option.split)
  then obtain y where "owner ?svs (service_patterns ?svs) p = Some y" by blast
  moreover have "p \<in> set (host_keys host)" using assms(4) by (simp add: set_host_keys)
  ultimately obtain z where "first_some (owner ?svs (service_patterns ?svs)) (host_keys host) = Some z"
    using first_some_ex [of p "host_keys host" "owner ?svs (service_patterns ?svs)"] by blast
  then show ?thesis using lookup_reference [OF assms(5), of dn r] snap by simp
qed


definition ex_registry_ops :: "registry_op list" where
  "ex_registry_ops = (let ev = \<lparr>re_validate = \<lambda>_. None, re_nameOK = \<lambda>_. True, re_descOK = \<lambda>_. True, re_EqualFold = (=), re_displayName = id,
       re_commit = True\<rparr> in
     [OpSource ev [\<lparr>ss_ID = ''epic'', ss_Description = [], ss_Notes = [], ss_MixedContent = False, ss_Domains = [''*.epic.test'', ''cdn.epic.test'']\<rparr>],
      OpEnable ev ''epic'' False])"


text \<open>
  C8: the service of a host is that of the most specific pattern that matches it, the host itself first and then the
  wildcards from the longest on; of several services with the pattern the first enabled one has it, else the first.
\<close>

theorem service_lookup_exact:
  assumes "r = fold (registry_step V dn) opers (new_registry dn)" and "s = rg_snap r" and "host \<noteq> []"
  shows "ca_lookup s host = map_option (\<lambda>i. ca_services s ! i)
    (first_some (owner (ca_services s) (service_patterns (ca_services s))) (host_keys host))"
proof -
  have "reg_inv V dn r" unfolding assms(1) by (rule reg.inv_run)
  then have snap: "s = rg_snap (rebuildLocked dn r)" by (simp add: reg_inv_def assms(2))
  then have "ca_services s = fst (all_services dn r)" by (auto simp: rebuildLocked_def split: prod.splits)
  then show ?thesis using lookup_reference [OF assms(3), of dn r] snap by simp
qed

theorem service_lookup_exact_witness:
  "map_option sv_ID (ca_lookup (rg_snap (fold (registry_step (\<lambda>_. None) id) ex_registry_ops (new_registry id))) ''a.epic.test'') = Some ''epic''"
  unfolding service_lookup_exact [OF refl refl list.distinct(2), of "\<lambda>_. None" id ex_registry_ops "CHR ''a''" "''.epic.test''"]
  by code_simp

text \<open>Patterns that pass the check name at least two labels and are no public suffix.\<close>

lemma ValidatePattern_base:
  assumes "ValidatePattern P PS p = None"
  defines "base \<equiv> strings_TrimPrefix (strings_ToLower p) ''*.''"
  shows "2 \<le> length (strings_Split (CHR ''.'') base)" and "fst (PS base) \<noteq> base" and "P base = None" and "length base \<le> 253"
  using assms(1) unfolding base_def
  by (auto simp: ValidatePattern_def Let_def maxHostLen_def split: if_splits option.splits)

lemma retryDelay_bounds: "minRetry \<le> retryDelay n \<and> retryDelay n \<le> maxRetry"
proof -
  have "minRetry \<le> d \<Longrightarrow> minRetry \<le> double_retry k d" for k d
    by (induction k arbitrary: d) (auto simp: minRetry_def Minute_def Second_def)
  then show ?thesis by (simp add: retryDelay_def) (simp add: minRetry_def maxRetry_def Minute_def Hour_def Second_def)
qed

text \<open>A domain file gives distinct patterns that passed the check, whatever it holds.\<close>

lemma domain_lines_ok:
  "fst (domain_lines V ls n out sk) = Inr ps \<Longrightarrow> distinct out \<and> list_all (\<lambda>p. V p = None) out \<Longrightarrow>
   distinct ps \<and> list_all (\<lambda>p. V p = None) ps"
proof (induction ls arbitrary: n out sk)
  case (Cons l ls)
  then show ?case
    by (cases "V (NormalizePattern l)") (auto simp: Let_def split: if_splits)
qed simp

lemma parseDomainFile_ok: "fst (parseDomainFile V b sk) = Inr ps \<Longrightarrow> distinct ps \<and> list_all (\<lambda>p. V p = None) ps"
  using domain_lines_ok [of V "strings_Lines b" 0 "[]" sk ps] by (auto simp: parseDomainFile_def split: if_splits)

end
