(* ===== verification/SniServer.thy ===== *)
theory SniServer
  imports TlsHello CacheServices NetUtil
begin

text \<open>
  The TLS pass-through, \<^verbatim>\<open>internal/dlcache/sni/sni.go\<close>, and the connection set-up of the SSRF-safe dialer it uses
  (\<^verbatim>\<open>SafeDialer.DialContext\<close> of \<^verbatim>\<open>internal/netutil/dialer.go\<close>). One connection is one call of \<open>handle\<close>; what it
  meets outside, the bytes of the client, failing deadlines, the resolver, which addresses accept a connection and
  what they take of the replay, is in the environment. The relay that follows, its log event and the texts of the
  log are not modelled.
\<close>

section \<open>The allowlist as an interface\<close>

text \<open>What the server relies on of its allowlist: a name it admits is covered by the service it returns.\<close>

locale allowlist =
  fixes allowed :: "string \<Rightarrow> string option"
    and covers :: "string \<Rightarrow> string \<Rightarrow> bool"
  assumes allowed_covers: "allowed name = Some service \<Longrightarrow> covers service name"
begin

lemma refused_unless_covered: "\<not> (\<exists>service. covers service name) \<Longrightarrow> allowed name = None"
  using allowed_covers by (cases "allowed name") auto

end

section \<open>Dialing\<close>

datatype conn_error = InvalidPort | NoResolver | ResolveFailed | NoAddresses | Guarded dial_error | NotConnected

text \<open>
  The surroundings of a dial: the IP parser, the resolver (nil is \<open>None\<close>), whether an address accepts the
  connection, directly or through the tunnel, and whether the context has ended after a failed attempt.
\<close>

record dial_env =
  de_ParseAddr :: "string \<Rightarrow> addr option"
  de_Resolve :: "(string \<Rightarrow> addr list option) option"
  de_connect :: "addr \<Rightarrow> bool"
  de_ended :: "addr \<Rightarrow> bool"

fun dial_first :: "dial_env \<Rightarrow> addr list \<Rightarrow> conn_error + addr" where
  "dial_first e [] = Inl NotConnected"
| "dial_first e (ip # ips) =
     (if de_connect e ip then Inr ip
      else if de_ended e ip then Inl NotConnected
      else dial_first e ips)"

text \<open>\<^verbatim>\<open>DialContext\<close> for an address already split into host and port.\<close>

definition DialContext ::
  "('c \<Rightarrow> bool) \<Rightarrow> net_addr list option \<Rightarrow> dial_env \<Rightarrow> 'c SafeDialer \<Rightarrow> 'c \<Rightarrow> string \<Rightarrow> int \<Rightarrow> conn_error + addr" where
  "DialContext pctx ifaddrs e d ctx host port =
     (if port < 1 \<or> port > 65535 then Inl InvalidPort
      else
        let addrs = (case de_ParseAddr e host of
              Some ip \<Rightarrow> Inr [Canon ip]
            | None \<Rightarrow>
                (case de_Resolve e of
                   None \<Rightarrow> Inl NoResolver
                 | Some resolve \<Rightarrow>
                     (case resolve host of
                        None \<Rightarrow> Inl ResolveFailed
                      | Some as \<Rightarrow> if as = [] then Inl NoAddresses else Inr as))) in
        case addrs of
          Inl err \<Rightarrow> Inl err
        | Inr as \<Rightarrow>
            (case Filter pctx ifaddrs d ctx as of
               Inl err \<Rightarrow> Inl (Guarded err)
             | Inr ips \<Rightarrow> dial_first e ips))"

section \<open>One connection\<close>

record sni_stats =
  st_active :: int
  st_total :: int
  st_refused :: int
  st_bytesUp :: int

datatype refusal = ClientNotAllowed | BadHello hello_error | DeadlineFailed | NameNotAllowed

text \<open>
  How a connection ends: refused, not connected, given up while the ClientHello is replayed, or relayed to an
  address after the bytes read from the client were written to it.
\<close>

datatype outcome = Refused refusal | DialFailed conn_error | ReplayFailed | Relayed string string addr bytes

record conn =
  cn_ip :: addr
  cn_stream :: bytes
  cn_deadline :: bool
  cn_undeadline :: bool
  cn_writeDeadline :: bool
  cn_written :: "nat option"

text \<open>
  The collaborators: the ACL (nil is \<open>None\<close>), the allowlist (nil is \<open>None\<close>), the resolver and dialing, the setting
  that allows private upstreams and this machine's addresses.
\<close>

record sni_deps =
  dp_ACL :: "ACL option option"
  dp_allowed :: "(string \<Rightarrow> string option) option"
  dp_dial :: dial_env
  dp_allowPrivate :: bool
  dp_own :: "addr list"

definition readHello :: "(string \<Rightarrow> addr option) \<Rightarrow> conn \<Rightarrow> refusal + bytes \<times> string" where
  "readHello ParseAddr c =
     (if \<not> cn_deadline c then Inl DeadlineFailed
      else case readClientHello (cn_stream c) of
        Inl e \<Rightarrow> Inl (BadHello e)
      | Inr (raw, hello, rest) \<Rightarrow>
          (case serverName ParseAddr hello of
             Inl e \<Rightarrow> Inl (BadHello e)
           | Inr name \<Rightarrow> if cn_undeadline c then Inr (raw, name) else Inl DeadlineFailed))"

definition sni_dialer :: "sni_deps \<Rightarrow> unit SafeDialer" where
  "sni_dialer d = \<lparr>sd_AllowPrivate = Some (\<lambda>_. dp_allowPrivate d), sd_OwnAddrs = Some (dp_own d)\<rparr>"

definition dialUpstream :: "sni_deps \<Rightarrow> string \<Rightarrow> conn_error + addr" where
  "dialUpstream d host =
     (if de_Resolve (dp_dial d) = None then Inl NoResolver
      else DialContext (\<lambda>_. False) None (dp_dial d) (sni_dialer d) () host 443)"

definition refuse :: "sni_stats \<Rightarrow> sni_stats" where
  "refuse s = s\<lparr>st_refused := st_refused s + 1\<rparr>"

text \<open>The connection counts as active until \<open>handle\<close> returns, so the counter is back where it was.\<close>

definition handle :: "sni_deps \<Rightarrow> conn \<Rightarrow> sni_stats \<Rightarrow> outcome \<times> sni_stats" where
  "handle d c s0 =
     (let s = s0\<lparr>st_total := st_total s0 + 1\<rparr> in
      if (case dp_ACL d of Some acl \<Rightarrow> \<not> Allowed acl (cn_ip c) | None \<Rightarrow> False) then (Refused ClientNotAllowed, refuse s)
      else case readHello (de_ParseAddr (dp_dial d)) c of
        Inl e \<Rightarrow> (Refused e, refuse s)
      | Inr (raw, name) \<Rightarrow>
          (case (case dp_allowed d of Some f \<Rightarrow> f name | None \<Rightarrow> None) of
             None \<Rightarrow> (Refused NameNotAllowed, refuse s)
           | Some service \<Rightarrow>
               (case dialUpstream d name of
                  Inl err \<Rightarrow> (DialFailed err, if err = Guarded ErrForbiddenDestination then refuse s else s)
                | Inr up \<Rightarrow>
                    if \<not> cn_writeDeadline c then (ReplayFailed, s)
                    else (case cn_written c of
                        Some n \<Rightarrow> (ReplayFailed, s\<lparr>st_bytesUp := st_bytesUp s + int n\<rparr>)
                      | None \<Rightarrow> (Relayed service name up raw, s\<lparr>st_bytesUp := st_bytesUp s + int (length raw)\<rparr>)))))"

section \<open>What is relayed\<close>

lemma dial_first_mem: "dial_first e ips = Inr up \<Longrightarrow> up \<in> set ips"
  by (induction ips) (auto split: if_splits)

text \<open>An address the dialer connects to: neither it nor the IPv4 address it carries is forbidden.\<close>

definition safe_upstream :: "sni_deps \<Rightarrow> addr \<Rightarrow> bool" where
  "safe_upstream d up \<longleftrightarrow> (\<forall>a. a = up \<or> EmbeddedIPv4 up = Some a \<longrightarrow>
     a \<noteq> NoAddr \<and> \<not> IsUnspecified a \<and> \<not> IsLoopback a \<and> a \<notin> set (dp_own d) \<and> \<not> inAny a alwaysForbidden \<and>
     (\<not> dp_allowPrivate d \<longrightarrow> IsPublicUnicast a \<and> \<not> IsPrivateLAN a))"

lemma dialUpstream_safe: "dialUpstream d host = Inr up \<Longrightarrow> safe_upstream d up"
proof -
  assume "dialUpstream d host = Inr up"
  then obtain as ips where "Filter (\<lambda>_. False) None (sni_dialer d) () as = Inr ips" "dial_first (dp_dial d) ips = Inr up"
    by (auto simp: dialUpstream_def DialContext_def Let_def split: if_splits option.splits sum.splits)
  then show ?thesis
    using Filter_guard [of "\<lambda>_. False" None "sni_dialer d" "()" as ips up "dp_own d"] dial_first_mem
    by (simp add: safe_upstream_def sni_dialer_def sd_allowPrivate_def)
qed

lemma readHello_ok:
  assumes "readHello P c = Inr (raw, name)"
  shows "server_name P name \<and> length raw \<le> recordHeaderLen * maxHelloRecords + maxHelloLen + maxRecordLen
    \<and> (\<exists>hello rest. cn_stream c = raw @ rest \<and> handshake_ok hello \<and> serverName P hello = Inr name)"
proof -
  obtain hello rest where h: "readClientHello (cn_stream c) = Inr (raw, hello, rest)" "serverName P hello = Inr name"
    using assms by (auto simp: readHello_def split: if_splits sum.splits)
  have "0 < maxHelloLen" by (simp add: hello_consts)
  then obtain cs where "raw = cs" "cn_stream c = cs @ rest" "handshake_ok hello"
      "length cs \<le> recordHeaderLen * maxHelloRecords + maxHelloLen + maxRecordLen"
    using read_records_sound [OF h(1) [unfolded readClientHello_def]] by auto
  then show ?thesis using h(2) serverName_ok by blast
qed

lemma handle_Relayed:
  assumes "handle d c s = (Relayed service name up raw, s')"
  shows "(\<forall>acl. dp_ACL d = Some acl \<longrightarrow> Allowed acl (cn_ip c))" and "readHello (de_ParseAddr (dp_dial d)) c = Inr (raw, name)"
    and "\<exists>f. dp_allowed d = Some f \<and> f name = Some service" and "dialUpstream d name = Inr up"
    and "st_bytesUp s' = st_bytesUp s + int (length raw)"
  using assms by (auto simp: handle_def Let_def split: if_splits option.splits sum.splits)

context allowlist
begin

lemma relayed_covered:
  "handle d c s = (Relayed service name up raw, s') \<Longrightarrow> dp_allowed d = Some allowed \<Longrightarrow> covers service name"
  using handle_Relayed(3) [of d c s] allowed_covers by fastforce

end

text \<open>The registry provides the interface: an admitted name matches a host pattern of the service.\<close>

definition listed :: "registry \<Rightarrow> (string \<Rightarrow> pattern_error option) \<Rightarrow> string \<Rightarrow> string \<Rightarrow> bool" where
  "listed r V service name \<longleftrightarrow> (\<exists>sv \<in> set (ca_services (rg_snap r)). sv_ID sv = service \<and>
     (\<exists>p \<in> set (sv_Domains sv). pattern_matches p (normalizeHost name) \<and> (V p = None \<or> p = SteamTrigger)))"

lemma SNIAllowed_listed: "reg_inv V dn r \<Longrightarrow> SNIAllowed r name = Some service \<Longrightarrow> listed r V service name"
  using ca_lookup_sound [of V dn r] catalogue_facts [of V dn r] unfolding SNIAllowed_def listed_def by fastforce

interpretation reglist: allowlist "SNIAllowed (fold (registry_step V dn) opers (new_registry dn))"
    "listed (fold (registry_step V dn) opers (new_registry dn)) V" for V dn opers
  by unfold_locales (rule SNIAllowed_listed [OF reg.inv_run])

text \<open>
  C3: the TLS pass-through is no open relay. Whatever was done to the registry of services, a connection is relayed
  only when the ACL admits the client, the server name in its ClientHello is a proper host name that matches a
  checked host pattern of a download service, and the address connected to is neither this machine nor a forbidden
  one, nor carries one, nor is private unless that is allowed; what is replayed is exactly what was read from the
  client, at most 33088 bytes, and it is counted.
\<close>

theorem sni_no_open_relay:
  assumes "handle d c s = (Relayed service name up raw, s')"
    and "r = fold (registry_step V dn) opers (new_registry dn)" and "dp_allowed d = Some (SNIAllowed r)"
  shows "(\<forall>acl. dp_ACL d = Some acl \<longrightarrow> Allowed acl (cn_ip c))
    \<and> server_name (de_ParseAddr (dp_dial d)) name \<and> listed r V service name \<and> safe_upstream d up
    \<and> (\<exists>hello rest. cn_stream c = raw @ rest \<and> handshake_ok hello \<and> serverName (de_ParseAddr (dp_dial d)) hello = Inr name)
    \<and> length raw \<le> 33088 \<and> st_bytesUp s' = st_bytesUp s + int (length raw)"
  using handle_Relayed [OF assms(1)] readHello_ok dialUpstream_safe reglist.relayed_covered [OF assms(1), of V dn opers] assms(2,3)
  by (fastforce simp: hello_consts)

text \<open>An example: one client, one service and one public address.\<close>

definition ex_registry :: registry where
  "ex_registry = fold (registry_step (\<lambda>_. None) id) ex_registry_ops (new_registry id)"

definition ex_deps :: sni_deps where
  "ex_deps = \<lparr>dp_ACL = None, dp_allowed = Some (SNIAllowed ex_registry),
     dp_dial = \<lparr>de_ParseAddr = \<lambda>_. None, de_Resolve = Some (\<lambda>_. Some [V4 0x08080808]), de_connect = \<lambda>_. True, de_ended = \<lambda>_. False\<rparr>,
     dp_allowPrivate = False, dp_own = []\<rparr>"

definition ex_conn :: conn where
  "ex_conn = \<lparr>cn_ip = V4 0xC0A80105, cn_stream = tls_record (1, enc_hello ex_hello), cn_deadline = True, cn_undeadline = True,
     cn_writeDeadline = True, cn_written = None\<rparr>"

lemma ex_readHello: "readHello (\<lambda>_. None) ex_conn = Inr (tls_record (1, enc_hello ex_hello), ''cdn.epic.test'')"
proof -
  have "readClientHello (tls_record (1, enc_hello ex_hello)) = Inr (tls_record (1, enc_hello ex_hello), enc_hello ex_hello, [])"
    using read_records_concat [OF enc_hello_handshake [OF ex_hello_facts(3)], of "[(1, enc_hello ex_hello)]" 0 "[]" "[]" "[]" "[]"] ex_hello_facts(1,2)
    by (simp add: record_ok_def hello_consts readClientHello_def)
  moreover have "serverName (\<lambda>_. None) (enc_hello ex_hello) = Inr ''cdn.epic.test''"
    using serverName_enc [OF ex_hello_facts(3), of "[(10, [0, 0])]" "[]" "map char_byte ''Cdn.Epic.Test''" "[]" "[]" "\<lambda>_. None"] ex_hello_facts(4,5)
    by (simp add: comp_def)
  ultimately show ?thesis by (simp add: readHello_def ex_conn_def)
qed

theorem sni_no_open_relay_witness:
  "handle ex_deps ex_conn \<lparr>st_active = 0, st_total = 0, st_refused = 0, st_bytesUp = 0\<rparr> =
     (Relayed ''epic'' ''cdn.epic.test'' (V4 0x08080808) (tls_record (1, enc_hello ex_hello)), \<lparr>st_active = 0, st_total = 1, st_refused = 0, st_bytesUp = 80\<rparr>)
   \<and> listed ex_registry (\<lambda>_. None) ''epic'' ''cdn.epic.test'' \<and> safe_upstream ex_deps (V4 0x08080808)"
proof -
  have sel: "dp_ACL ex_deps = None" "dp_allowed ex_deps = Some (SNIAllowed ex_registry)" "de_ParseAddr (dp_dial ex_deps) = (\<lambda>_. None)"
      "cn_writeDeadline ex_conn" "cn_written ex_conn = None"
    by (simp_all add: ex_deps_def ex_conn_def)
  have allowed: "SNIAllowed ex_registry ''cdn.epic.test'' = Some ''epic''" by code_simp
  have dial: "dialUpstream ex_deps ''cdn.epic.test'' = Inr (V4 0x08080808)" by code_simp
  have len: "length (tls_record (1, enc_hello ex_hello)) = 80" by (simp add: tls_record_def ex_hello_facts(1))
  have run: "handle ex_deps ex_conn \<lparr>st_active = 0, st_total = 0, st_refused = 0, st_bytesUp = 0\<rparr> =
      (Relayed ''epic'' ''cdn.epic.test'' (V4 0x08080808) (tls_record (1, enc_hello ex_hello)), \<lparr>st_active = 0, st_total = 1, st_refused = 0, st_bytesUp = 80\<rparr>)"
    by (simp add: handle_def Let_def sel ex_readHello allowed dial len)
  from sni_no_open_relay [OF this ex_registry_def sel(2)] run show ?thesis by blast
qed

end
