(* ===== verification/FillSlots.thy ===== *)
theory FillSlots
  imports NetAddr "HOL-Library.Finite_Map"
begin

text \<open>
  Admission of cache fills, \<^verbatim>\<open>internal/dlcache/proxy/slots.go\<close>: the limits derived from the settings, the counting
  semaphore with a global and a per-client limit, its waiters, and the free list of fill buffers. The mutex makes
  every operation atomic. A channel is a number, \<open>fs_closed\<close> the set of closed ones; a buffer is the number of its
  bytes, of which Go keeps length and capacity equal here.
\<close>

definition fillMemory :: int where "fillMemory = 2 ^ 30"
definition maxFreeBufferBytes :: int where "maxFreeBufferBytes = 64 * 2 ^ 20"

record fillLimits =
  fl_global :: int
  fl_perClient :: int

text \<open>\<^verbatim>\<open>fillLimits\<close> of the settings \<^verbatim>\<open>MaxConcurrentFills\<close> and \<^verbatim>\<open>MaxFillsPerClient\<close>; slice sizes are not negative.\<close>

definition fill_limits :: "int \<Rightarrow> int \<Rightarrow> int \<Rightarrow> fillLimits" where
  "fill_limits maxFills maxPerClient sliceSize =
     (let g0 = max 1 maxFills; byMem = fillMemory div max 1 sliceSize;
          g = (if byMem < g0 then max 1 byMem else g0) in
      \<lparr>fl_global = g, fl_perClient = min g (max 1 maxPerClient)\<rparr>)"

record fillSlots =
  fs_used :: int
  fs_perClient :: "(pfx, int) fmap"
  fs_wake :: "nat option"
  fs_next :: nat
  fs_closed :: "nat set"

definition new_slots :: fillSlots where
  "new_slots = \<lparr>fs_used = 0, fs_perClient = fmempty, fs_wake = None, fs_next = 0, fs_closed = {}\<rparr>"

definition slots_of :: "(pfx, int) fmap \<Rightarrow> pfx \<Rightarrow> int" where
  "slots_of m k = (case fmlookup m k of None \<Rightarrow> 0 | Some n \<Rightarrow> n)"

definition client_slots :: "fillSlots \<Rightarrow> pfx \<Rightarrow> int" where
  "client_slots fs k = slots_of (fs_perClient fs) k"

definition takeLocked :: "pfx \<Rightarrow> fillLimits \<Rightarrow> fillSlots \<Rightarrow> bool \<times> fillSlots" where
  "takeLocked k l fs =
     (if fs_used fs \<ge> fl_global l \<or> client_slots fs k \<ge> fl_perClient l then (False, fs)
      else (True, fs\<lparr>fs_used := fs_used fs + 1, fs_perClient := fmupd k (client_slots fs k + 1) (fs_perClient fs)\<rparr>))"

definition tryAcquire :: "pfx \<Rightarrow> fillLimits \<Rightarrow> fillSlots \<Rightarrow> bool \<times> fillSlots" where
  "tryAcquire k l fs = takeLocked k l fs"

text \<open>One round of the loop of \<^verbatim>\<open>acquire\<close>: a slot, or the channel to wait on until it is closed.\<close>

datatype attempt = Acquired | WaitOn nat

definition wait_round :: "pfx \<Rightarrow> fillLimits \<Rightarrow> fillSlots \<Rightarrow> attempt \<times> fillSlots" where
  "wait_round k l fs =
     (case takeLocked k l fs of
        (True, fs') \<Rightarrow> (Acquired, fs')
      | (False, fs') \<Rightarrow>
          (case fs_wake fs' of
             Some ch \<Rightarrow> (WaitOn ch, fs')
           | None \<Rightarrow> (WaitOn (fs_next fs'), fs'\<lparr>fs_wake := Some (fs_next fs'), fs_next := fs_next fs' + 1\<rparr>)))"

definition release_slot :: "pfx \<Rightarrow> fillSlots \<Rightarrow> fillSlots" where
  "release_slot k fs =
     (let n = client_slots fs k - 1;
          fs1 = fs\<lparr>fs_used := fs_used fs - 1,
            fs_perClient := (if n > 0 then fmupd k n (fs_perClient fs) else fmdrop k (fs_perClient fs))\<rparr> in
      case fs_wake fs1 of
        Some ch \<Rightarrow> fs1\<lparr>fs_closed := insert ch (fs_closed fs1), fs_wake := None\<rparr>
      | None \<Rightarrow> fs1)"

section \<open>Free buffers\<close>

record bufPool =
  bp_size :: int
  bp_free :: "int list"

definition bp_get :: "int \<Rightarrow> bufPool \<Rightarrow> int \<times> bufPool" where
  "bp_get n p0 =
     (let p = (if bp_size p0 \<noteq> n then \<lparr>bp_size = n, bp_free = []\<rparr> else p0) in
      if bp_free p \<noteq> [] then (last (bp_free p), p\<lparr>bp_free := butlast (bp_free p)\<rparr>) else (n, p))"

definition bp_put :: "int \<Rightarrow> bufPool \<Rightarrow> bufPool" where
  "bp_put b p =
     (if b \<noteq> bp_size p then p
      else if (int (length (bp_free p)) + 1) * b \<le> maxFreeBufferBytes then p\<lparr>bp_free := bp_free p @ [b]\<rparr>
      else p)"

section \<open>Slots are counted right\<close>

text \<open>
  The users of the semaphore: a slot is released by who holds one, and the holders are known. Limits may differ from
  call to call, as the settings and the store change.
\<close>

datatype slot_op = Try pfx fillLimits | Wait pfx fillLimits | Release pfx

definition slot_step :: "slot_op \<Rightarrow> fillSlots \<times> pfx list \<Rightarrow> fillSlots \<times> pfx list" where
  "slot_step oper = (\<lambda>(fs, holders).
     case oper of
       Try k l \<Rightarrow> (let (ok, fs') = tryAcquire k l fs in (fs', if ok then k # holders else holders))
     | Wait k l \<Rightarrow> (let (a, fs') = wait_round k l fs in (fs', if a = Acquired then k # holders else holders))
     | Release k \<Rightarrow> if k \<in> set holders then (release_slot k fs, remove1 k holders) else (fs, holders))"

definition slots_inv :: "fillSlots \<times> pfx list \<Rightarrow> bool" where
  "slots_inv = (\<lambda>(fs, holders). fs_used fs = int (length holders)
     \<and> (\<forall>k. client_slots fs k = int (count_list holders k))
     \<and> (\<forall>k n. fmlookup (fs_perClient fs) k = Some n \<longrightarrow> 0 < n)
     \<and> (\<forall>ch. fs_wake fs = Some ch \<longrightarrow> ch \<notin> fs_closed fs \<and> ch < fs_next fs) \<and> (\<forall>ch \<in> fs_closed fs. ch < fs_next fs))"

lemma slots_of_simps [simp]:
  "slots_of fmempty j = 0" "slots_of (fmupd k n m) j = (if j = k then n else slots_of m j)"
  "slots_of (fmdrop k m) j = (if j = k then 0 else slots_of m j)"
  by (simp_all add: slots_of_def)

lemma count_remove1: "count_list (remove1 x xs) y = (if x = y then count_list xs y - 1 else count_list xs y)"
proof (induction xs)
  case (Cons z xs)
  then show ?case by (cases "x = z"; cases "y = z") (auto simp: count_list_0_iff)
qed simp

lemma count_pos: "x \<in> set xs \<Longrightarrow> 0 < count_list xs x"
  by (induction xs) auto

lemma takeLocked_frame:
  "takeLocked k l fs = (ok, fs') \<Longrightarrow> fs_wake fs' = fs_wake fs \<and> fs_next fs' = fs_next fs \<and> fs_closed fs' = fs_closed fs"
  by (auto simp: takeLocked_def split: if_splits)

lemma takeLocked_inv:
  "slots_inv (fs, holders) \<Longrightarrow> takeLocked k l fs = (ok, fs') \<Longrightarrow> slots_inv (fs', if ok then k # holders else holders)"
  by (auto simp: takeLocked_def slots_inv_def client_slots_def split: if_splits)

lemma wait_round_inv:
  assumes "slots_inv (fs, holders)" and "wait_round k l fs = (a, fs')"
  shows "slots_inv (fs', if a = Acquired then k # holders else holders)"
proof (cases "takeLocked k l fs")
  case (Pair ok fs1)
  show ?thesis
    using assms(2) Pair takeLocked_inv [OF assms(1) Pair]
    by (auto simp: wait_round_def slots_inv_def client_slots_def less_Suc_eq split: bool.splits option.splits)
qed

lemma release_inv:
  assumes "slots_inv (fs, holders)" and "k \<in> set holders"
  shows "slots_inv (release_slot k fs, remove1 k holders)"
proof -
  have "int (length holders) - 1 = int (length (remove1 k holders))"
    using assms(2) length_pos_if_in_set [OF assms(2)] unfolding length_remove1 by (simp add: of_nat_diff Suc_le_eq del: length_greater_0_conv)
  then show ?thesis
    using assms(1) count_pos [OF assms(2)]
    by (auto simp: slots_inv_def release_slot_def Let_def client_slots_def count_remove1 split: option.splits)
qed

lemma slot_step_inv:
  assumes "slots_inv s"
  shows "slots_inv (slot_step oper s)"
proof -
  obtain fs holders where s: "s = (fs, holders)" by (cases s)
  show ?thesis
  proof (cases oper)
    case (Try k l)
    then show ?thesis using takeLocked_inv [of fs holders k l] assms by (auto simp: s slot_step_def tryAcquire_def split: prod.split)
  next
    case (Wait k l)
    then show ?thesis using wait_round_inv [of fs holders k l] assms by (auto simp: s slot_step_def split: prod.split)
  next
    case (Release k)
    then show ?thesis using release_inv assms by (simp add: s slot_step_def)
  qed
qed

interpretation slots: invariant_machine "(new_slots, [])" slot_step slots_inv
  by unfold_locales (simp_all add: slot_step_inv, simp add: slots_inv_def new_slots_def client_slots_def)

text \<open>
  C16: slots are counted right whatever the callers do and however the limits change in between: the counts are the
  slots held, in total and per client, no entry is kept for a client without slots, and a slot is granted only below
  both limits of the call.
\<close>

theorem fill_slots_counted:
  assumes "(fs, holders) = fold slot_step opers (new_slots, [])"
  shows "fs_used fs = int (length holders) \<and> client_slots fs k = int (count_list holders k)
    \<and> (k |\<in>| fmdom (fs_perClient fs) \<longleftrightarrow> k \<in> set holders)
    \<and> (fst (tryAcquire k l fs) \<longleftrightarrow> int (length holders) < fl_global l \<and> int (count_list holders k) < fl_perClient l)"
proof -
  have inv: "slots_inv (fs, holders)" unfolding assms by (rule slots.inv_run)
  have "k |\<in>| fmdom (fs_perClient fs) \<longleftrightarrow> client_slots fs k \<noteq> 0"
    using inv by (cases "fmlookup (fs_perClient fs) k") (auto simp: client_slots_def slots_of_def slots_inv_def fmlookup_dom_iff)
  then show ?thesis
    using inv by (auto simp: slots_inv_def tryAcquire_def takeLocked_def count_list_0_iff)
qed

theorem fill_slots_counted_witness:
  "fst (tryAcquire (Pfx (V4 1) 32) \<lparr>fl_global = 2, fl_perClient = 1\<rparr>
     (fst (fold slot_step [Try (Pfx (V4 1) 32) \<lparr>fl_global = 2, fl_perClient = 1\<rparr>] (new_slots, [])))) = False"
proof -
  have "(fst (fold slot_step [Try (Pfx (V4 1) 32) \<lparr>fl_global = 2, fl_perClient = 1\<rparr>] (new_slots, [])), [Pfx (V4 1) 32]) =
      fold slot_step [Try (Pfx (V4 1) 32) \<lparr>fl_global = 2, fl_perClient = 1\<rparr>] (new_slots, [])"
    by (simp add: slot_step_def tryAcquire_def takeLocked_def new_slots_def client_slots_def)
  from fill_slots_counted [OF this, of "Pfx (V4 1) 32" "\<lparr>fl_global = 2, fl_perClient = 1\<rparr>"] show ?thesis by simp
qed

section \<open>No wake-up is lost\<close>

text \<open>While a channel is open nothing was released since a waiter got it, so counts have only grown.\<close>

definition still_waiting :: "nat \<Rightarrow> fillSlots \<Rightarrow> fillSlots \<Rightarrow> bool" where
  "still_waiting ch fs fs' \<longleftrightarrow> fs_wake fs' = Some ch \<and> fs_used fs \<le> fs_used fs' \<and> (\<forall>k. client_slots fs k \<le> client_slots fs' k)"

lemma takeLocked_grows:
  "takeLocked k l fs = (ok, fs') \<Longrightarrow> fs_used fs \<le> fs_used fs' \<and> (\<forall>j. client_slots fs j \<le> client_slots fs' j)"
  by (auto simp: takeLocked_def client_slots_def split: if_splits)

lemma still_waiting_step:
  assumes "still_waiting ch fs (fst s)" and "ch \<notin> fs_closed (fst (slot_step oper s))"
  shows "still_waiting ch fs (fst (slot_step oper s))"
proof -
  obtain fs1 holders where s: "s = (fs1, holders)" by (cases s)
  have w: "fs_wake fs1 = Some ch" using assms(1) by (simp add: s still_waiting_def)
  have take: "still_waiting ch fs (snd (takeLocked k l fs1))" for k l
  proof (cases "takeLocked k l fs1")
    case (Pair ok fs2)
    have "fs_used fs \<le> fs_used fs1" "client_slots fs j \<le> client_slots fs1 j" for j
      using assms(1) by (simp_all add: s still_waiting_def)
    with Pair w takeLocked_frame [OF Pair] takeLocked_grows [OF Pair] show ?thesis
      unfolding still_waiting_def by (metis order_trans snd_conv)
  qed
  have round: "snd (wait_round k l fs1) = snd (takeLocked k l fs1)" for k l
  proof (cases "takeLocked k l fs1")
    case (Pair ok fs2)
    then show ?thesis using w takeLocked_frame [OF Pair] by (simp add: wait_round_def split: bool.split)
  qed
  show ?thesis
  proof (cases oper)
    case (Try k l)
    then show ?thesis using take [of k l] by (auto simp: s slot_step_def tryAcquire_def split: prod.splits)
  next
    case (Wait k l)
    then show ?thesis using take [of k l] round [of k l] by (auto simp: s slot_step_def split: prod.splits)
  next
    case (Release k)
    then show ?thesis using assms w by (auto simp: s slot_step_def release_slot_def Let_def split: if_splits)
  qed
qed

lemma closed_mono: "fs_closed (fst s) \<subseteq> fs_closed (fst (slot_step oper s))"
  by (cases s; cases oper)
    (auto simp: slot_step_def tryAcquire_def wait_round_def release_slot_def Let_def dest: takeLocked_frame split: prod.splits bool.splits option.splits)

lemma closed_mono_fold: "fs_closed (fst s) \<subseteq> fs_closed (fst (fold slot_step opers s))"
proof (induction opers arbitrary: s)
  case (Cons oper opers)
  then show ?case using order_trans [OF closed_mono [of s oper] Cons.IH [of "slot_step oper s"]] by simp
qed simp

lemma still_waiting_fold:
  "still_waiting ch fs (fst s) \<Longrightarrow> ch \<notin> fs_closed (fst (fold slot_step opers s)) \<Longrightarrow> still_waiting ch fs (fst (fold slot_step opers s))"
proof (induction opers arbitrary: s)
  case (Cons oper opers)
  then have "ch \<notin> fs_closed (fst (slot_step oper s))" using closed_mono_fold [of "slot_step oper s" opers] by auto
  then show ?case using Cons still_waiting_step [of ch fs s oper] by simp
qed simp

text \<open>
  C15: no wake-up is lost. When \<^verbatim>\<open>acquire\<close> waits on a channel and other callers go on, then as long as the channel is
  open a new attempt of the waiter would fail too, so sleeping is right; and once a slot is released the channel is
  closed.
\<close>

theorem no_lost_wakeup:
  assumes "wait_round k l fs = (WaitOn ch, fs')" and "s = fold slot_step opers (fs', holders)"
  shows "(ch \<notin> fs_closed (fst s) \<longrightarrow> \<not> fst (takeLocked k l (fst s)))
    \<and> (j \<in> set (snd s) \<longrightarrow> ch \<in> fs_closed (fst (slot_step (Release j) s)))"
proof -
  have now: "fs_wake fs' = Some ch" and full: "fs_used fs' \<ge> fl_global l \<or> client_slots fs' k \<ge> fl_perClient l"
    using assms(1) by (auto simp: wait_round_def takeLocked_def client_slots_def split: prod.splits bool.splits option.splits if_splits)
  then have open_now: "still_waiting ch fs' fs'" by (simp add: still_waiting_def)
  have kept: "still_waiting ch fs' (fst s)" if "ch \<notin> fs_closed (fst s)"
    using still_waiting_fold [of ch fs' "(fs', holders)" opers] open_now that assms(2) by simp
  have "ch \<in> fs_closed (fst (slot_step (Release j) s))" if "j \<in> set (snd s)"
  proof (cases "ch \<in> fs_closed (fst s)")
    case True
    then show ?thesis using closed_mono by blast
  next
    case False
    then show ?thesis using kept that by (cases s) (simp add: still_waiting_def slot_step_def release_slot_def Let_def)
  qed
  moreover have "\<not> fst (takeLocked k l (fst s))" if "ch \<notin> fs_closed (fst s)"
  proof -
    have "fs_used fs' \<le> fs_used (fst s)" "client_slots fs' k \<le> client_slots (fst s) k"
      using kept [OF that] by (simp_all add: still_waiting_def)
    with full have "fl_global l \<le> fs_used (fst s) \<or> fl_perClient l \<le> client_slots (fst s) k" by linarith
    then show ?thesis by (simp add: takeLocked_def)
  qed
  ultimately show ?thesis by blast
qed

definition ex_fill_client :: pfx where "ex_fill_client = Pfx (V4 1) 32"
definition ex_limits :: fillLimits where "ex_limits = \<lparr>fl_global = 2, fl_perClient = 1\<rparr>"

theorem no_lost_wakeup_witness:
  "wait_round ex_fill_client ex_limits (snd (takeLocked ex_fill_client ex_limits new_slots)) =
     (WaitOn 0, \<lparr>fs_used = 1, fs_perClient = fmupd ex_fill_client 1 fmempty, fs_wake = Some 0, fs_next = 1, fs_closed = {}\<rparr>)
   \<and> 0 \<in> fs_closed (fst (slot_step (Release ex_fill_client)
       (\<lparr>fs_used = 1, fs_perClient = fmupd ex_fill_client 1 fmempty, fs_wake = Some 0, fs_next = 1, fs_closed = {}\<rparr>, [ex_fill_client])))"
proof
  show run: "wait_round ex_fill_client ex_limits (snd (takeLocked ex_fill_client ex_limits new_slots)) =
     (WaitOn 0, \<lparr>fs_used = 1, fs_perClient = fmupd ex_fill_client 1 fmempty, fs_wake = Some 0, fs_next = 1, fs_closed = {}\<rparr>)"
    by (simp add: wait_round_def takeLocked_def new_slots_def client_slots_def ex_limits_def)
  show "0 \<in> fs_closed (fst (slot_step (Release ex_fill_client)
       (\<lparr>fs_used = 1, fs_perClient = fmupd ex_fill_client 1 fmempty, fs_wake = Some 0, fs_next = 1, fs_closed = {}\<rparr>, [ex_fill_client])))"
    using no_lost_wakeup [OF run, of _ "[]" "[ex_fill_client]" ex_fill_client] by simp
qed

section \<open>The free list is bounded\<close>

definition pool_inv :: "bufPool \<Rightarrow> bool" where
  "pool_inv p \<longleftrightarrow> list_all (\<lambda>b. b = bp_size p) (bp_free p) \<and> int (length (bp_free p)) * bp_size p \<le> maxFreeBufferBytes"

lemma bp_get_ok:
  "pool_inv p \<Longrightarrow> 0 \<le> n \<Longrightarrow> bp_get n p = (b, p') \<Longrightarrow> b = n \<and> bp_size p' = n \<and> pool_inv p'"
proof -
  assume inv: "pool_inv p" and n: "0 \<le> n" and get: "bp_get n p = (b, p')"
  have "pool_inv \<lparr>bp_size = n, bp_free = []\<rparr>" by (simp add: pool_inv_def maxFreeBufferBytes_def)
  then obtain q where q: "pool_inv q" "bp_size q = n"
    "(b, p') = (if bp_free q \<noteq> [] then (last (bp_free q), q\<lparr>bp_free := butlast (bp_free q)\<rparr>) else (n, q))"
    using inv get by (auto simp: bp_get_def Let_def split: if_splits)
  have "int (length (butlast (bp_free q))) * n \<le> int (length (bp_free q)) * n" using n by (intro mult_right_mono) auto
  then show "b = n \<and> bp_size p' = n \<and> pool_inv p'"
    using q by (auto simp: pool_inv_def list_all_iff dest: in_set_butlastD split: if_splits)
qed

lemma bp_put_ok: "pool_inv p \<Longrightarrow> pool_inv (bp_put b p)"
  by (auto simp: bp_put_def pool_inv_def algebra_simps)

text \<open>At least one fill may run, and the fill buffers stay within the memory bound unless a single slice exceeds it.\<close>

lemma fill_limits_bounds:
  assumes "0 < sliceSize" and "l = fill_limits m c sliceSize"
  shows "1 \<le> fl_perClient l \<and> fl_perClient l \<le> fl_global l \<and> (fl_global l = 1 \<or> fl_global l * sliceSize \<le> fillMemory)"
proof -
  have "x * sliceSize \<le> fillMemory" if "x \<le> fillMemory div sliceSize" for x
  proof -
    have "x * sliceSize \<le> fillMemory div sliceSize * sliceSize" using that assms(1) by (simp add: mult_right_mono)
    also have "\<dots> \<le> fillMemory" using assms(1) by (metis minus_mod_eq_div_mult diff_le_eq le_add_same_cancel1 pos_mod_sign)
    finally show ?thesis .
  qed
  then show ?thesis using assms by (auto simp: fill_limits_def Let_def max_def min_def)
qed

end
