(* ===== verification/Parental.thy ===== *)
theory Parental
  imports GoStrings Decimals "HOL-Library.List_Lexorder"
begin

text \<open>
  Parental controls, \<^verbatim>\<open>internal/dns/parental\<close> (\<^verbatim>\<open>eval.go\<close>, \<^verbatim>\<open>services.go\<close>, \<^verbatim>\<open>safesearch.go\<close> and the sanitising of
  \<^verbatim>\<open>store.go\<close>) and \<^verbatim>\<open>ParseClock\<close> of \<^verbatim>\<open>internal/settings/validate.go\<close>. The built-in catalogue of services is an
  argument, nothing depends on its entries. A \<^verbatim>\<open>*time.Location\<close> is a record of what the code asks of it: the offset
  from UTC at an instant, \<^verbatim>\<open>time.Date\<close> for a local date and minute, and the start of the zone period an instant is
  in. A local date is the number of its day since 1970-01-01, as \<^verbatim>\<open>time.Date\<close> normalises it.
\<close>

section \<open>The catalogue\<close>

record AppService =
  as_ID :: string
  as_Name :: string
  as_Domains :: "string list"

definition pc_maxLabels :: nat where "pc_maxLabels = 127"

definition serviceIndex :: "AppService list \<Rightarrow> string \<Rightarrow> nat option" where
  "serviceIndex cat i = map_of (rev (map (\<lambda>(k, s). (as_ID s, k)) (enumerate 0 cat))) i"

definition serviceDomains :: "AppService list \<Rightarrow> string \<Rightarrow> nat option" where
  "serviceDomains cat d = map_of (rev (concat (map (\<lambda>(k, s). map (\<lambda>x. (x, k)) (as_Domains s)) (enumerate 0 cat)))) d"

fun service_walk :: "AppService list \<Rightarrow> nat \<Rightarrow> string \<Rightarrow> nat option" where
  "service_walk cat 0 q = None"
| "service_walk cat (Suc n) q =
     (if q = [] then None
      else case serviceDomains cat q of
        Some k \<Rightarrow> Some k
      | None \<Rightarrow>
          (case strings_CutByte q (CHR ''.'') of
             None \<Rightarrow> None
           | Some (_, rest) \<Rightarrow> service_walk cat n rest))"

definition serviceOf :: "AppService list \<Rightarrow> string \<Rightarrow> nat option" where
  "serviceOf cat qname = service_walk cat pc_maxLabels qname"

definition serviceSet :: "AppService list \<Rightarrow> string list \<Rightarrow> bool list" where
  "serviceSet cat ids =
     fold (\<lambda>i st. case serviceIndex cat i of
         Some k \<Rightarrow> (if st = [] then replicate (length cat) False else st)[k := True]
       | None \<Rightarrow> st) ids []"

section \<open>Stored configuration\<close>

definition maxSchedules :: nat where "maxSchedules = 10"
definition maxServices :: nat where "maxServices = 256"
definition maxOverride :: duration where "maxOverride = 7 * 24 * Hour"
definition maxOverrideMin :: int where "maxOverrideMin = maxOverride div Minute"

definition BlockAll :: string where "BlockAll = ''all''"
definition BlockServices :: string where "BlockServices = ''services''"
definition OverrideBlock :: string where "OverrideBlock = ''block''"
definition OverrideAllow :: string where "OverrideAllow = ''allow''"

record Schedule =
  sc_ID :: string
  sc_Name :: string
  sc_Enabled :: bool
  sc_Days :: "int list"
  sc_Start :: string
  sc_End :: string
  sc_Block :: string
  sc_Services :: "string list"

definition YouTubeOff :: string where "YouTubeOff = ''off''"
definition YouTubeModerate :: string where "YouTubeModerate = ''moderate''"
definition YouTubeStrict :: string where "YouTubeStrict = ''strict''"

record SafeSearch =
  ss_Google :: bool
  ss_YouTube :: string
  ss_Bing :: bool
  ss_DuckDuckGo :: bool
  ss_Ecosia :: bool
  ss_Yandex :: bool
  ss_Pixabay :: bool

definition validYouTube :: "string \<Rightarrow> bool" where
  "validYouTube v \<longleftrightarrow> v = YouTubeOff \<or> v = YouTubeModerate \<or> v = YouTubeStrict"

record Config =
  cf_BlockedServices :: "string list"
  cf_Schedules :: "Schedule list"
  cf_SafeSearch :: SafeSearch

record Override =
  ov_Mode :: string
  ov_Until :: instant

record row =
  rw_groupID :: int
  rw_cfg :: Config
  rw_override :: Override
  rw_pauseUntil :: instant
  rw_updated :: instant

definition ParseClock :: "string \<Rightarrow> int \<times> int \<times> bool" where
  "ParseClock s =
     (if length s \<noteq> 5 \<or> s ! 2 \<noteq> CHR '':'' then (0, 0, False)
      else if \<not> list_all (\<lambda>i. is_digit (s ! i)) [0, 1, 3, 4] then (0, 0, False)
      else let d = (\<lambda>i. of_char (s ! i) - 48 :: int); hour = d 0 * 10 + d 1; minute = d 3 * 10 + d 4 in
        (hour, minute, hour \<le> 23 \<and> minute \<le> 59))"

definition clock_ok :: "string \<Rightarrow> bool" where
  "clock_ok s = (case ParseClock s of (_, _, ok) \<Rightarrow> ok)"

definition clock_minutes :: "string \<Rightarrow> int" where
  "clock_minutes s = (case ParseClock s of (h, m, _) \<Rightarrow> h * 60 + m)"

definition is_lower_hex :: "char \<Rightarrow> bool" where
  "is_lower_hex c \<longleftrightarrow> is_digit c \<or> CHR ''a'' \<le> c \<and> c \<le> CHR ''f''"

definition validScheduleID :: "string \<Rightarrow> bool" where
  "validScheduleID i \<longleftrightarrow> length i = 8 \<and> list_all is_lower_hex i"

fun known_loop :: "AppService list \<Rightarrow> string list \<Rightarrow> string list \<Rightarrow> string list" where
  "known_loop cat [] out = out"
| "known_loop cat (i # ids) out =
     known_loop cat ids (if serviceIndex cat i \<noteq> None \<and> i \<notin> set out \<and> length out < maxServices then out @ [i] else out)"

definition knownServices :: "AppService list \<Rightarrow> string list \<Rightarrow> string list" where
  "knownServices cat ids = sort (known_loop cat ids [])"

fun known_days :: "int list \<Rightarrow> int list \<Rightarrow> int list" where
  "known_days [] out = out"
| "known_days (d # ds) out = known_days ds (if 0 \<le> d \<and> d \<le> 6 \<and> d \<notin> set out then out @ [d] else out)"

definition sanitize_schedule :: "AppService list \<Rightarrow> Schedule \<Rightarrow> Schedule option" where
  "sanitize_schedule cat s0 =
     (let days = sort (known_days (sc_Days s0) []);
          s = s0\<lparr>sc_Services := knownServices cat (sc_Services s0), sc_Days := days\<rparr> in
      if \<not> validScheduleID (sc_ID s) \<or> days = [] \<or> \<not> clock_ok (sc_Start s) \<or> \<not> clock_ok (sc_End s) \<or> sc_Start s = sc_End s then None
      else if sc_Block s = BlockAll then Some (s\<lparr>sc_Services := []\<rparr>)
      else if sc_Block s = BlockServices \<and> length (sc_Services s) > 0 then Some s
      else None)"

definition sanitize_schedules :: "AppService list \<Rightarrow> Schedule list \<Rightarrow> Schedule list" where
  "sanitize_schedules cat ss = fold (\<lambda>s out. if length out = maxSchedules then out
     else case sanitize_schedule cat s of None \<Rightarrow> out | Some s' \<Rightarrow> out @ [s']) ss []"

definition sanitizeConfig :: "AppService list \<Rightarrow> Config \<Rightarrow> Config" where
  "sanitizeConfig cat c = \<lparr>cf_BlockedServices = knownServices cat (cf_BlockedServices c),
     cf_Schedules = sanitize_schedules cat (cf_Schedules c),
     cf_SafeSearch = (if validYouTube (ss_YouTube (cf_SafeSearch c)) then cf_SafeSearch c
       else (cf_SafeSearch c)\<lparr>ss_YouTube := YouTubeOff\<rparr>)\<rparr>"

section \<open>Safe search\<close>

datatype searchEngine = engineGoogle | engineYouTube | engineBing | engineDuckDuckGo | engineEcosia | engineYandex | enginePixabay

fun engine_bit :: "searchEngine \<Rightarrow> nat" where
  "engine_bit engineGoogle = 0"
| "engine_bit engineYouTube = 1"
| "engine_bit engineBing = 2"
| "engine_bit engineDuckDuckGo = 3"
| "engine_bit engineEcosia = 4"
| "engine_bit engineYandex = 5"
| "engine_bit enginePixabay = 6"

definition youTubeOff :: u8 where "youTubeOff = 0"
definition youTubeModerate :: u8 where "youTubeModerate = 1"
definition youTubeStrict :: u8 where "youTubeStrict = 2"

definition targetYouTubeMod :: string where "targetYouTubeMod = ''restrictmoderate.youtube.com''"
definition targetYouTubeStrict :: string where "targetYouTubeStrict = ''restrict.youtube.com''"
definition labelYouTubeModerate :: string where "labelYouTubeModerate = ''YouTube restricted mode (moderate)''"
definition labelYouTubeStrict :: string where "labelYouTubeStrict = ''YouTube restricted mode (strict)''"

fun engineTargets :: "searchEngine \<Rightarrow> string" where
  "engineTargets engineGoogle = ''forcesafesearch.google.com''"
| "engineTargets engineBing = ''strict.bing.com''"
| "engineTargets engineDuckDuckGo = ''safe.duckduckgo.com''"
| "engineTargets engineEcosia = ''strict-safe-search.ecosia.org''"
| "engineTargets engineYandex = ''familysearch.yandex.ru''"
| "engineTargets enginePixabay = ''safesearch.pixabay.com''"
| "engineTargets engineYouTube = []"

fun engineLabels :: "searchEngine \<Rightarrow> string" where
  "engineLabels engineGoogle = ''Google safe search''"
| "engineLabels engineBing = ''Bing safe search''"
| "engineLabels engineDuckDuckGo = ''DuckDuckGo safe search''"
| "engineLabels engineEcosia = ''Ecosia safe search''"
| "engineLabels engineYandex = ''Yandex family search''"
| "engineLabels enginePixabay = ''Pixabay safe search''"
| "engineLabels engineYouTube = []"

definition googleDomains :: "string list" where
  "googleDomains = [
    ''com'', ''ad'', ''ae'', ''com.af'', ''com.ag'', ''al'', ''am'', ''co.ao'', ''com.ar'', ''as'', ''at'',
    ''com.au'', ''az'', ''ba'', ''com.bd'', ''be'', ''bf'', ''bg'', ''com.bh'', ''bi'', ''bj'', ''com.bn'',
    ''com.bo'', ''com.br'', ''bs'', ''bt'', ''co.bw'', ''by'', ''com.bz'', ''ca'', ''cd'', ''cf'', ''cg'', ''ch'',
    ''ci'', ''co.ck'', ''cl'', ''cm'', ''cn'', ''com.co'', ''co.cr'', ''com.cu'', ''cv'', ''com.cy'', ''cz'',
    ''de'', ''dj'', ''dk'', ''dm'', ''com.do'', ''dz'', ''com.ec'', ''ee'', ''com.eg'', ''es'', ''com.et'',
    ''fi'', ''com.fj'', ''fm'', ''fr'', ''ga'', ''ge'', ''gg'', ''com.gh'', ''com.gi'', ''gl'', ''gm'', ''gr'',
    ''com.gt'', ''gy'', ''com.hk'', ''hn'', ''hr'', ''ht'', ''hu'', ''co.id'', ''ie'', ''co.il'', ''im'',
    ''co.in'', ''iq'', ''is'', ''it'', ''je'', ''com.jm'', ''jo'', ''co.jp'', ''co.ke'', ''com.kh'', ''ki'',
    ''kg'', ''co.kr'', ''com.kw'', ''kz'', ''la'', ''com.lb'', ''li'', ''lk'', ''co.ls'', ''lt'', ''lu'', ''lv'',
    ''com.ly'', ''co.ma'', ''md'', ''me'', ''mg'', ''mk'', ''ml'', ''com.mm'', ''mn'', ''com.mt'', ''mu'', ''mv'',
    ''mw'', ''com.mx'', ''com.my'', ''co.mz'', ''com.na'', ''com.ng'', ''com.ni'', ''ne'', ''nl'', ''no'',
    ''com.np'', ''nr'', ''nu'', ''co.nz'', ''com.om'', ''com.pa'', ''com.pe'', ''com.pg'', ''com.ph'', ''com.pk'',
    ''pl'', ''pn'', ''com.pr'', ''ps'', ''pt'', ''com.py'', ''com.qa'', ''ro'', ''ru'', ''rw'', ''com.sa'',
    ''com.sb'', ''sc'', ''se'', ''com.sg'', ''sh'', ''si'', ''sk'', ''com.sl'', ''sn'', ''so'', ''sm'', ''sr'',
    ''st'', ''com.sv'', ''td'', ''tg'', ''co.th'', ''com.tj'', ''tl'', ''tm'', ''tn'', ''to'', ''com.tr'', ''tt'',
    ''com.tw'', ''co.tz'', ''com.ua'', ''co.ug'', ''co.uk'', ''com.uy'', ''co.uz'', ''com.vc'', ''co.ve'',
    ''co.vi'', ''com.vn'', ''vu'', ''ws'', ''rs'', ''co.za'', ''co.zm'', ''co.zw'', ''cat'']"

definition yandexDomains :: "string list" where
  "yandexDomains = [
    ''ru'', ''com'', ''com.tr'', ''by'', ''kz'', ''uz'', ''az'', ''com.am'', ''com.ge'', ''co.il'', ''md'',
    ''tj'', ''tm'', ''lt'', ''lv'', ''ee'', ''eu'']"

text \<open>The names of each engine, as \<^verbatim>\<open>init\<close> enters them; it panics on a name that is listed twice.\<close>

definition safe_entries :: "(string \<times> searchEngine) list" where
  "safe_entries =
     concat (map (\<lambda>d. [(''google.'' @ d, engineGoogle), (''www.google.'' @ d, engineGoogle)]) googleDomains) @
     map (\<lambda>n. (n, engineYouTube)) [''www.youtube.com'', ''m.youtube.com'', ''youtubei.googleapis.com'',
       ''youtube.googleapis.com'', ''www.youtube-nocookie.com''] @
     [(''www.bing.com'', engineBing)] @
     map (\<lambda>n. (n, engineDuckDuckGo)) [''duckduckgo.com'', ''www.duckduckgo.com'', ''start.duckduckgo.com''] @
     [(''www.ecosia.org'', engineEcosia)] @
     concat (map (\<lambda>d. [(''yandex.'' @ d, engineYandex), (''www.yandex.'' @ d, engineYandex)]) yandexDomains) @
     [(''ya.ru'', engineYandex), (''www.ya.ru'', engineYandex)] @
     [(''pixabay.com'', enginePixabay), (''www.pixabay.com'', enginePixabay)]"

definition safeSearchTable :: "string \<Rightarrow> searchEngine option" where
  "safeSearchTable n = map_of safe_entries n"

record safeGroup =
  sg_id :: int
  sg_name :: string
  sg_engines :: u8
  sg_youtube :: u8

definition compileSafeSearch :: "int \<Rightarrow> string \<Rightarrow> SafeSearch \<Rightarrow> safeGroup option" where
  "compileSafeSearch i name s =
     (let engines = fold (\<lambda>(e, on) b. if on then b OR push_bit (engine_bit e) 1 else b)
            [(engineGoogle, ss_Google s), (engineBing, ss_Bing s), (engineDuckDuckGo, ss_DuckDuckGo s),
             (engineEcosia, ss_Ecosia s), (engineYandex, ss_Yandex s), (enginePixabay, ss_Pixabay s)] 0;
          youtube = (if ss_YouTube s = YouTubeModerate then youTubeModerate
            else if ss_YouTube s = YouTubeStrict then youTubeStrict else youTubeOff) in
      if engines = 0 \<and> youtube = youTubeOff then None
      else Some \<lparr>sg_id = i, sg_name = name, sg_engines = engines, sg_youtube = youtube\<rparr>)"

section \<open>Compiled controls\<close>

record window =
  wd_id :: string
  wd_name :: string
  wd_days :: u8
  wd_start :: int
  wd_end :: int
  wd_services :: "bool list"

record pc_rules =
  pr_id :: int
  pr_name :: string
  pr_override :: Override
  pr_services :: "bool list"
  pr_blockAll :: "window list"
  pr_blockSvc :: "window list"

definition day_bits :: "int list \<Rightarrow> u8" where
  "day_bits ds = fold (\<lambda>d b. b OR push_bit (nat d) 1) ds 0"

definition compile_window :: "AppService list \<Rightarrow> Schedule \<Rightarrow> window" where
  "compile_window cat s = \<lparr>wd_id = sc_ID s, wd_name = sc_Name s, wd_days = day_bits (sc_Days s),
     wd_start = clock_minutes (sc_Start s), wd_end = clock_minutes (sc_End s),
     wd_services = (if sc_Block s = BlockAll then [] else serviceSet cat (sc_Services s))\<rparr>"

definition pc_compile :: "AppService list \<Rightarrow> row \<Rightarrow> string \<Rightarrow> pc_rules" where
  "pc_compile cat r name =
     (let on = filter sc_Enabled (cf_Schedules (rw_cfg r)) in
      \<lparr>pr_id = rw_groupID r, pr_name = name, pr_override = rw_override r,
       pr_services = serviceSet cat (cf_BlockedServices (rw_cfg r)),
       pr_blockAll = map (compile_window cat) (filter (\<lambda>s. sc_Block s = BlockAll) on),
       pr_blockSvc = map (compile_window cat) (filter (\<lambda>s. sc_Block s \<noteq> BlockAll) on)\<rparr>)"

definition restricts :: "pc_rules \<Rightarrow> bool" where
  "restricts r \<longleftrightarrow> pr_services r \<noteq> [] \<or> pr_blockAll r \<noteq> [] \<or> pr_blockSvc r \<noteq> [] \<or> ov_Mode (pr_override r) = OverrideBlock"

record groupPause =
  gp_name :: string
  gp_until :: instant

record pc_snapshot =
  ps_groups :: "int \<rightharpoonup> pc_rules"
  ps_safe :: "int \<rightharpoonup> safeGroup"
  ps_pauses :: "int \<rightharpoonup> groupPause"

definition snap_row :: "AppService list \<Rightarrow> (int \<Rightarrow> string) \<Rightarrow> row \<Rightarrow> pc_snapshot \<Rightarrow> pc_snapshot" where
  "snap_row cat names row s =
     (let name = names (rw_groupID row); r = pc_compile cat row name;
          s1 = (if restricts r then s\<lparr>ps_groups := (ps_groups s)(pr_id r \<mapsto> r)\<rparr> else s);
          s2 = (case compileSafeSearch (rw_groupID row) name (cf_SafeSearch (rw_cfg row)) of
                  Some g \<Rightarrow> s1\<lparr>ps_safe := (ps_safe s1)(rw_groupID row \<mapsto> g)\<rparr> | None \<Rightarrow> s1) in
      if rw_pauseUntil row \<noteq> zero_time
      then s2\<lparr>ps_pauses := (ps_pauses s2)(rw_groupID row \<mapsto> \<lparr>gp_name = name, gp_until = rw_pauseUntil row\<rparr>)\<rparr>
      else s2)"

definition empty_snapshot :: pc_snapshot where
  "empty_snapshot = \<lparr>ps_groups = Map.empty, ps_safe = Map.empty, ps_pauses = Map.empty\<rparr>"

definition pc_newSnapshot :: "AppService list \<Rightarrow> row list \<Rightarrow> (int \<Rightarrow> string) \<Rightarrow> pc_snapshot" where
  "pc_newSnapshot cat rows names = fold (snap_row cat names) rows empty_snapshot"

definition group_paused :: "pc_snapshot \<Rightarrow> instant \<Rightarrow> int \<Rightarrow> bool" where
  "group_paused s now g = (case ps_pauses s g of Some p \<Rightarrow> now < gp_until p | None \<Rightarrow> False)"

definition FilterGroups :: "pc_snapshot \<Rightarrow> int list \<Rightarrow> instant \<Rightarrow> int list" where
  "FilterGroups s groupIDs now =
     (if \<not> list_ex (group_paused s now) groupIDs then groupIDs else filter (\<lambda>g. \<not> group_paused s now g) groupIDs)"

definition PausedGroups :: "pc_snapshot \<Rightarrow> int list \<Rightarrow> instant \<Rightarrow> (int \<times> string \<times> instant) list" where
  "PausedGroups s groupIDs now =
     concat (map (\<lambda>g. case ps_pauses s g of
        Some p \<Rightarrow> if now < gp_until p then [(g, gp_name p, gp_until p)] else []
      | None \<Rightarrow> []) groupIDs)"

section \<open>Local time\<close>

record location =
  lo_offset :: "instant \<Rightarrow> int"
  lo_Date :: "int \<Rightarrow> int \<Rightarrow> instant"
  lo_zoneStart :: "instant \<Rightarrow> instant option"
  lo_abbrev :: "instant \<Rightarrow> string"

definition Day :: duration where "Day = 24 * Hour"

definition local_time :: "location \<Rightarrow> instant \<Rightarrow> int" where
  "local_time loc t = t + lo_offset loc t * Second"

text \<open>Day number and weekday (1 January 1970 was a Thursday) and minute of the day of a local time.\<close>

definition local_day :: "location \<Rightarrow> instant \<Rightarrow> int" where
  "local_day loc t = local_time loc t div Day"

definition weekday :: "int \<Rightarrow> nat" where
  "weekday d = nat ((d + 4) mod 7)"

definition local_minute :: "location \<Rightarrow> instant \<Rightarrow> int" where
  "local_minute loc t = local_time loc t mod Day div Minute"

record clock =
  ck_day :: nat
  ck_min :: int

definition wallClock :: "location \<Rightarrow> instant \<Rightarrow> clock" where
  "wallClock loc t = \<lparr>ck_day = weekday (local_day loc t), ck_min = local_minute loc t\<rparr>"

definition has_day :: "window \<Rightarrow> nat \<Rightarrow> bool" where
  "has_day w d \<longleftrightarrow> wd_days w AND push_bit d 1 \<noteq> 0"

definition wd_active :: "window \<Rightarrow> clock \<Rightarrow> bool" where
  "wd_active w c =
     (let today = has_day w (ck_day c) in
      if wd_start w < wd_end w then today \<and> ck_min c \<ge> wd_start w \<and> ck_min c < wd_end w
      else let yesterday = has_day w ((ck_day c + 6) mod 7) in
        today \<and> ck_min c \<ge> wd_start w \<or> yesterday \<and> ck_min c < wd_end w)"

text \<open>\<^verbatim>\<open>at\<close>: a time in the gap when the clocks go forward becomes the first instant after it.\<close>

definition pc_at :: "location \<Rightarrow> int \<Rightarrow> int \<Rightarrow> instant" where
  "pc_at loc day minutes =
     (let t = lo_Date loc day minutes in
      if local_minute loc t \<noteq> minutes
      then (case lo_zoneStart loc t of Some start \<Rightarrow> if start < t then start else t | None \<Rightarrow> t)
      else t)"

definition endAfter :: "window \<Rightarrow> location \<Rightarrow> instant \<Rightarrow> instant" where
  "endAfter w loc t =
     (let d = local_day loc t;
          d' = (if wd_start w > wd_end w \<and> local_minute loc t \<ge> wd_start w then d + 1 else d) in
      pc_at loc d' (wd_end w))"

record span =
  sp_start :: instant
  sp_end :: instant

definition window_spans :: "window \<Rightarrow> location \<Rightarrow> instant \<Rightarrow> int \<Rightarrow> int \<Rightarrow> span list" where
  "window_spans w loc t lo hi =
     (let d = local_day loc t in
      map (\<lambda>i. \<lparr>sp_start = pc_at loc (d + i) (wd_start w),
          sp_end = pc_at loc (if wd_end w < wd_start w then d + i + 1 else d + i) (wd_end w)\<rparr>)
        (filter (\<lambda>i. has_day w (weekday (d + i))) [lo..hi]))"

section \<open>Decisions\<close>

datatype pc_kind = KindNone | KindSchedule | KindOverride | KindService

record pcDecision =
  pd_Blocked :: bool
  pd_Kind :: pc_kind
  pd_GroupID :: int
  pd_Group :: string
  pd_Name :: string
  pd_Schedule :: string
  pd_Until :: instant

definition no_pcDecision :: pcDecision where
  "no_pcDecision = \<lparr>pd_Blocked = False, pd_Kind = KindNone, pd_GroupID = 0, pd_Group = [], pd_Name = [], pd_Schedule = [], pd_Until = zero_time\<rparr>"

text \<open>The override of a group in effect.\<close>

definition override_active :: "Override \<Rightarrow> instant \<Rightarrow> bool" where
  "override_active ov now \<longleftrightarrow> ov_Mode ov \<noteq> [] \<and> now < ov_Until ov"

text \<open>The body of the loop of \<^verbatim>\<open>Check\<close> for the rules of one group.\<close>

definition check_group :: "AppService list \<Rightarrow> location \<Rightarrow> string \<Rightarrow> instant \<Rightarrow> pc_rules \<Rightarrow> pcDecision option" where
  "check_group cat loc qname now r =
     (let base = no_pcDecision\<lparr>pd_Blocked := True, pd_GroupID := pr_id r, pd_Group := pr_name r\<rparr>; c = wallClock loc now in
      if override_active (pr_override r) now then
        (if ov_Mode (pr_override r) = OverrideAllow then None
         else Some (base\<lparr>pd_Kind := KindOverride, pd_Until := ov_Until (pr_override r)\<rparr>))
      else case find (\<lambda>w. wd_active w c) (pr_blockAll r) of
        Some w \<Rightarrow> Some (base\<lparr>pd_Kind := KindSchedule, pd_Name := wd_name w, pd_Until := endAfter w loc now\<rparr>)
      | None \<Rightarrow>
          if pr_services r = [] \<and> pr_blockSvc r = [] then None
          else case serviceOf cat qname of
              None \<Rightarrow> None
            | Some k \<Rightarrow>
                if pr_services r \<noteq> [] \<and> pr_services r ! k
                then Some (base\<lparr>pd_Kind := KindService, pd_Name := as_Name (cat ! k)\<rparr>)
                else map_option (\<lambda>w. base\<lparr>pd_Kind := KindService, pd_Name := as_Name (cat ! k), pd_Schedule := wd_name w,
                       pd_Until := endAfter w loc now\<rparr>)
                     (find (\<lambda>w. wd_services w ! k \<and> wd_active w c) (pr_blockSvc r)))"

definition pc_Check :: "AppService list \<Rightarrow> location \<Rightarrow> pc_snapshot \<Rightarrow> string \<Rightarrow> int list \<Rightarrow> instant \<Rightarrow> pcDecision" where
  "pc_Check cat loc s qname groupIDs now =
     (case first_some (\<lambda>g. case ps_groups s g of None \<Rightarrow> None | Some r \<Rightarrow> check_group cat loc qname now r) groupIDs of
        Some d \<Rightarrow> d
      | None \<Rightarrow> no_pcDecision)"

text \<open>
  \<^verbatim>\<open>blockAllUntil\<close>: the loop moves its time on to the latest end of a window that contains it, until none does or
  seven days are reached. Every round moves it on, so it ends.
\<close>

definition latest_end :: "pc_rules \<Rightarrow> location \<Rightarrow> instant \<Rightarrow> instant" where
  "latest_end r loc t = fold (\<lambda>sp nxt. if sp_start sp \<le> t \<and> nxt < sp_end sp then sp_end sp else nxt)
     (concat (map (\<lambda>w. window_spans w loc t (-1) 0) (pr_blockAll r))) t"

function block_loop :: "pc_rules \<Rightarrow> location \<Rightarrow> instant \<Rightarrow> instant \<Rightarrow> instant" where
  "block_loop r loc limit t =
     (if t < limit then (let nxt = latest_end r loc t in if t < nxt then block_loop r loc limit nxt else t) else t)"
  by pat_completeness auto
termination by (relation "measure (\<lambda>(r, loc, limit, t). nat (limit - t))") auto

declare block_loop.simps [simp del]

definition blockAllUntil :: "pc_rules \<Rightarrow> location \<Rightarrow> instant \<Rightarrow> instant" where
  "blockAllUntil r loc t = block_loop r loc (t + maxOverride) t"

record Change =
  ch_Time :: instant
  ch_ScheduleID :: string
  ch_Name :: string
  ch_Starts :: bool

definition consider_change :: "instant \<Rightarrow> window \<Rightarrow> instant \<Rightarrow> bool \<Rightarrow> Change option \<Rightarrow> Change option" where
  "consider_change now w t starts best =
     (if \<not> now < t \<or> now + maxOverride < t then best
      else case best of
        None \<Rightarrow> Some \<lparr>ch_Time = t, ch_ScheduleID = wd_id w, ch_Name = wd_name w, ch_Starts = starts\<rparr>
      | Some b \<Rightarrow>
          if t < ch_Time b \<or> t = ch_Time b \<and> ch_Starts b \<and> \<not> starts
          then Some \<lparr>ch_Time = t, ch_ScheduleID = wd_id w, ch_Name = wd_name w, ch_Starts = starts\<rparr>
          else best)"

definition pc_next :: "pc_rules \<Rightarrow> location \<Rightarrow> instant \<Rightarrow> Change option" where
  "pc_next r loc now =
     fold (\<lambda>(w, sp) best. consider_change now w (sp_end sp) False (consider_change now w (sp_start sp) True best))
       (concat (map (\<lambda>w. map (Pair w) (window_spans w loc now (-1) 7)) (pr_blockAll r @ pr_blockSvc r))) None"

text \<open>What the rules do at a time, for the interface.\<close>

record GroupState =
  gs_BlockAll :: bool
  gs_Reason :: pc_kind
  gs_Schedule :: string
  gs_Until :: instant
  gs_BlockedServices :: "string list"
  gs_Lifted :: bool
  gs_LiftedUntil :: instant
  gs_Next :: "Change option"
  gs_Paused :: bool
  gs_PausedUntil :: instant
  gs_TimeZone :: string
  gs_UTCOffsetMinutes :: int

definition go_div :: "int \<Rightarrow> int \<Rightarrow> int" where
  "go_div a b = sgn a * sgn b * (\<bar>a\<bar> div \<bar>b\<bar>)"

definition service_now :: "pc_rules \<Rightarrow> clock \<Rightarrow> nat \<Rightarrow> bool" where
  "service_now r c k \<longleftrightarrow> pr_services r \<noteq> [] \<and> pr_services r ! k \<or> list_ex (\<lambda>w. wd_services w ! k \<and> wd_active w c) (pr_blockSvc r)"

definition pc_state :: "AppService list \<Rightarrow> pc_rules \<Rightarrow> instant \<Rightarrow> location \<Rightarrow> GroupState" where
  "pc_state cat r now loc =
     (let st0 = \<lparr>gs_BlockAll = False, gs_Reason = KindNone, gs_Schedule = [], gs_Until = zero_time, gs_BlockedServices = [],
            gs_Lifted = False, gs_LiftedUntil = zero_time, gs_Next = None, gs_Paused = False, gs_PausedUntil = zero_time,
            gs_TimeZone = lo_abbrev loc now, gs_UTCOffsetMinutes = go_div (lo_offset loc now) 60\<rparr>;
          ov = pr_override r; oActive = override_active ov now; c = wallClock loc now;
          st1 = (if oActive \<and> ov_Mode ov = OverrideAllow then st0\<lparr>gs_Lifted := True, gs_LiftedUntil := ov_Until ov\<rparr>
            else if oActive then st0\<lparr>gs_BlockAll := True, gs_Reason := KindOverride, gs_Until := blockAllUntil r loc (ov_Until ov)\<rparr>
            else case find (\<lambda>w. wd_active w c) (pr_blockAll r) of
                None \<Rightarrow> st0
              | Some w \<Rightarrow> let until = blockAllUntil r loc now in
                  st0\<lparr>gs_BlockAll := True, gs_Reason := KindSchedule, gs_Schedule := wd_name w,
                    gs_Until := (if now < until then until else endAfter w loc now)\<rparr>);
          st2 = (if \<not> gs_Lifted st1
            then st1\<lparr>gs_BlockedServices := sort (map (\<lambda>k. as_ID (cat ! k)) (filter (service_now r c) [0..<length cat]))\<rparr>
            else st1) in
      st2\<lparr>gs_Next := pc_next r loc now\<rparr>)"

section \<open>Rewrites of safe search\<close>

record SafeSearchRewrite =
  sr_Target :: string
  sr_Label :: string
  sr_GroupID :: int
  sr_Group :: string

definition best_youtube :: "pc_snapshot \<Rightarrow> int list \<Rightarrow> safeGroup option" where
  "best_youtube s groupIDs =
     fold (\<lambda>gid best. case ps_safe s gid of
         None \<Rightarrow> best
       | Some g \<Rightarrow> (case best of None \<Rightarrow> Some g | Some b \<Rightarrow> if sg_youtube b < sg_youtube g then Some g else best)) groupIDs None"

definition lookupSafeSearch :: "pc_snapshot \<Rightarrow> string \<Rightarrow> int list \<Rightarrow> SafeSearchRewrite option" where
  "lookupSafeSearch s qname groupIDs =
     (case safeSearchTable qname of
        None \<Rightarrow> None
      | Some eng \<Rightarrow>
          if eng = engineYouTube then
            (case best_youtube s groupIDs of
               None \<Rightarrow> None
             | Some b \<Rightarrow>
                 if sg_youtube b = youTubeOff then None
                 else if sg_youtube b = youTubeStrict
                 then Some \<lparr>sr_Target = targetYouTubeStrict, sr_Label = labelYouTubeStrict, sr_GroupID = sg_id b, sr_Group = sg_name b\<rparr>
                 else Some \<lparr>sr_Target = targetYouTubeMod, sr_Label = labelYouTubeModerate, sr_GroupID = sg_id b, sr_Group = sg_name b\<rparr>)
          else first_some (\<lambda>gid. case ps_safe s gid of
                 None \<Rightarrow> None
               | Some g \<Rightarrow> if sg_engines g AND push_bit (engine_bit eng) 1 \<noteq> 0
                   then Some \<lparr>sr_Target = engineTargets eng, sr_Label = engineLabels eng, sr_GroupID = sg_id g, sr_Group = sg_name g\<rparr>
                   else None) groupIDs)"

section \<open>Windows on the wall clock\<close>

lemma bit_iff_and: "(a AND push_bit n 1 \<noteq> (0 :: 'a::len word)) \<longleftrightarrow> bit a n"
proof -
  have "(a AND push_bit n 1 = 0) \<longleftrightarrow> \<not> bit a n"
    by (metis and_exp_eq_0_iff_not_bit push_bit_of_1)
  then show ?thesis by blast
qed

lemma bit_day_bits:
  assumes "n < 8" and "\<forall>d \<in> set ds. 0 \<le> d"
  shows "bit (day_bits ds) n \<longleftrightarrow> int n \<in> set ds"
proof -
  have "bit (fold (\<lambda>d b. b OR push_bit (nat d) 1) ds (b :: u8)) n \<longleftrightarrow> bit b n \<or> int n \<in> set ds" for b
    using assms by (induction ds arbitrary: b) (auto simp: bit_or_iff bit_exp_iff)
  from this [of 0] show ?thesis by (simp add: day_bits_def)
qed

lemma weekday_less: "weekday d < 7"
  by (simp add: weekday_def nat_less_iff)

lemma weekday_prev: "weekday (d - 1) = (weekday d + 6) mod 7"
proof -
  have "int (weekday (d - 1)) = int ((weekday d + 6) mod 7)"
    by (simp add: weekday_def zmod_int) presburger
  then show ?thesis by simp
qed

definition wall_minutes :: "location \<Rightarrow> instant \<Rightarrow> int" where
  "wall_minutes loc t = local_time loc t div Minute"

lemma local_day_minutes: "local_day loc t = wall_minutes loc t div 1440"
  by (simp add: local_day_def wall_minutes_def Day_def Hour_def zdiv_zmult2_eq [symmetric] mult.commute mult.assoc)

lemma local_minute_minutes: "local_minute loc t = wall_minutes loc t mod 1440"
proof -
  have "local_time loc t mod (Minute * 1440) = Minute * (local_time loc t div Minute mod 1440) + local_time loc t mod Minute"
    by (rule zmod_zmult2_eq) simp
  moreover have "Day = Minute * 1440" by (simp add: Day_def Hour_def)
  moreover have "0 < Minute" by (simp add: time_consts)
  ultimately show ?thesis by (simp add: local_minute_def wall_minutes_def)
qed

text \<open>The specification: on some listed day the minute lies in the window that starts on it.\<close>

definition window_covers :: "(nat \<Rightarrow> bool) \<Rightarrow> int \<Rightarrow> int \<Rightarrow> int \<Rightarrow> bool" where
  "window_covers on a b m \<longleftrightarrow>
     (\<exists>d. on (weekday d) \<and> d * 1440 + a \<le> m \<and> m < d * 1440 + b + (if b < a then 1440 else 0))"

lemma active_covers:
  assumes "0 \<le> wd_start w" "wd_start w < 1440" "0 \<le> wd_end w" "wd_end w < 1440" "wd_start w \<noteq> wd_end w"
  shows "wd_active w (wallClock loc t) \<longleftrightarrow> window_covers (has_day w) (wd_start w) (wd_end w) (wall_minutes loc t)"
proof -
  define m where "m = wall_minutes loc t"
  define d r where "d = m div 1440" and "r = m mod 1440"
  have m: "m = d * 1440 + r" "0 \<le> r" "r < 1440" by (simp_all add: d_def r_def)
  have clock: "ck_day (wallClock loc t) = weekday d" "ck_min (wallClock loc t) = r"
    by (simp_all add: wallClock_def local_day_minutes local_minute_minutes m_def d_def r_def)
  have days: "e = d \<or> e = d - 1" if "e * 1440 + wd_start w \<le> m" "m < e * 1440 + wd_end w + 1440" for e
  proof -
    have "e * 1440 < (d + 1) * 1440" and "d * 1440 < (e + 2) * 1440" using that m assms by simp_all
    then have "e < d + 1" and "d < e + 2" by simp_all
    then show ?thesis by auto
  qed
  show ?thesis
  proof (cases "wd_start w < wd_end w")
    case True
    have "window_covers (has_day w) (wd_start w) (wd_end w) m \<longleftrightarrow> has_day w (weekday d) \<and> wd_start w \<le> r \<and> r < wd_end w"
    proof
      assume "window_covers (has_day w) (wd_start w) (wd_end w) m"
      then obtain e where e: "has_day w (weekday e)" "e * 1440 + wd_start w \<le> m" "m < e * 1440 + wd_end w"
        using True by (auto simp: window_covers_def)
      then have "e = d" using days [of e] m assms by auto
      with e m show "has_day w (weekday d) \<and> wd_start w \<le> r \<and> r < wd_end w" by simp
    next
      assume "has_day w (weekday d) \<and> wd_start w \<le> r \<and> r < wd_end w"
      then show "window_covers (has_day w) (wd_start w) (wd_end w) m"
        unfolding window_covers_def using True m by (intro exI [of _ d]) simp
    qed
    then show ?thesis using True by (auto simp: wd_active_def clock m_def Let_def)
  next
    case False
    then have lt: "wd_end w < wd_start w" using assms(5) by simp
    have "window_covers (has_day w) (wd_start w) (wd_end w) m \<longleftrightarrow>
        has_day w (weekday d) \<and> wd_start w \<le> r \<or> has_day w (weekday (d - 1)) \<and> r < wd_end w"
    proof
      assume "window_covers (has_day w) (wd_start w) (wd_end w) m"
      then obtain e where e: "has_day w (weekday e)" "e * 1440 + wd_start w \<le> m" "m < e * 1440 + wd_end w + 1440"
        using lt by (auto simp: window_covers_def)
      then show "has_day w (weekday d) \<and> wd_start w \<le> r \<or> has_day w (weekday (d - 1)) \<and> r < wd_end w"
        using days [of e] m by auto
    next
      assume "has_day w (weekday d) \<and> wd_start w \<le> r \<or> has_day w (weekday (d - 1)) \<and> r < wd_end w"
      then show "window_covers (has_day w) (wd_start w) (wd_end w) m"
      proof
        assume "has_day w (weekday d) \<and> wd_start w \<le> r"
        then show ?thesis unfolding window_covers_def using lt m assms by (intro exI [of _ d]) simp
      next
        assume "has_day w (weekday (d - 1)) \<and> r < wd_end w"
        then show ?thesis unfolding window_covers_def using lt m assms by (intro exI [of _ "d - 1"]) simp
      qed
    qed
    then show ?thesis using lt by (simp add: wd_active_def clock m_def Let_def weekday_prev)
  qed
qed

lemma digit_int:
  assumes "is_digit c"
  shows "0 \<le> of_char c - (48 :: int) \<and> of_char c - (48 :: int) \<le> 9"
proof -
  have "48 \<le> (of_char c :: nat)" "of_char c \<le> (57 :: nat)" using assms by (simp_all add: is_digit_iff)
  then have "int 48 \<le> int (of_char c)" "int (of_char c) \<le> int 57" by (simp_all only: of_nat_le_iff)
  then show ?thesis by (simp only: of_nat_of_char of_nat_numeral) simp
qed

lemma ParseClock_bounds:
  assumes "clock_ok s"
  shows "0 \<le> clock_minutes s \<and> clock_minutes s < 1440"
proof -
  show ?thesis
    using assms digit_int [of "s ! 0"] digit_int [of "s ! 1"] digit_int [of "s ! 3"] digit_int [of "s ! 4"]
    by (auto simp: clock_ok_def clock_minutes_def ParseClock_def Let_def split: if_splits)
qed

lemma radix_inj:
  fixes a b x y m :: int
  assumes "a * m + x = b * m + y" and "0 \<le> x" "x < m" "0 \<le> y" "y < m"
  shows "a = b \<and> x = y"
proof -
  have "(a * m + x) div m = a" "(b * m + y) div m = b" using assms(2-) by simp_all
  then have "a = b" using assms(1) by simp
  with assms(1) show ?thesis by simp
qed

lemma ParseClock_inj:
  assumes "clock_ok s" and "clock_ok t" and "clock_minutes s = clock_minutes t"
  shows "s = t"
proof -
  have len: "length x = 5" "x ! 2 = CHR '':''" "\<forall>i \<in> {0, 1, 3, 4}. is_digit (x ! i)"
    and min: "clock_minutes x = (of_char (x ! 0) - 48) * 600 + (of_char (x ! 1) - 48) * 60 + (of_char (x ! 3) - 48) * 10 + (of_char (x ! 4) - 48)"
    and low: "(of_char (x ! 3) - 48) * 10 + (of_char (x ! 4) - 48) \<le> (59 :: int)"
    if "clock_ok x" for x
    using that by (auto simp: clock_ok_def clock_minutes_def ParseClock_def Let_def split: if_splits)
  have dig: "0 \<le> of_char (x ! i) - (48 :: int) \<and> of_char (x ! i) - (48 :: int) \<le> 9" if "clock_ok x" "i \<in> {0, 1, 3, 4}" for x i
    using digit_int len(3) [OF that(1)] that(2) by blast
  have eq: "(of_char (s ! i) :: int) = of_char (t ! i)" if "i \<in> {0, 1, 3, 4}" for i
  proof -
    let ?d = "\<lambda>x i. of_char (x ! i) - (48 :: int)"
    have d: "0 \<le> ?d s i \<and> ?d s i < 10" "0 \<le> ?d t i \<and> ?d t i < 10" if "i \<in> {0, 1, 3, 4}" for i
      using dig [OF assms(1) that] dig [OF assms(2) that] by auto
    have "(?d s 0 * 10 + ?d s 1) * 60 + (?d s 3 * 10 + ?d s 4) = (?d t 0 * 10 + ?d t 1) * 60 + (?d t 3 * 10 + ?d t 4)"
      using assms(3) min [OF assms(1)] min [OF assms(2)] by simp
    then have "?d s 0 * 10 + ?d s 1 = ?d t 0 * 10 + ?d t 1 \<and> ?d s 3 * 10 + ?d s 4 = ?d t 3 * 10 + ?d t 4"
      using low [OF assms(1)] low [OF assms(2)] d [of 3] d [of 4] by (intro radix_inj [where m = 60]) simp_all
    then have "?d s 0 = ?d t 0 \<and> ?d s 1 = ?d t 1" "?d s 3 = ?d t 3 \<and> ?d s 4 = ?d t 4"
      using d [of 0] d [of 1] d [of 3] d [of 4] radix_inj [of "?d s 0" 10 "?d s 1" "?d t 0" "?d t 1"]
        radix_inj [of "?d s 3" 10 "?d s 4" "?d t 3" "?d t 4"] by blast+
    with that show ?thesis by auto
  qed
  show ?thesis
  proof (rule nth_equalityI)
    show "length s = length t" using len(1) assms by simp
  next
    fix i assume "i < length s"
    then have "i = 2 \<or> i \<in> {0, 1, 3, 4}" using len(1) [OF assms(1)] by auto
    then show "s ! i = t ! i" using len(2) assms eq by (auto simp: of_char_eq_iff)
  qed
qed

section \<open>Services\<close>

lemma map_of_enumerate_less:
  "map_of (rev (concat (map (\<lambda>(k, s). map (\<lambda>x. (x, k)) (f s)) (enumerate 0 cat)))) d = Some k \<Longrightarrow>
   k < length cat \<and> d \<in> set (f (cat ! k))"
  by (auto dest!: map_of_SomeD simp: in_set_enumerate_eq)

lemma serviceDomains_less: "serviceDomains cat d = Some k \<Longrightarrow> k < length cat \<and> d \<in> set (as_Domains (cat ! k))"
  unfolding serviceDomains_def by (rule map_of_enumerate_less)

lemma serviceIndex_less: "serviceIndex cat i = Some k \<Longrightarrow> k < length cat \<and> as_ID (cat ! k) = i"
  by (auto simp: serviceIndex_def in_set_enumerate_eq dest!: map_of_SomeD)

lemma CutByte_eq:
  assumes "strings_CutByte s c = Some (a, b)"
  shows "s = a @ c # b"
proof -
  have c: "c \<in> set s" and ab: "a = takeWhile (\<lambda>x. x \<noteq> c) s" "b = tl (dropWhile (\<lambda>x. x \<noteq> c) s)"
    using assms by (auto simp: strings_CutByte_def split: if_splits)
  from c have ne: "dropWhile (\<lambda>x. x \<noteq> c) s \<noteq> []" by (auto simp: dropWhile_eq_Nil_conv)
  from hd_dropWhile [OF this] have "dropWhile (\<lambda>x. x \<noteq> c) s = c # b" using ne ab(2) by (cases "dropWhile (\<lambda>x. x \<noteq> c) s") auto
  then show ?thesis using ab(1) takeWhile_dropWhile_id [of "\<lambda>x. x \<noteq> c" s] by simp
qed

lemma service_walk_sound:
  "service_walk cat n q = Some k \<Longrightarrow>
   \<exists>p d. q = p @ d \<and> (p = [] \<or> last p = CHR ''.'') \<and> serviceDomains cat d = Some k"
proof (induction n arbitrary: q)
  case (Suc n)
  show ?case
  proof (cases "serviceDomains cat q")
    case (Some j)
    with Suc.prems have "q = [] @ q \<and> serviceDomains cat q = Some k" by (simp split: if_splits)
    then show ?thesis by blast
  next
    case None
    with Suc.prems obtain a rest where cut: "strings_CutByte q (CHR ''.'') = Some (a, rest)"
      and rec: "service_walk cat n rest = Some k"
      by (auto split: if_splits option.splits)
    from cut have q: "q = a @ CHR ''.'' # rest" by (rule CutByte_eq)
    from Suc.IH [OF rec] obtain p d where "rest = p @ d" "p = [] \<or> last p = CHR ''.''" "serviceDomains cat d = Some k"
      by blast
    then have "q = (a @ CHR ''.'' # p) @ d \<and> last (a @ CHR ''.'' # p) = CHR ''.''" using q by auto
    with \<open>serviceDomains cat d = Some k\<close> show ?thesis by blast
  qed
qed simp

lemma serviceOf_less: "serviceOf cat q = Some k \<Longrightarrow> k < length cat"
  unfolding serviceOf_def using service_walk_sound serviceDomains_less by blast

lemma serviceSet_cases:
  "serviceSet cat ids = [] \<and> (\<forall>i \<in> set ids. serviceIndex cat i = None) \<or>
   length (serviceSet cat ids) = length cat \<and> serviceSet cat ids \<noteq> [] \<and>
   (\<forall>k < length cat. serviceSet cat ids ! k \<longleftrightarrow> (\<exists>i \<in> set ids. serviceIndex cat i = Some k))"
proof (induction ids rule: rev_induct)
  case Nil
  show ?case by (simp add: serviceSet_def)
next
  case (snoc i ids)
  let ?st = "serviceSet cat ids"
  have step: "serviceSet cat (ids @ [i]) = (case serviceIndex cat i of
      Some k \<Rightarrow> (if ?st = [] then replicate (length cat) False else ?st)[k := True] | None \<Rightarrow> ?st)"
    unfolding serviceSet_def by simp
  show ?case
  proof (cases "serviceIndex cat i")
    case None
    with snoc step show ?thesis by auto
  next
    case (Some j)
    with serviceIndex_less have j: "j < length cat" by blast
    from snoc show ?thesis
    proof
      assume e: "?st = [] \<and> (\<forall>i \<in> set ids. serviceIndex cat i = None)"
      then have "serviceSet cat (ids @ [i]) = (replicate (length cat) False)[j := True]" using step Some by simp
      with e j Some show ?thesis by (auto simp: nth_list_update)
    next
      assume "length ?st = length cat \<and> ?st \<noteq> [] \<and> (\<forall>k < length cat. ?st ! k \<longleftrightarrow> (\<exists>i \<in> set ids. serviceIndex cat i = Some k))"
      with j Some step show ?thesis by (auto simp: nth_list_update)
    qed
  qed
qed

lemma serviceSet_nth:
  assumes "k < length cat"
  shows "serviceSet cat ids \<noteq> [] \<and> serviceSet cat ids ! k \<longleftrightarrow> (\<exists>i \<in> set ids. serviceIndex cat i = Some k)"
  using serviceSet_cases [of cat ids] assms by auto

section \<open>Sanitised configurations\<close>

definition schedule_ok :: "AppService list \<Rightarrow> Schedule \<Rightarrow> bool" where
  "schedule_ok cat s \<longleftrightarrow> validScheduleID (sc_ID s) \<and> sc_Days s \<noteq> [] \<and> sorted (sc_Days s) \<and> distinct (sc_Days s) \<and>
     (\<forall>d \<in> set (sc_Days s). 0 \<le> d \<and> d \<le> 6) \<and> clock_ok (sc_Start s) \<and> clock_ok (sc_End s) \<and> sc_Start s \<noteq> sc_End s \<and>
     (sc_Block s = BlockAll \<and> sc_Services s = [] \<or> sc_Block s = BlockServices \<and> sc_Services s \<noteq> []) \<and>
     sorted (sc_Services s) \<and> distinct (sc_Services s) \<and> length (sc_Services s) \<le> maxServices \<and>
     (\<forall>i \<in> set (sc_Services s). serviceIndex cat i \<noteq> None)"

definition config_ok :: "AppService list \<Rightarrow> Config \<Rightarrow> bool" where
  "config_ok cat c \<longleftrightarrow> sorted (cf_BlockedServices c) \<and> distinct (cf_BlockedServices c) \<and> length (cf_BlockedServices c) \<le> maxServices \<and>
     (\<forall>i \<in> set (cf_BlockedServices c). serviceIndex cat i \<noteq> None) \<and> length (cf_Schedules c) \<le> maxSchedules \<and>
     (\<forall>s \<in> set (cf_Schedules c). schedule_ok cat s) \<and> validYouTube (ss_YouTube (cf_SafeSearch c))"

lemma known_loop_ok:
  "distinct out \<Longrightarrow> length out \<le> maxServices \<Longrightarrow> (\<forall>i \<in> set out. serviceIndex cat i \<noteq> None) \<Longrightarrow>
   distinct (known_loop cat ids out) \<and> length (known_loop cat ids out) \<le> maxServices \<and>
   (\<forall>i \<in> set (known_loop cat ids out). serviceIndex cat i \<noteq> None)"
proof (induction ids arbitrary: out)
  case (Cons i ids)
  define out' where "out' = (if serviceIndex cat i \<noteq> None \<and> i \<notin> set out \<and> length out < maxServices then out @ [i] else out)"
  have "distinct out'" "length out' \<le> maxServices" "\<forall>i \<in> set out'. serviceIndex cat i \<noteq> None"
    using Cons.prems by (simp_all add: out'_def)
  from Cons.IH [OF this] show ?case unfolding known_loop.simps out'_def .
qed simp

lemma knownServices_ok:
  "sorted (knownServices cat ids) \<and> distinct (knownServices cat ids) \<and> length (knownServices cat ids) \<le> maxServices \<and>
   (\<forall>i \<in> set (knownServices cat ids). serviceIndex cat i \<noteq> None)"
  using known_loop_ok [of "[]" cat ids] by (simp add: knownServices_def)

lemma known_loop_id:
  "distinct (out @ ids) \<Longrightarrow> length (out @ ids) \<le> maxServices \<Longrightarrow> (\<forall>i \<in> set ids. serviceIndex cat i \<noteq> None) \<Longrightarrow>
   known_loop cat ids out = out @ ids"
proof (induction ids arbitrary: out)
  case (Cons i ids)
  have "known_loop cat (i # ids) out = known_loop cat ids (out @ [i])" using Cons.prems by simp
  also have "\<dots> = (out @ [i]) @ ids" by (rule Cons.IH) (use Cons.prems in simp_all)
  finally show ?case by simp
qed simp

lemma knownServices_id:
  "sorted ids \<Longrightarrow> distinct ids \<Longrightarrow> length ids \<le> maxServices \<Longrightarrow> (\<forall>i \<in> set ids. serviceIndex cat i \<noteq> None) \<Longrightarrow>
   knownServices cat ids = ids"
  by (simp add: knownServices_def known_loop_id sorted_sort_id)

lemma known_days_ok:
  "distinct out \<Longrightarrow> (\<forall>d \<in> set out. 0 \<le> d \<and> d \<le> 6) \<Longrightarrow>
   distinct (known_days ds out) \<and> (\<forall>d \<in> set (known_days ds out). 0 \<le> d \<and> d \<le> 6)"
proof (induction ds arbitrary: out)
  case (Cons d ds)
  define out' where "out' = (if 0 \<le> d \<and> d \<le> 6 \<and> d \<notin> set out then out @ [d] else out)"
  have "distinct out'" "\<forall>d \<in> set out'. 0 \<le> d \<and> d \<le> 6" using Cons.prems by (simp_all add: out'_def)
  from Cons.IH [OF this] show ?case unfolding known_days.simps out'_def .
qed simp

lemma known_days_id:
  "distinct (out @ ds) \<Longrightarrow> (\<forall>d \<in> set ds. 0 \<le> d \<and> d \<le> 6) \<Longrightarrow> known_days ds out = out @ ds"
  by (induction ds arbitrary: out) auto

lemma sanitize_schedule_ok: "sanitize_schedule cat s = Some s' \<Longrightarrow> schedule_ok cat s'"
  using knownServices_ok [of cat "sc_Services s"] known_days_ok [of "[]" "sc_Days s"]
  by (auto simp: sanitize_schedule_def schedule_ok_def Let_def split: if_splits)

lemma sanitize_schedule_id: "schedule_ok cat s \<Longrightarrow> sanitize_schedule cat s = Some s"
  by (auto simp: sanitize_schedule_def schedule_ok_def Let_def knownServices_id known_days_id sorted_sort_id BlockAll_def BlockServices_def)

lemma sanitize_schedules_ok:
  "(\<forall>s \<in> set (sanitize_schedules cat ss). schedule_ok cat s) \<and> length (sanitize_schedules cat ss) \<le> maxSchedules"
  by (induction ss rule: rev_induct) (auto simp: sanitize_schedules_def dest: sanitize_schedule_ok split: option.splits)

lemma sanitize_schedules_id:
  "(\<forall>s \<in> set ss. schedule_ok cat s) \<Longrightarrow> length ss \<le> maxSchedules \<Longrightarrow> sanitize_schedules cat ss = ss"
  by (induction ss rule: rev_induct) (auto simp: sanitize_schedules_def sanitize_schedule_id)

lemma sanitizeConfig_ok: "config_ok cat (sanitizeConfig cat c)"
  using knownServices_ok [of cat "cf_BlockedServices c"] sanitize_schedules_ok [of cat "cf_Schedules c"]
  by (auto simp: config_ok_def sanitizeConfig_def validYouTube_def)

lemma sanitizeConfig_id: "config_ok cat c \<Longrightarrow> sanitizeConfig cat c = c"
  by (simp add: config_ok_def sanitizeConfig_def knownServices_id sanitize_schedules_id)

section \<open>What a group's controls block\<close>

definition row_ok :: "AppService list \<Rightarrow> row \<Rightarrow> bool" where
  "row_ok cat r \<longleftrightarrow> config_ok cat (rw_cfg r) \<and> ov_Mode (rw_override r) \<in> {[], OverrideBlock, OverrideAllow}"

definition schedule_now :: "location \<Rightarrow> instant \<Rightarrow> Schedule \<Rightarrow> bool" where
  "schedule_now loc now s \<longleftrightarrow> sc_Enabled s \<and>
     window_covers (\<lambda>d. int d \<in> set (sc_Days s)) (clock_minutes (sc_Start s)) (clock_minutes (sc_End s)) (wall_minutes loc now)"

definition blocks_service :: "AppService list \<Rightarrow> string list \<Rightarrow> string \<Rightarrow> bool" where
  "blocks_service cat ids qname \<longleftrightarrow> (\<exists>k. serviceOf cat qname = Some k \<and> (\<exists>i \<in> set ids. serviceIndex cat i = Some k))"

definition group_blocks :: "AppService list \<Rightarrow> location \<Rightarrow> string \<Rightarrow> instant \<Rightarrow> row \<Rightarrow> bool" where
  "group_blocks cat loc qname now r \<longleftrightarrow>
     (if override_active (rw_override r) now then ov_Mode (rw_override r) = OverrideBlock
      else (\<exists>s \<in> set (cf_Schedules (rw_cfg r)). schedule_now loc now s \<and>
              (sc_Block s = BlockAll \<or> sc_Block s = BlockServices \<and> blocks_service cat (sc_Services s) qname)) \<or>
           blocks_service cat (cf_BlockedServices (rw_cfg r)) qname)"

lemma compile_active:
  assumes "schedule_ok cat s"
  shows "wd_active (compile_window cat s) (wallClock loc now) \<longleftrightarrow>
    window_covers (\<lambda>d. int d \<in> set (sc_Days s)) (clock_minutes (sc_Start s)) (clock_minutes (sc_End s)) (wall_minutes loc now)"
proof -
  let ?w = "compile_window cat s"
  have w: "wd_start ?w = clock_minutes (sc_Start s)" "wd_end ?w = clock_minutes (sc_End s)" "wd_days ?w = day_bits (sc_Days s)"
    by (simp_all add: compile_window_def)
  have ok: "clock_ok (sc_Start s)" "clock_ok (sc_End s)" "sc_Start s \<noteq> sc_End s" "\<forall>d \<in> set (sc_Days s). 0 \<le> d"
    using assms by (auto simp: schedule_ok_def)
  have day: "has_day ?w (weekday d) \<longleftrightarrow> int (weekday d) \<in> set (sc_Days s)" for d
    using bit_day_bits [of "weekday d" "sc_Days s"] weekday_less [of d] ok(4)
    by (simp only: has_day_def w bit_iff_and)
  have "wd_active ?w (wallClock loc now) \<longleftrightarrow>
      window_covers (has_day ?w) (clock_minutes (sc_Start s)) (clock_minutes (sc_End s)) (wall_minutes loc now)"
    unfolding w(1,2) [symmetric] using ParseClock_bounds [OF ok(1)] ParseClock_bounds [OF ok(2)] ParseClock_inj [OF ok(1,2)] ok(3) w(1,2)
    by (intro active_covers) auto
  then show ?thesis by (simp add: window_covers_def day)
qed

lemma find_is_Some: "(\<exists>x. find P xs = Some x) \<longleftrightarrow> (\<exists>x \<in> set xs. P x)"
  using find_None_all [of P xs] by (cases "find P xs") auto

text \<open>The loop body of \<^verbatim>\<open>Check\<close> decides what the specification of the group says.\<close>

lemma check_group_blocks:
  assumes "row_ok cat r"
  shows "check_group cat loc qname now (pc_compile cat r name) \<noteq> None \<longleftrightarrow> group_blocks cat loc qname now r"
proof -
  let ?c = "pc_compile cat r name" and ?S = "cf_Schedules (rw_cfg r)" and ?t = "wallClock loc now"
  have ok: "schedule_ok cat s" if "s \<in> set ?S" for s using assms that by (auto simp: row_ok_def config_ok_def)
  have block: "sc_Block s = BlockAll \<or> sc_Block s = BlockServices" if "s \<in> set ?S" for s
    using ok [OF that] by (auto simp: schedule_ok_def)
  have sel: "pr_override ?c = rw_override r" "pr_services ?c = serviceSet cat (cf_BlockedServices (rw_cfg r))"
    by (simp_all add: pc_compile_def Let_def)
  have all: "(\<exists>w \<in> set (pr_blockAll ?c). wd_active w ?t) \<longleftrightarrow> (\<exists>s \<in> set ?S. schedule_now loc now s \<and> sc_Block s = BlockAll)"
    using ok by (auto simp: pc_compile_def Let_def compile_active schedule_now_def)
  have svc: "(\<exists>w \<in> set (pr_blockSvc ?c). wd_services w ! k \<and> wd_active w ?t) \<longleftrightarrow>
      (\<exists>s \<in> set ?S. schedule_now loc now s \<and> sc_Block s = BlockServices \<and> (\<exists>i \<in> set (sc_Services s). serviceIndex cat i = Some k))"
    if k: "k < length cat" for k
  proof -
    have nth: "wd_services (compile_window cat s) ! k \<longleftrightarrow> (\<exists>i \<in> set (sc_Services s). serviceIndex cat i = Some k)"
      if "s \<in> set ?S" "sc_Block s \<noteq> BlockAll" for s
    proof -
      have "\<exists>i \<in> set (sc_Services s). serviceIndex cat i \<noteq> None" using ok [OF that(1)] that(2)
        by (cases "sc_Services s") (auto simp: schedule_ok_def)
      then have "serviceSet cat (sc_Services s) \<noteq> []" using serviceSet_cases [of cat "sc_Services s"] by (elim disjE) auto
      then show ?thesis using serviceSet_nth [OF k, of "sc_Services s"] that(2) by (simp add: compile_window_def)
    qed
    have neq: "sc_Block s \<noteq> BlockAll \<longleftrightarrow> sc_Block s = BlockServices" if "s \<in> set ?S" for s
      using block [OF that] by (auto simp: BlockAll_def BlockServices_def)
    have "(\<exists>w \<in> set (pr_blockSvc ?c). wd_services w ! k \<and> wd_active w ?t) \<longleftrightarrow>
        (\<exists>s \<in> set ?S. sc_Enabled s \<and> sc_Block s \<noteq> BlockAll \<and> wd_services (compile_window cat s) ! k \<and> wd_active (compile_window cat s) ?t)"
      by (auto simp: pc_compile_def Let_def)
    also have "\<dots> \<longleftrightarrow> (\<exists>s \<in> set ?S. schedule_now loc now s \<and> sc_Block s = BlockServices \<and> (\<exists>i \<in> set (sc_Services s). serviceIndex cat i = Some k))"
      using nth neq ok by (intro bex_cong refl) (auto simp: compile_active schedule_now_def)
    finally show ?thesis .
  qed
  show ?thesis
  proof (cases "override_active (rw_override r) now")
    case True
    then have "ov_Mode (rw_override r) = OverrideBlock \<or> ov_Mode (rw_override r) = OverrideAllow"
      using assms by (auto simp: row_ok_def override_active_def)
    then show ?thesis using True by (auto simp: check_group_def group_blocks_def sel Let_def OverrideAllow_def OverrideBlock_def)
  next
    case no: False
    show ?thesis
    proof (cases "find (\<lambda>w. wd_active w ?t) (pr_blockAll ?c)")
      case (Some w)
      then have "\<exists>w \<in> set (pr_blockAll ?c). wd_active w ?t" by (auto dest: find_SomeD)
      with all no Some show ?thesis by (auto simp: check_group_def group_blocks_def sel Let_def)
    next
      case None
      then have noall: "\<not> (\<exists>s \<in> set ?S. schedule_now loc now s \<and> sc_Block s = BlockAll)"
        using all by (auto simp: find_None_all)
      show ?thesis
      proof (cases "serviceOf cat qname")
        case q: None
        then show ?thesis using None no noall by (auto simp: check_group_def group_blocks_def sel Let_def blocks_service_def)
      next
        case (Some k)
        then have k: "k < length cat" by (rule serviceOf_less)
        have "group_blocks cat loc qname now r \<longleftrightarrow>
            (\<exists>w \<in> set (pr_blockSvc ?c). wd_services w ! k \<and> wd_active w ?t) \<or> pr_services ?c \<noteq> [] \<and> pr_services ?c ! k"
          using svc [OF k] serviceSet_nth [OF k, of "cf_BlockedServices (rw_cfg r)"] noall no Some
          by (auto simp: group_blocks_def blocks_service_def sel)
        moreover have "check_group cat loc qname now ?c \<noteq> None \<longleftrightarrow>
            (\<exists>w \<in> set (pr_blockSvc ?c). wd_services w ! k \<and> wd_active w ?t) \<or> pr_services ?c \<noteq> [] \<and> pr_services ?c ! k"
          using no None Some find_is_Some [of "\<lambda>w. wd_services w ! k \<and> wd_active w ?t" "pr_blockSvc ?c"]
          by (auto simp: check_group_def Let_def sel(1))
        ultimately show ?thesis by blast
      qed
    qed
  qed
qed

text \<open>A group left out of the snapshot blocks nothing.\<close>

lemma not_restricts:
  assumes "row_ok cat r" and "\<not> restricts (pc_compile cat r name)"
  shows "\<not> group_blocks cat loc qname now r"
proof -
  have "check_group cat loc qname now (pc_compile cat r name) = None"
    using assms by (auto simp: check_group_def restricts_def row_ok_def override_active_def pc_compile_def Let_def OverrideBlock_def split: option.split)
  with check_group_blocks [OF assms(1)] show ?thesis by blast
qed

section \<open>The snapshot\<close>

lemma snap_row_simps [simp]:
  "ps_groups (snap_row cat names r s) = (let c = pc_compile cat r (names (rw_groupID r)) in
     if restricts c then (ps_groups s)(rw_groupID r \<mapsto> c) else ps_groups s)"
  "ps_safe (snap_row cat names r s) = (case compileSafeSearch (rw_groupID r) (names (rw_groupID r)) (cf_SafeSearch (rw_cfg r)) of
     Some g \<Rightarrow> (ps_safe s)(rw_groupID r \<mapsto> g) | None \<Rightarrow> ps_safe s)"
  "ps_pauses (snap_row cat names r s) = (if rw_pauseUntil r \<noteq> zero_time
     then (ps_pauses s)(rw_groupID r \<mapsto> \<lparr>gp_name = names (rw_groupID r), gp_until = rw_pauseUntil r\<rparr>) else ps_pauses s)"
  by (simp_all add: snap_row_def Let_def pc_compile_def split: option.split)

lemma newSnapshot_snoc: "pc_newSnapshot cat (rows @ [r]) names = snap_row cat names r (pc_newSnapshot cat rows names)"
  by (simp add: pc_newSnapshot_def)

lemma find_new_row: "distinct (map rw_groupID (rows @ [r])) \<Longrightarrow> find (\<lambda>r'. rw_groupID r' = rw_groupID r) rows = None"
  by (auto simp: find_None_all) (metis imageI)

lemma snapshot_groups:
  assumes "distinct (map rw_groupID rows)"
  shows "ps_groups (pc_newSnapshot cat rows names) g =
    (case find (\<lambda>r. rw_groupID r = g) rows of None \<Rightarrow> None
     | Some r \<Rightarrow> let c = pc_compile cat r (names g) in if restricts c then Some c else None)"
  using assms
proof (induction rows rule: rev_induct)
  case (snoc r rows)
  then show ?case using find_new_row [OF snoc.prems]
    by (auto simp: newSnapshot_snoc Let_def find_append split: option.split)
qed (simp add: pc_newSnapshot_def empty_snapshot_def)

lemma snapshot_safe:
  assumes "distinct (map rw_groupID rows)"
  shows "ps_safe (pc_newSnapshot cat rows names) g =
    (case find (\<lambda>r. rw_groupID r = g) rows of None \<Rightarrow> None | Some r \<Rightarrow> compileSafeSearch g (names g) (cf_SafeSearch (rw_cfg r)))"
  using assms
proof (induction rows rule: rev_induct)
  case (snoc r rows)
  then show ?case using find_new_row [OF snoc.prems]
    by (auto simp: newSnapshot_snoc find_append split: option.split)
qed (simp add: pc_newSnapshot_def empty_snapshot_def)

lemma snapshot_pauses:
  assumes "distinct (map rw_groupID rows)"
  shows "ps_pauses (pc_newSnapshot cat rows names) g =
    (case find (\<lambda>r. rw_groupID r = g) rows of None \<Rightarrow> None
     | Some r \<Rightarrow> if rw_pauseUntil r \<noteq> zero_time then Some \<lparr>gp_name = names g, gp_until = rw_pauseUntil r\<rparr> else None)"
  using assms
proof (induction rows rule: rev_induct)
  case (snoc r rows)
  then show ?case using find_new_row [OF snoc.prems]
    by (auto simp: newSnapshot_snoc find_append split: option.split)
qed (simp add: pc_newSnapshot_def empty_snapshot_def)

lemma find_row:
  assumes "distinct (map rw_groupID rows)"
  shows "find (\<lambda>r. rw_groupID r = g) rows = Some r \<longleftrightarrow> r \<in> set rows \<and> rw_groupID r = g"
proof
  assume "find (\<lambda>r. rw_groupID r = g) rows = Some r"
  then show "r \<in> set rows \<and> rw_groupID r = g" by (auto dest: find_SomeD)
next
  assume r: "r \<in> set rows \<and> rw_groupID r = g"
  then obtain r' where r': "find (\<lambda>r. rw_groupID r = g) rows = Some r'"
    by (cases "find (\<lambda>r. rw_groupID r = g) rows") (auto simp: find_None_all)
  then have "r' \<in> set rows \<and> rw_groupID r' = g" by (auto dest: find_SomeD)
  with r assms have "r' = r" by (auto simp: distinct_map dest: inj_onD)
  with r' show "find (\<lambda>r. rw_groupID r = g) rows = Some r" by simp
qed

lemma pc_Check_blocked:
  assumes "distinct (map rw_groupID rows)" and "\<forall>r \<in> set rows. row_ok cat r"
  shows "pd_Blocked (pc_Check cat loc (pc_newSnapshot cat rows names) qname gids now) \<longleftrightarrow>
    (\<exists>r \<in> set rows. rw_groupID r \<in> set gids \<and> group_blocks cat loc qname now r)"
proof -
  let ?s = "pc_newSnapshot cat rows names"
  let ?f = "\<lambda>g. case ps_groups ?s g of None \<Rightarrow> None | Some r \<Rightarrow> check_group cat loc qname now r"
  have blocked: "pd_Blocked d" if "check_group cat loc qname now c = Some d" for c d
    using that by (auto simp: check_group_def Let_def split: if_splits option.splits)
  have "pd_Blocked (pc_Check cat loc ?s qname gids now) \<longleftrightarrow> (\<exists>g \<in> set gids. ?f g \<noteq> None)"
  proof (cases "first_some ?f gids")
    case None
    then have "\<forall>g \<in> set gids. ?f g = None" by (simp only: first_some_None)
    with None show ?thesis by (auto simp: pc_Check_def no_pcDecision_def)
  next
    case (Some d)
    then obtain g where g: "g \<in> set gids" "?f g = Some d" using first_some_SomeD by fast
    then have "pd_Blocked d" by (auto split: option.splits dest: blocked)
    with Some g show ?thesis by (auto simp: pc_Check_def)
  qed
  also have "\<dots> \<longleftrightarrow> (\<exists>r \<in> set rows. rw_groupID r \<in> set gids \<and> group_blocks cat loc qname now r)"
  proof -
    have f: "?f (rw_groupID r) \<noteq> None \<longleftrightarrow> group_blocks cat loc qname now r" if "r \<in> set rows" for r
    proof -
      have "find (\<lambda>r'. rw_groupID r' = rw_groupID r) rows = Some r" using that find_row [OF assms(1)] by blast
      moreover have "row_ok cat r" using that assms(2) by blast
      ultimately show ?thesis
        using check_group_blocks [of cat r loc qname now] not_restricts [of cat r _ loc qname now]
        by (auto simp: snapshot_groups [OF assms(1)] Let_def)
    qed
    have "\<exists>r \<in> set rows. rw_groupID r = g" if "?f g \<noteq> None" for g
      using that by (auto simp: snapshot_groups [OF assms(1)] dest: find_SomeD split: option.splits)
    then show ?thesis using f by blast
  qed
  finally show ?thesis .
qed

section \<open>The end of a block\<close>

lemma latest_end_mono:
  "t \<le> latest_end r loc t \<and>
   (\<forall>w \<in> set (pr_blockAll r). \<forall>sp \<in> set (window_spans w loc t (-1) 0). sp_start sp \<le> t \<longrightarrow> sp_end sp \<le> latest_end r loc t)"
proof -
  have "nxt \<le> fold (\<lambda>sp nxt. if sp_start sp \<le> t \<and> nxt < sp_end sp then sp_end sp else nxt) sps nxt \<and>
      (\<forall>sp \<in> set sps. sp_start sp \<le> t \<longrightarrow> sp_end sp \<le> fold (\<lambda>sp nxt. if sp_start sp \<le> t \<and> nxt < sp_end sp then sp_end sp else nxt) sps nxt)"
    for sps nxt
  proof (induction sps arbitrary: nxt)
    case (Cons sp sps)
    show ?case using Cons.IH [of "if sp_start sp \<le> t \<and> nxt < sp_end sp then sp_end sp else nxt"] by (auto split: if_splits)
  qed simp
  from this [of t "concat (map (\<lambda>w. window_spans w loc t (-1) 0) (pr_blockAll r))"] show ?thesis
    unfolding latest_end_def by (simp only: set_concat set_map) blast
qed

lemma block_loop_end:
  "t \<le> block_loop r loc limit t \<and>
   (limit \<le> block_loop r loc limit t \<or> latest_end r loc (block_loop r loc limit t) = block_loop r loc limit t)"
proof (induction r loc limit t rule: block_loop.induct)
  case (1 r loc limit t)
  show ?case
  proof (cases "t < limit \<and> t < latest_end r loc t")
    case True
    then have "block_loop r loc limit t = block_loop r loc limit (latest_end r loc t)" by (subst block_loop.simps) (simp add: Let_def)
    with 1 True show ?thesis by force
  next
    case False
    then have "block_loop r loc limit t = t" by (subst block_loop.simps) (auto simp: Let_def)
    with False latest_end_mono [of t r loc] show ?thesis by force
  qed
qed

lemma blockAllUntil_end:
  assumes "blockAllUntil r loc t < t + maxOverride" and "w \<in> set (pr_blockAll r)" and "sp \<in> set (window_spans w loc (blockAllUntil r loc t) (-1) 0)"
  shows "\<not> (sp_start sp \<le> blockAllUntil r loc t \<and> blockAllUntil r loc t < sp_end sp)"
  using block_loop_end [of t r loc "t + maxOverride"] latest_end_mono [of "blockAllUntil r loc t" r loc] assms
  by (fastforce simp: blockAllUntil_def)

section \<open>Safe search is the union over the groups\<close>

fun engine_on :: "searchEngine \<Rightarrow> SafeSearch \<Rightarrow> bool" where
  "engine_on engineGoogle s = ss_Google s"
| "engine_on engineBing s = ss_Bing s"
| "engine_on engineDuckDuckGo s = ss_DuckDuckGo s"
| "engine_on engineEcosia s = ss_Ecosia s"
| "engine_on engineYandex s = ss_Yandex s"
| "engine_on enginePixabay s = ss_Pixabay s"
| "engine_on engineYouTube s = False"

definition youtube_level :: "SafeSearch \<Rightarrow> u8" where
  "youtube_level s = (if ss_YouTube s = YouTubeModerate then youTubeModerate
     else if ss_YouTube s = YouTubeStrict then youTubeStrict else youTubeOff)"

lemma compileSafeSearch_engines:
  "(case compileSafeSearch i n s of None \<Rightarrow> False | Some g \<Rightarrow> sg_engines g AND push_bit (engine_bit e) 1 \<noteq> 0) \<longleftrightarrow> engine_on e s"
  unfolding bit_iff_and
  by (cases e) (auto simp: compileSafeSearch_def Let_def bit_or_iff bit_exp_iff bit_1_iff split: if_splits)

lemma compileSafeSearch_youtube:
  "(case compileSafeSearch i n s of None \<Rightarrow> youTubeOff | Some g \<Rightarrow> sg_youtube g) = youtube_level s"
  by (simp add: compileSafeSearch_def youtube_level_def Let_def)

lemma compileSafeSearch_id: "compileSafeSearch i n s = Some g \<Longrightarrow> sg_id g = i \<and> sg_name g = n"
  by (auto simp: compileSafeSearch_def Let_def split: if_splits)

definition better :: "safeGroup option \<Rightarrow> safeGroup option \<Rightarrow> safeGroup option" where
  "better x best = (case x of None \<Rightarrow> best
     | Some g \<Rightarrow> (case best of None \<Rightarrow> Some g | Some b \<Rightarrow> if sg_youtube b < sg_youtube g then Some g else best))"

definition level :: "safeGroup option \<Rightarrow> u8" where
  "level x = (case x of None \<Rightarrow> youTubeOff | Some g \<Rightarrow> sg_youtube g)"

lemma level_better: "level (better x b) = max (level b) (level x)"
  by (auto simp: better_def level_def youTubeOff_def max_def split: option.splits)

lemma level_fold: "level (fold (\<lambda>g. better (s g)) gids b) = Max (insert (level b) ((\<lambda>g. level (s g)) ` set gids))"
proof (induction gids arbitrary: b)
  case (Cons g gids)
  then show ?case by (cases "gids = []") (simp_all add: level_better Max_insert max.assoc)
qed simp

lemma best_youtube_level: "level (best_youtube s gids) = Max (insert youTubeOff ((\<lambda>g. level (ps_safe s g)) ` set gids))"
proof -
  have "best_youtube s gids = fold (\<lambda>g. better (ps_safe s g)) gids None"
    unfolding best_youtube_def by (rule arg_cong [where f = "\<lambda>f. fold f gids None"]) (simp add: fun_eq_iff better_def)
  then show ?thesis by (simp add: level_fold) (simp add: level_def)
qed

definition safe_settings :: "row list \<Rightarrow> int list \<Rightarrow> SafeSearch set" where
  "safe_settings rows gids = {cf_SafeSearch (rw_cfg r) | r. r \<in> set rows \<and> rw_groupID r \<in> set gids}"

lemma max_level:
  fixes S :: "u8 set"
  assumes "finite S" and "S \<subseteq> {youTubeOff, youTubeModerate, youTubeStrict}"
  shows "Max (insert youTubeOff S) = (if youTubeStrict \<in> S then youTubeStrict else if youTubeModerate \<in> S then youTubeModerate else youTubeOff)"
proof (rule Max_eqI)
  fix y assume "y \<in> insert youTubeOff S"
  then have "y = youTubeOff \<or> y = youTubeModerate \<and> y \<in> S \<or> y = youTubeStrict \<and> y \<in> S" using assms(2) by auto
  then show "y \<le> (if youTubeStrict \<in> S then youTubeStrict else if youTubeModerate \<in> S then youTubeModerate else youTubeOff)"
    by (auto simp: youTubeOff_def youTubeModerate_def youTubeStrict_def)
qed (use assms in auto)

lemma settings_image:
  assumes "distinct (map rw_groupID rows)"
  shows "insert youTubeOff ((\<lambda>g. level (ps_safe (pc_newSnapshot cat rows names) g)) ` set gids) =
    insert youTubeOff (youtube_level ` safe_settings rows gids)"
proof -
  let ?l = "\<lambda>g. level (ps_safe (pc_newSnapshot cat rows names) g)"
  have row: "?l (rw_groupID r) = youtube_level (cf_SafeSearch (rw_cfg r))" if "r \<in> set rows" for r
  proof -
    have "find (\<lambda>r'. rw_groupID r' = rw_groupID r) rows = Some r" using that find_row [OF assms] by blast
    then show ?thesis by (simp add: snapshot_safe [OF assms] level_def compileSafeSearch_youtube)
  qed
  have none: "?l g = youTubeOff" if "\<not> (\<exists>r \<in> set rows. rw_groupID r = g)" for g
  proof -
    have "find (\<lambda>r. rw_groupID r = g) rows = None" using that by (auto simp: find_None_all)
    then show ?thesis by (simp add: snapshot_safe [OF assms] level_def)
  qed
  have "?l g \<in> insert youTubeOff (youtube_level ` safe_settings rows gids)" if "g \<in> set gids" for g
    using row none [of g] that by (cases "\<exists>r \<in> set rows. rw_groupID r = g") (auto simp: safe_settings_def)
  moreover have "youtube_level s \<in> ?l ` set gids" if "s \<in> safe_settings rows gids" for s
    using that row by (auto simp: safe_settings_def) (metis imageI)
  ultimately show ?thesis by blast
qed

lemma youtube_level_range: "youtube_level s \<in> {youTubeOff, youTubeModerate, youTubeStrict}"
  by (simp add: youtube_level_def)

lemma youtube_levels:
  "youTubeStrict = youtube_level s \<longleftrightarrow> ss_YouTube s = YouTubeStrict"
  "youTubeModerate = youtube_level s \<longleftrightarrow> ss_YouTube s = YouTubeModerate"
  by (auto simp: youtube_level_def youTubeOff_def youTubeModerate_def youTubeStrict_def YouTubeModerate_def YouTubeStrict_def)

lemma best_youtube_settings:
  assumes "distinct (map rw_groupID rows)"
  shows "level (best_youtube (pc_newSnapshot cat rows names) gids) =
    (if \<exists>s \<in> safe_settings rows gids. ss_YouTube s = YouTubeStrict then youTubeStrict
     else if \<exists>s \<in> safe_settings rows gids. ss_YouTube s = YouTubeModerate then youTubeModerate else youTubeOff)"
proof -
  have fin: "finite (safe_settings rows gids)"
    by (rule finite_subset [of _ "(\<lambda>r. cf_SafeSearch (rw_cfg r)) ` set rows"]) (auto simp: safe_settings_def)
  have "level (best_youtube (pc_newSnapshot cat rows names) gids) = Max (insert youTubeOff (youtube_level ` safe_settings rows gids))"
    by (simp only: best_youtube_level settings_image [OF assms])
  also have "\<dots> = (if youTubeStrict \<in> youtube_level ` safe_settings rows gids then youTubeStrict
      else if youTubeModerate \<in> youtube_level ` safe_settings rows gids then youTubeModerate else youTubeOff)"
    using fin youtube_level_range by (intro max_level) auto
  finally show ?thesis by (simp only: image_iff youtube_levels)
qed

lemma engine_lookup:
  assumes "distinct (map rw_groupID rows)" and "e \<noteq> engineYouTube" and "safeSearchTable q = Some e"
  shows "map_option sr_Target (lookupSafeSearch (pc_newSnapshot cat rows names) q gids) =
    (if \<exists>s \<in> safe_settings rows gids. engine_on e s then Some (engineTargets e) else None)"
proof -
  let ?s = "pc_newSnapshot cat rows names"
  let ?on = "\<lambda>g. case ps_safe ?s g of None \<Rightarrow> False | Some g \<Rightarrow> sg_engines g AND push_bit (engine_bit e) 1 \<noteq> 0"
  have "?on g \<longleftrightarrow> (\<exists>r \<in> set rows. rw_groupID r = g \<and> engine_on e (cf_SafeSearch (rw_cfg r)))" for g
  proof (cases "find (\<lambda>r. rw_groupID r = g) rows")
    case None
    then have "\<forall>r \<in> set rows. rw_groupID r \<noteq> g" by (simp add: find_None_all)
    with None show ?thesis by (simp add: snapshot_safe [OF assms(1)])
  next
    case (Some r)
    then have r: "r' \<in> set rows \<and> rw_groupID r' = g \<longleftrightarrow> r' = r" for r'
      using find_row [OF assms(1), of g] by (metis option.inject)
    have "?on g \<longleftrightarrow> engine_on e (cf_SafeSearch (rw_cfg r))"
      by (simp only: snapshot_safe [OF assms(1)] Some option.case compileSafeSearch_engines)
    also have "\<dots> \<longleftrightarrow> (\<exists>r' \<in> set rows. rw_groupID r' = g \<and> engine_on e (cf_SafeSearch (rw_cfg r')))"
      using r by metis
    finally show ?thesis .
  qed
  then have on: "(\<exists>g \<in> set gids. ?on g) \<longleftrightarrow> (\<exists>s \<in> safe_settings rows gids. engine_on e s)"
    by (auto simp: safe_settings_def)
  let ?f = "\<lambda>gid. case ps_safe ?s gid of None \<Rightarrow> None
     | Some g \<Rightarrow> if sg_engines g AND push_bit (engine_bit e) 1 \<noteq> 0
         then Some \<lparr>sr_Target = engineTargets e, sr_Label = engineLabels e, sr_GroupID = sg_id g, sr_Group = sg_name g\<rparr> else None"
  have f: "?f g = None \<longleftrightarrow> \<not> ?on g" "?f g = Some x \<Longrightarrow> sr_Target x = engineTargets e" for g x
    by (auto split: option.splits if_splits)
  have "map_option sr_Target (first_some ?f gids) = (if \<exists>g \<in> set gids. ?on g then Some (engineTargets e) else None)"
  proof (cases "first_some ?f gids")
    case None
    then have "\<forall>g \<in> set gids. ?f g = None" by (simp only: first_some_None)
    with None f(1) show ?thesis by auto
  next
    case (Some x)
    then obtain g where "g \<in> set gids" "?f g = Some x" using first_some_SomeD by fast
    with Some f(1) [of g] f(2) [of g x] show ?thesis by auto
  qed
  then show ?thesis using assms(2,3) by (simp add: lookupSafeSearch_def on)
qed

text \<open>
  C21: safe search takes the union of the groups' settings: a name of an engine is rewritten to the engine's restricted
  host exactly when a group of the client enables it, for YouTube to the strict host when some group asks for strict,
  else to the moderate one when some group asks for moderate, and no other name is rewritten.
\<close>

theorem safe_search_union:
  assumes "distinct (map rw_groupID rows)"
  shows "map_option sr_Target (lookupSafeSearch (pc_newSnapshot cat rows names) q gids) =
    (case safeSearchTable q of
       None \<Rightarrow> None
     | Some e \<Rightarrow>
         if e = engineYouTube then
           (if \<exists>s \<in> safe_settings rows gids. ss_YouTube s = YouTubeStrict then Some targetYouTubeStrict
            else if \<exists>s \<in> safe_settings rows gids. ss_YouTube s = YouTubeModerate then Some targetYouTubeMod else None)
         else if \<exists>s \<in> safe_settings rows gids. engine_on e s then Some (engineTargets e) else None)"
proof (cases "safeSearchTable q = Some engineYouTube")
  case True
  then have "map_option sr_Target (lookupSafeSearch (pc_newSnapshot cat rows names) q gids) =
      (let l = level (best_youtube (pc_newSnapshot cat rows names) gids) in
       if l = youTubeOff then None else if l = youTubeStrict then Some targetYouTubeStrict else Some targetYouTubeMod)"
    by (simp add: lookupSafeSearch_def level_def Let_def split: option.split)
  then show ?thesis
    using True by (simp add: best_youtube_settings [OF assms] youTubeOff_def youTubeModerate_def youTubeStrict_def)
next
  case False
  then show ?thesis using engine_lookup [OF assms] by (auto simp: lookupSafeSearch_def split: option.split)
qed

definition ex_safe :: SafeSearch where
  "ex_safe = \<lparr>ss_Google = True, ss_YouTube = YouTubeModerate, ss_Bing = False, ss_DuckDuckGo = False, ss_Ecosia = False,
     ss_Yandex = False, ss_Pixabay = False\<rparr>"

definition ex_schedule :: Schedule where
  "ex_schedule = \<lparr>sc_ID = ''00c0ffee'', sc_Name = ''Bedtime'', sc_Enabled = True, sc_Days = [5, 6], sc_Start = ''21:00'',
     sc_End = ''07:00'', sc_Block = BlockAll, sc_Services = []\<rparr>"

definition ex_cat :: "AppService list" where
  "ex_cat = [\<lparr>as_ID = ''twitch'', as_Name = ''Twitch'', as_Domains = [''twitch.tv'']\<rparr>, \<lparr>as_ID = ''youtube'', as_Name = ''YouTube'', as_Domains = [''youtube.com'', ''youtu.be'']\<rparr>]"

definition ex_row :: row where
  "ex_row = \<lparr>rw_groupID = 3, rw_cfg = \<lparr>cf_BlockedServices = [''youtube''], cf_Schedules = [ex_schedule], cf_SafeSearch = ex_safe\<rparr>,
     rw_override = \<lparr>ov_Mode = [], ov_Until = zero_time\<rparr>, rw_pauseUntil = zero_time, rw_updated = zero_time\<rparr>"

lemma ex_table: "safeSearchTable ''m.youtube.com'' = Some engineYouTube"
  by code_simp

theorem safe_search_union_witness:
  "map_option sr_Target (lookupSafeSearch (pc_newSnapshot ex_cat [ex_row] (\<lambda>_. ''Kids'')) ''m.youtube.com'' [1, 3]) =
   Some ''restrictmoderate.youtube.com''"
proof -
  have "safe_settings [ex_row] [1, 3] = {ex_safe}"
    by (auto simp: safe_settings_def ex_row_def)
  then show ?thesis
    using safe_search_union [of "[ex_row]" ex_cat "\<lambda>_. ''Kids''" "''m.youtube.com''" "[1, 3]"]
    by (simp add: ex_table ex_safe_def YouTubeModerate_def YouTubeStrict_def targetYouTubeMod_def)
qed

end
