(* ===== verification/ParentalStore.thy ===== *)
theory ParentalStore
  imports Parental
begin

text \<open>
  The stored side of the parental controls, \<^verbatim>\<open>internal/dns/parental/store.go\<close> and the operations of
  \<^verbatim>\<open>parental.go\<close>: validation of what the API sends, the table, the transaction that every write runs in (unknown
  groups refused, elapsed overrides and pauses removed, snapshot rebuilt) and the state that the queries read. Each
  operation is one atomic step, as the engine's mutex makes it; failures of the database are not modelled.
\<close>

section \<open>Validation\<close>

definition maxNameLen :: nat where "maxNameLen = 40"
definition maxPause :: duration where "maxPause = maxOverride"

datatype parental_error = UnknownGroup int | InvalidField string

text \<open>
  The decoder of package \<^verbatim>\<open>unicode/utf8\<close>: the runes of a byte string, none when it is not valid UTF-8 (overlong forms,
  surrogates and values above 10FFFF are invalid).
\<close>

definition utf8_cont :: "nat \<Rightarrow> bool" where
  "utf8_cont b \<longleftrightarrow> 128 \<le> b \<and> b < 192"

fun utf8_runes :: "nat list \<Rightarrow> nat list option" where
  "utf8_runes [] = Some []"
| "utf8_runes (a # bs) =
     (if a < 128 then map_option (Cons a) (utf8_runes bs)
      else if 194 \<le> a \<and> a < 224 then
        (case bs of b # r \<Rightarrow> if utf8_cont b then map_option (Cons ((a - 192) * 64 + (b - 128))) (utf8_runes r) else None | _ \<Rightarrow> None)
      else if 224 \<le> a \<and> a < 240 then
        (case bs of b # c # r \<Rightarrow>
           let v = (a - 224) * 4096 + (b - 128) * 64 + (c - 128) in
           if utf8_cont b \<and> utf8_cont c \<and> 2048 \<le> v \<and> (v < 55296 \<or> 57343 < v) then map_option (Cons v) (utf8_runes r) else None
         | _ \<Rightarrow> None)
      else if 240 \<le> a \<and> a < 245 then
        (case bs of b # c # d # r \<Rightarrow>
           let v = (a - 240) * 262144 + (b - 128) * 4096 + (c - 128) * 64 + (d - 128) in
           if utf8_cont b \<and> utf8_cont c \<and> utf8_cont d \<and> 65536 \<le> v \<and> v \<le> 1114111 then map_option (Cons v) (utf8_runes r) else None
         | _ \<Rightarrow> None)
      else None)"

definition is_control :: "nat \<Rightarrow> bool" where
  "is_control r \<longleftrightarrow> r < 32 \<or> 127 \<le> r \<and> r < 160"

definition cleanName :: "string \<Rightarrow> string \<Rightarrow> parental_error + string" where
  "cleanName field s0 =
     (let s = strings_TrimSpace s0 in
      if s = [] then Inl (InvalidField field)
      else case utf8_runes (map of_char s) of
        None \<Rightarrow> Inl (InvalidField field)
      | Some rs \<Rightarrow>
          if length rs > maxNameLen then Inl (InvalidField field)
          else if list_ex is_control rs then Inl (InvalidField field)
          else Inr s)"

fun services_loop :: "AppService list \<Rightarrow> string \<Rightarrow> string list \<Rightarrow> string list \<Rightarrow> parental_error + string list" where
  "services_loop cat field [] out = Inr out"
| "services_loop cat field (i # ids) out =
     (if serviceIndex cat i = None then Inl (InvalidField field)
      else services_loop cat field ids (if i \<in> set out then out else out @ [i]))"

definition validServices :: "AppService list \<Rightarrow> string \<Rightarrow> string list \<Rightarrow> nat \<Rightarrow> parental_error + string list" where
  "validServices cat field ids mn =
     (case services_loop cat field ids [] of
        Inl e \<Rightarrow> Inl e
      | Inr out \<Rightarrow>
          if length out < mn then Inl (InvalidField field)
          else if length out > maxServices then Inl (InvalidField field)
          else Inr (sort out))"

fun days_loop :: "string \<Rightarrow> int list \<Rightarrow> int list \<Rightarrow> parental_error + int list" where
  "days_loop field [] out = Inr out"
| "days_loop field (d # ds) out =
     (if d < 0 \<or> d > 6 then Inl (InvalidField field)
      else days_loop field ds (if d \<in> set out then out else out @ [d]))"

definition validDays :: "string \<Rightarrow> int list \<Rightarrow> parental_error + int list" where
  "validDays field ds =
     (case days_loop field ds [] of
        Inl e \<Rightarrow> Inl e
      | Inr out \<Rightarrow> if out = [] then Inl (InvalidField field) else Inr (sort out))"

definition sched_field :: "nat \<Rightarrow> string \<Rightarrow> string" where
  "sched_field i member = ''schedules['' @ decimal i @ ''].'' @ member"

text \<open>
  One schedule of \<^verbatim>\<open>validateConfig\<close>; \<open>newScheduleID\<close>, which draws random ids until one is unused, is an argument.
\<close>

definition validate_schedule ::
  "(string set \<Rightarrow> string) \<Rightarrow> AppService list \<Rightarrow> nat \<Rightarrow> string set \<Rightarrow> Schedule \<Rightarrow> parental_error + Schedule" where
  "validate_schedule newScheduleID cat i used s =
     (case cleanName (sched_field i ''name'') (sc_Name s) of
        Inl e \<Rightarrow> Inl e
      | Inr name \<Rightarrow>
     (case validDays (sched_field i ''days'') (sc_Days s) of
        Inl e \<Rightarrow> Inl e
      | Inr days \<Rightarrow>
     if \<not> clock_ok (sc_Start s) then Inl (InvalidField (sched_field i ''start''))
     else if \<not> clock_ok (sc_End s) then Inl (InvalidField (sched_field i ''end''))
     else if sc_End s = sc_Start s then Inl (InvalidField (sched_field i ''end''))
     else
       (case (if sc_Block s = BlockAll
              then if length (sc_Services s) > 0 then Inl (InvalidField (sched_field i ''services'')) else Inr []
              else if sc_Block s = BlockServices then validServices cat (sched_field i ''services'') (sc_Services s) 1
              else Inl (InvalidField (sched_field i ''block''))) of
          Inl e \<Rightarrow> Inl e
        | Inr svcs \<Rightarrow>
            Inr \<lparr>sc_ID = (if \<not> validScheduleID (sc_ID s) \<or> sc_ID s \<in> used then newScheduleID used else sc_ID s), sc_Name = name,
              sc_Enabled = sc_Enabled s, sc_Days = days, sc_Start = sc_Start s, sc_End = sc_End s, sc_Block = sc_Block s,
              sc_Services = svcs\<rparr>)))"

fun validate_schedules ::
  "(string set \<Rightarrow> string) \<Rightarrow> AppService list \<Rightarrow> nat \<Rightarrow> string set \<Rightarrow> Schedule list \<Rightarrow> Schedule list \<Rightarrow> parental_error + Schedule list" where
  "validate_schedules newScheduleID cat i used [] out = Inr out"
| "validate_schedules newScheduleID cat i used (s # ss) out =
     (case validate_schedule newScheduleID cat i used s of
        Inl e \<Rightarrow> Inl e
      | Inr v \<Rightarrow> validate_schedules newScheduleID cat (Suc i) (insert (sc_ID v) used) ss (out @ [v]))"

definition no_safe :: SafeSearch where
  "no_safe = \<lparr>ss_Google = False, ss_YouTube = [], ss_Bing = False, ss_DuckDuckGo = False, ss_Ecosia = False, ss_Yandex = False,
     ss_Pixabay = False\<rparr>"

definition validateConfig :: "(string set \<Rightarrow> string) \<Rightarrow> AppService list \<Rightarrow> Config \<Rightarrow> parental_error + Config" where
  "validateConfig newScheduleID cat c =
     (case validServices cat ''blockedServices'' (cf_BlockedServices c) 0 of
        Inl e \<Rightarrow> Inl e
      | Inr svcs \<Rightarrow>
          if length (cf_Schedules c) > maxSchedules then Inl (InvalidField ''schedules'')
          else case validate_schedules newScheduleID cat 0 {} (cf_Schedules c) [] of
              Inl e \<Rightarrow> Inl e
            | Inr ss \<Rightarrow> Inr \<lparr>cf_BlockedServices = svcs, cf_Schedules = ss, cf_SafeSearch = no_safe\<lparr>ss_YouTube := YouTubeOff\<rparr>\<rparr>)"

record SafeSearchInput =
  si_Google :: "bool option"
  si_YouTube :: "string option"
  si_Bing :: "bool option"
  si_DuckDuckGo :: "bool option"
  si_Ecosia :: "bool option"
  si_Yandex :: "bool option"
  si_Pixabay :: "bool option"

definition si_validate :: "SafeSearchInput option \<Rightarrow> parental_error option" where
  "si_validate inp =
     (case inp of
        Some s \<Rightarrow> (case si_YouTube s of
            Some v \<Rightarrow> if validYouTube v then None else Some (InvalidField ''safeSearch.youtube'')
          | None \<Rightarrow> None)
      | None \<Rightarrow> None)"

definition si_set :: "'a option \<Rightarrow> 'a \<Rightarrow> 'a" where
  "si_set v dst = (case v of Some x \<Rightarrow> x | None \<Rightarrow> dst)"

definition si_apply :: "SafeSearchInput option \<Rightarrow> SafeSearch \<Rightarrow> SafeSearch" where
  "si_apply inp s =
     (case inp of
        None \<Rightarrow> s
      | Some i \<Rightarrow> \<lparr>ss_Google = si_set (si_Google i) (ss_Google s), ss_YouTube = si_set (si_YouTube i) (ss_YouTube s),
          ss_Bing = si_set (si_Bing i) (ss_Bing s), ss_DuckDuckGo = si_set (si_DuckDuckGo i) (ss_DuckDuckGo s),
          ss_Ecosia = si_set (si_Ecosia i) (ss_Ecosia s), ss_Yandex = si_set (si_Yandex i) (ss_Yandex s),
          ss_Pixabay = si_set (si_Pixabay i) (ss_Pixabay s)\<rparr>)"

record UpdateInput =
  ui_BlockedServices :: "string list"
  ui_Schedules :: "Schedule list"
  ui_SafeSearch :: "SafeSearchInput option"

definition validateUpdate :: "(string set \<Rightarrow> string) \<Rightarrow> AppService list \<Rightarrow> UpdateInput \<Rightarrow> parental_error + Config" where
  "validateUpdate newScheduleID cat inp =
     (case validateConfig newScheduleID cat
         \<lparr>cf_BlockedServices = ui_BlockedServices inp, cf_Schedules = ui_Schedules inp, cf_SafeSearch = no_safe\<rparr> of
        Inl e \<Rightarrow> Inl e
      | Inr cfg \<Rightarrow> (case si_validate (ui_SafeSearch inp) of Some e \<Rightarrow> Inl e | None \<Rightarrow> Inr cfg))"

text \<open>\<^verbatim>\<open>validateOverride\<close> and \<^verbatim>\<open>validatePause\<close> check the end in the same way; \<open>bad\<close> is the field of an end out of range.\<close>

record OverrideInput =
  oi_Mode :: string
  oi_Minutes :: "int option"
  oi_Until :: "instant option"

record PauseInput =
  pi_Minutes :: "int option"
  pi_Until :: "instant option"

definition truncate_second :: "instant \<Rightarrow> instant" where
  "truncate_second t = t div Second * Second"

definition check_until :: "string \<Rightarrow> duration \<Rightarrow> int option \<Rightarrow> instant option \<Rightarrow> instant \<Rightarrow> parental_error + instant" where
  "check_until bad longest mins till now =
     (case (mins, till) of
        (Some _, Some _) \<Rightarrow> Inl (InvalidField ''minutes'')
      | (Some m, None) \<Rightarrow>
          if m < 1 \<or> m > maxOverrideMin then Inl (InvalidField ''minutes'') else Inr (now + m * Minute)
      | (None, Some u) \<Rightarrow>
          if \<not> now < u then Inl (InvalidField bad)
          else if now + (longest + Minute) < u then Inl (InvalidField bad)
          else Inr u
      | (None, None) \<Rightarrow> Inl (InvalidField ''minutes''))"

definition validateOverride :: "OverrideInput \<Rightarrow> instant \<Rightarrow> parental_error + Override" where
  "validateOverride inp now =
     (if oi_Mode inp \<noteq> OverrideBlock \<and> oi_Mode inp \<noteq> OverrideAllow then Inl (InvalidField ''override.mode'')
      else case check_until ''override.until'' maxOverride (oi_Minutes inp) (oi_Until inp) now of
          Inl e \<Rightarrow> Inl e
        | Inr u \<Rightarrow> Inr \<lparr>ov_Mode = oi_Mode inp, ov_Until = truncate_second u\<rparr>)"

definition validatePause :: "PauseInput \<Rightarrow> instant \<Rightarrow> parental_error + instant" where
  "validatePause inp now =
     (case check_until ''pause.until'' maxPause (pi_Minutes inp) (pi_Until inp) now of
        Inl e \<Rightarrow> Inl e
      | Inr u \<Rightarrow> Inr (truncate_second u))"

section \<open>The table\<close>

text \<open>
  A row of \<^verbatim>\<open>parental_groups\<close>: the configuration is the value its JSON text stands for, none when it cannot be read;
  times are Unix milliseconds, none for NULL. The table is kept in the order of the group ids.
\<close>

record stored_row =
  st_groupID :: int
  st_config :: "Config option"
  st_mode :: string
  st_until :: "int option"
  st_updated :: int
  st_pause :: "int option"

definition Millisecond :: duration where "Millisecond = 1000000"

definition db_Ms :: "instant \<Rightarrow> int" where
  "db_Ms t = (if t = zero_time then 0 else t div Millisecond)"

definition db_Time :: "int \<Rightarrow> instant" where
  "db_Time ms = (if ms = 0 then zero_time else ms * Millisecond)"

definition coalesce0 :: "int option \<Rightarrow> int" where
  "coalesce0 x = (case x of Some v \<Rightarrow> v | None \<Rightarrow> 0)"

definition empty_config :: Config where
  "empty_config = \<lparr>cf_BlockedServices = [], cf_Schedules = [], cf_SafeSearch = no_safe\<rparr>"

definition decodeConfig :: "AppService list \<Rightarrow> Config option \<Rightarrow> Config" where
  "decodeConfig cat stored = sanitizeConfig cat (case stored of Some c \<Rightarrow> c | None \<Rightarrow> empty_config)"

definition no_override :: Override where
  "no_override = \<lparr>ov_Mode = [], ov_Until = zero_time\<rparr>"

definition load_row :: "AppService list \<Rightarrow> stored_row \<Rightarrow> row" where
  "load_row cat s =
     \<lparr>rw_groupID = st_groupID s, rw_cfg = decodeConfig cat (st_config s),
      rw_override = (if (st_mode s = OverrideBlock \<or> st_mode s = OverrideAllow) \<and> coalesce0 (st_until s) \<noteq> 0
        then \<lparr>ov_Mode = st_mode s, ov_Until = db_Time (coalesce0 (st_until s))\<rparr> else no_override),
      rw_pauseUntil = (if coalesce0 (st_pause s) \<noteq> 0 then db_Time (coalesce0 (st_pause s)) else zero_time),
      rw_updated = db_Time (st_updated s)\<rparr>"

definition pc_load :: "AppService list \<Rightarrow> int \<Rightarrow> stored_row list \<Rightarrow> row list" where
  "pc_load cat i tab = map (load_row cat) (filter (\<lambda>s. i \<noteq> 0 \<longrightarrow> st_groupID s = i) tab)"

definition expire_row :: "instant \<Rightarrow> stored_row \<Rightarrow> stored_row" where
  "expire_row now s =
     (let s1 = (if st_mode s \<noteq> [] \<and> (case st_until s of None \<Rightarrow> True | Some u \<Rightarrow> u \<le> db_Ms now)
          then s\<lparr>st_mode := [], st_until := None\<rparr> else s) in
      case st_pause s1 of Some u \<Rightarrow> if u \<le> db_Ms now then s1\<lparr>st_pause := None\<rparr> else s1 | None \<Rightarrow> s1)"

definition default_row :: "int \<Rightarrow> stored_row" where
  "default_row i = \<lparr>st_groupID = i, st_config = Some empty_config, st_mode = [], st_until = None, st_updated = 0, st_pause = None\<rparr>"

text \<open>\<^verbatim>\<open>INSERT ... ON CONFLICT(group_id) DO UPDATE\<close>: the row of the group, or the defaults of the schema, with the columns set.\<close>

definition upsert :: "int \<Rightarrow> (stored_row \<Rightarrow> stored_row) \<Rightarrow> stored_row list \<Rightarrow> stored_row list" where
  "upsert i f tab =
     (if i \<in> st_groupID ` set tab then map (\<lambda>s. if st_groupID s = i then f s else s) tab
      else insort_key st_groupID (f (default_row i)) tab)"

definition loadConfig :: "AppService list \<Rightarrow> int \<Rightarrow> stored_row list \<Rightarrow> Config" where
  "loadConfig cat i tab =
     (case find (\<lambda>s. st_groupID s = i) tab of
        None \<Rightarrow> sanitizeConfig cat empty_config
      | Some s \<Rightarrow> decodeConfig cat (st_config s))"

definition saveConfig :: "instant \<Rightarrow> int \<Rightarrow> Config \<Rightarrow> stored_row list \<Rightarrow> stored_row list" where
  "saveConfig now i cfg = upsert i (\<lambda>s. s\<lparr>st_config := Some cfg, st_updated := db_Ms now\<rparr>)"

definition saveOverride :: "instant \<Rightarrow> int \<Rightarrow> Override \<Rightarrow> stored_row list \<Rightarrow> stored_row list" where
  "saveOverride now i ov = upsert i (\<lambda>s. s\<lparr>st_mode := ov_Mode ov,
     st_until := (if ov_Mode ov \<noteq> [] then Some (db_Ms (ov_Until ov)) else None), st_updated := db_Ms now\<rparr>)"

definition savePause :: "instant \<Rightarrow> int \<Rightarrow> instant \<Rightarrow> stored_row list \<Rightarrow> stored_row list" where
  "savePause now i until = upsert i (\<lambda>s. s\<lparr>st_pause := (if until \<noteq> zero_time then Some (db_Ms until) else None), st_updated := db_Ms now\<rparr>)"

section \<open>The engine\<close>

record client_group =
  cg_ID :: int
  cg_Name :: string
  cg_Enabled :: bool
  cg_ClientCount :: int

record parental_engine =
  en_groups :: "client_group list"
  en_table :: "stored_row list"
  en_snap :: pc_snapshot

definition group_names :: "client_group list \<Rightarrow> int \<Rightarrow> string" where
  "group_names gs g = (case find (\<lambda>c. cg_ID c = g) (rev gs) of Some c \<Rightarrow> cg_Name c | None \<Rightarrow> [])"

definition reload :: "AppService list \<Rightarrow> parental_engine \<Rightarrow> parental_engine" where
  "reload cat e = e\<lparr>en_snap := pc_newSnapshot cat (pc_load cat 0 (en_table e)) (group_names (en_groups e))\<rparr>"

definition pc_write ::
  "AppService list \<Rightarrow> parental_engine \<Rightarrow> instant \<Rightarrow> int \<Rightarrow> (stored_row list \<Rightarrow> stored_row list) \<Rightarrow> parental_error + parental_engine" where
  "pc_write cat e now i fn =
     (if i \<notin> cg_ID ` set (en_groups e) then Inl (UnknownGroup i)
      else Inr (reload cat (e\<lparr>en_table := fn (map (expire_row now) (en_table e))\<rparr>)))"

definition pc_Update ::
  "(string set \<Rightarrow> string) \<Rightarrow> AppService list \<Rightarrow> parental_engine \<Rightarrow> instant \<Rightarrow> int \<Rightarrow> UpdateInput \<Rightarrow> parental_error + parental_engine" where
  "pc_Update newScheduleID cat e now i inp =
     (case validateUpdate newScheduleID cat inp of
        Inl x \<Rightarrow> Inl x
      | Inr cfg \<Rightarrow> pc_write cat e now i (\<lambda>tab.
          saveConfig now i (cfg\<lparr>cf_SafeSearch := si_apply (ui_SafeSearch inp) (cf_SafeSearch (loadConfig cat i tab))\<rparr>) tab))"

text \<open>The handlers read the clock twice: when they validate and when they write.\<close>

definition SetOverride ::
  "AppService list \<Rightarrow> parental_engine \<Rightarrow> instant \<Rightarrow> instant \<Rightarrow> int \<Rightarrow> OverrideInput \<Rightarrow> parental_error + parental_engine" where
  "SetOverride cat e now now' i inp =
     (case validateOverride inp now of
        Inl x \<Rightarrow> Inl x
      | Inr ov \<Rightarrow> pc_write cat e now' i (saveOverride now' i ov))"

definition ClearOverride :: "AppService list \<Rightarrow> parental_engine \<Rightarrow> instant \<Rightarrow> int \<Rightarrow> parental_error + parental_engine" where
  "ClearOverride cat e now i = pc_write cat e now i (saveOverride now i no_override)"

definition SetPause ::
  "AppService list \<Rightarrow> parental_engine \<Rightarrow> instant \<Rightarrow> instant \<Rightarrow> int \<Rightarrow> PauseInput \<Rightarrow> parental_error + parental_engine" where
  "SetPause cat e now now' i inp =
     (case validatePause inp now of
        Inl x \<Rightarrow> Inl x
      | Inr until \<Rightarrow> pc_write cat e now' i (savePause now' i until))"

definition ClearPause :: "AppService list \<Rightarrow> parental_engine \<Rightarrow> instant \<Rightarrow> int \<Rightarrow> parental_error + parental_engine" where
  "ClearPause cat e now i = pc_write cat e now i (savePause now i zero_time)"

text \<open>A change of the client groups: rows of deleted groups go with them (ON DELETE CASCADE), then \<^verbatim>\<open>Reload\<close>.\<close>

definition groups_changed :: "AppService list \<Rightarrow> client_group list \<Rightarrow> parental_engine \<Rightarrow> parental_engine" where
  "groups_changed cat gs e =
     reload cat (e\<lparr>en_groups := gs, en_table := filter (\<lambda>s. st_groupID s \<in> cg_ID ` set gs) (en_table e)\<rparr>)"

definition new_engine :: "AppService list \<Rightarrow> parental_engine" where
  "new_engine cat = reload cat \<lparr>en_groups = [], en_table = [], en_snap = empty_snapshot\<rparr>"

record GroupControls =
  gc_GroupID :: int
  gc_GroupName :: string
  gc_GroupEnabled :: bool
  gc_ClientCount :: int
  gc_BlockedServices :: "string list"
  gc_Schedules :: "Schedule list"
  gc_SafeSearch :: SafeSearch
  gc_Override :: "Override option"
  gc_State :: GroupState
  gc_UpdatedAt :: instant

definition group_controls :: "AppService list \<Rightarrow> location \<Rightarrow> instant \<Rightarrow> row list \<Rightarrow> client_group \<Rightarrow> GroupControls" where
  "group_controls cat loc now rows g =
     (let r = (case find (\<lambda>r. rw_groupID r = cg_ID g) rows of Some r \<Rightarrow> r
            | None \<Rightarrow> \<lparr>rw_groupID = cg_ID g, rw_cfg = sanitizeConfig cat empty_config, rw_override = no_override,
                rw_pauseUntil = zero_time, rw_updated = zero_time\<rparr>);
          st = pc_state cat (pc_compile cat r (cg_Name g)) now loc in
      \<lparr>gc_GroupID = cg_ID g, gc_GroupName = cg_Name g, gc_GroupEnabled = cg_Enabled g, gc_ClientCount = cg_ClientCount g,
       gc_BlockedServices = cf_BlockedServices (rw_cfg r), gc_Schedules = cf_Schedules (rw_cfg r), gc_SafeSearch = cf_SafeSearch (rw_cfg r),
       gc_Override = (if override_active (rw_override r) now then Some (rw_override r) else None),
       gc_State = (if now < rw_pauseUntil r then st\<lparr>gs_Paused := True, gs_PausedUntil := rw_pauseUntil r\<rparr> else st),
       gc_UpdatedAt = rw_updated r\<rparr>)"

definition controls :: "AppService list \<Rightarrow> location \<Rightarrow> instant \<Rightarrow> parental_engine \<Rightarrow> int \<Rightarrow> GroupControls list" where
  "controls cat loc now e i =
     map (group_controls cat loc now (pc_load cat i (en_table e))) (filter (\<lambda>g. i = 0 \<or> cg_ID g = i) (en_groups e))"

definition pc_List :: "AppService list \<Rightarrow> location \<Rightarrow> instant \<Rightarrow> parental_engine \<Rightarrow> GroupControls list" where
  "pc_List cat loc now e = controls cat loc now e 0"

definition pc_Get :: "AppService list \<Rightarrow> location \<Rightarrow> instant \<Rightarrow> parental_engine \<Rightarrow> int \<Rightarrow> parental_error + GroupControls" where
  "pc_Get cat loc now e i = (case controls cat loc now e i of [] \<Rightarrow> Inl (UnknownGroup i) | g # _ \<Rightarrow> Inr g)"

section \<open>Validated input is kept as it is\<close>

lemma services_loop_ok:
  "services_loop cat field ids out = Inr res \<Longrightarrow> distinct out \<Longrightarrow> (\<forall>i \<in> set out. serviceIndex cat i \<noteq> None) \<Longrightarrow>
   distinct res \<and> (\<forall>i \<in> set res. serviceIndex cat i \<noteq> None)"
proof (induction ids arbitrary: out)
  case (Cons i ids)
  let ?out = "if i \<in> set out then out else out @ [i]"
  have idx: "serviceIndex cat i \<noteq> None" and rec: "services_loop cat field ids ?out = Inr res"
    using Cons.prems(1) by (auto simp only: services_loop.simps split: if_splits)
  have "distinct ?out" "\<forall>i \<in> set ?out. serviceIndex cat i \<noteq> None" using Cons.prems(2,3) idx by simp_all
  with Cons.IH [OF rec] show ?case by blast
qed simp

lemma validServices_ok:
  assumes "validServices cat field ids n = Inr out"
  shows "sorted out \<and> distinct out \<and> length out \<le> maxServices \<and> n \<le> length out \<and> (\<forall>i \<in> set out. serviceIndex cat i \<noteq> None)"
proof -
  obtain res where res: "services_loop cat field ids [] = Inr res" "out = sort res" "n \<le> length res" "length res \<le> maxServices"
    using assms by (auto simp: validServices_def split: sum.splits if_splits)
  with services_loop_ok [OF res(1)] show ?thesis by simp
qed

lemma days_loop_ok:
  "days_loop field ds out = Inr res \<Longrightarrow> distinct out \<Longrightarrow> (\<forall>d \<in> set out. 0 \<le> d \<and> d \<le> 6) \<Longrightarrow>
   distinct res \<and> (\<forall>d \<in> set res. 0 \<le> d \<and> d \<le> 6)"
proof (induction ds arbitrary: out)
  case (Cons d ds)
  let ?out = "if d \<in> set out then out else out @ [d]"
  have day: "0 \<le> d \<and> d \<le> 6" and rec: "days_loop field ds ?out = Inr res"
    using Cons.prems(1) by (auto simp only: days_loop.simps split: if_splits)
  have "distinct ?out" "\<forall>d \<in> set ?out. 0 \<le> d \<and> d \<le> 6" using Cons.prems(2,3) day by simp_all
  with Cons.IH [OF rec] show ?case by blast
qed simp

lemma validDays_ok:
  assumes "validDays field ds = Inr out"
  shows "out \<noteq> [] \<and> sorted out \<and> distinct out \<and> (\<forall>d \<in> set out. 0 \<le> d \<and> d \<le> 6)"
proof -
  obtain res where res: "days_loop field ds [] = Inr res" "out = sort res" "res \<noteq> []"
    using assms by (auto simp: validDays_def split: sum.splits if_splits)
  then have "length out = length res" by simp
  then have "out \<noteq> []" using res(3) by (metis length_0_conv)
  with res days_loop_ok [OF res(1)] show ?thesis by auto
qed

text \<open>What the random ids are taken to be: well-formed, and unused while some id is.\<close>

definition fresh_ids :: "(string set \<Rightarrow> string) \<Rightarrow> bool" where
  "fresh_ids new \<longleftrightarrow> (\<forall>used. finite used \<and> card used < maxSchedules \<longrightarrow> validScheduleID (new used) \<and> new used \<notin> used)"

lemma validate_schedule_ok:
  assumes "validate_schedule new cat i used s = Inr v" and "fresh_ids new" and "finite used" and "card used < maxSchedules"
  shows "schedule_ok cat v \<and> sc_ID v \<notin> used"
proof -
  have new: "validScheduleID (new used)" "new used \<notin> used" using assms(2-4) by (auto simp: fresh_ids_def)
  obtain name days where days: "validDays (sched_field i ''days'') (sc_Days s) = Inr days"
    and clocks: "clock_ok (sc_Start s)" "clock_ok (sc_End s)" "sc_End s \<noteq> sc_Start s"
    and name: "cleanName (sched_field i ''name'') (sc_Name s) = Inr name"
    using assms(1) by (auto simp: validate_schedule_def split: sum.splits if_splits)
  show ?thesis
  proof (cases "sc_Block s = BlockAll")
    case True
    then show ?thesis using assms(1) days name clocks new validDays_ok [OF days]
      by (auto simp: validate_schedule_def schedule_ok_def split: if_splits)
  next
    case False
    then obtain svcs where block: "sc_Block s = BlockServices" and svcs: "validServices cat (sched_field i ''services'') (sc_Services s) 1 = Inr svcs"
      using assms(1) days name clocks by (auto simp: validate_schedule_def split: sum.splits if_splits)
    have v: "v = \<lparr>sc_ID = (if \<not> validScheduleID (sc_ID s) \<or> sc_ID s \<in> used then new used else sc_ID s), sc_Name = name,
        sc_Enabled = sc_Enabled s, sc_Days = days, sc_Start = sc_Start s, sc_End = sc_End s, sc_Block = sc_Block s, sc_Services = svcs\<rparr>"
      using assms(1) days name clocks block False svcs by (simp add: validate_schedule_def)
    show ?thesis using v validServices_ok [OF svcs] validDays_ok [OF days] new clocks block by (auto simp: schedule_ok_def)
  qed
qed

lemma validate_schedules_ok:
  assumes "validate_schedules new cat i used ss out = Inr res" and "fresh_ids new" and "length out + length ss \<le> maxSchedules"
    and "used = sc_ID ` set out" and "distinct (map sc_ID out)" and "\<forall>s \<in> set out. schedule_ok cat s"
  shows "length res = length out + length ss \<and> distinct (map sc_ID res) \<and> (\<forall>s \<in> set res. schedule_ok cat s)"
  using assms
proof (induction ss arbitrary: i used out)
  case (Cons s ss)
  obtain v where v: "validate_schedule new cat i used s = Inr v"
    and rec: "validate_schedules new cat (Suc i) (insert (sc_ID v) used) ss (out @ [v]) = Inr res"
    using Cons.prems(1) by (auto split: sum.splits)
  have "card used \<le> length out" using Cons.prems(4) by (metis card_length length_map list.set_map)
  then have ok: "schedule_ok cat v" "sc_ID v \<notin> used"
    using validate_schedule_ok [OF v Cons.prems(2)] Cons.prems(3,4) by auto
  have "length res = length (out @ [v]) + length ss \<and> distinct (map sc_ID res) \<and> (\<forall>s \<in> set res. schedule_ok cat s)"
    using Cons.prems ok by (intro Cons.IH [OF rec]) auto
  then show ?case by simp
qed simp

lemma validateConfig_ok:
  assumes "validateConfig new cat c = Inr cfg" and "fresh_ids new"
  shows "config_ok cat cfg \<and> distinct (map sc_ID (cf_Schedules cfg))"
proof -
  obtain svcs ss where svcs: "validServices cat ''blockedServices'' (cf_BlockedServices c) 0 = Inr svcs"
    and len: "length (cf_Schedules c) \<le> maxSchedules"
    and ss: "validate_schedules new cat 0 {} (cf_Schedules c) [] = Inr ss"
    and cfg: "cfg = \<lparr>cf_BlockedServices = svcs, cf_Schedules = ss, cf_SafeSearch = no_safe\<lparr>ss_YouTube := YouTubeOff\<rparr>\<rparr>"
    using assms(1) by (auto simp: validateConfig_def split: sum.splits if_splits)
  show ?thesis
    using validServices_ok [OF svcs] validate_schedules_ok [OF ss assms(2)] len cfg
    by (auto simp: config_ok_def validYouTube_def no_safe_def)
qed

lemma validateUpdate_ok:
  assumes "validateUpdate new cat inp = Inr cfg" and "fresh_ids new" and "validYouTube (ss_YouTube s)"
  shows "config_ok cat (cfg\<lparr>cf_SafeSearch := si_apply (ui_SafeSearch inp) s\<rparr>) \<and> distinct (map sc_ID (cf_Schedules cfg))"
proof -
  obtain cfg where "validateConfig new cat
      \<lparr>cf_BlockedServices = ui_BlockedServices inp, cf_Schedules = ui_Schedules inp, cf_SafeSearch = no_safe\<rparr> = Inr cfg"
    and yt: "si_validate (ui_SafeSearch inp) = None"
    using assms(1) by (auto simp: validateUpdate_def split: sum.splits option.splits)
  moreover have "validYouTube (ss_YouTube (si_apply (ui_SafeSearch inp) s))"
    using yt assms(3) by (auto simp: si_validate_def si_apply_def si_set_def split: option.splits if_splits)
  ultimately show ?thesis using validateConfig_ok [OF _ assms(2)] assms(1)
    by (auto simp: config_ok_def validateUpdate_def split: sum.splits option.splits)
qed

section \<open>The table and the snapshot\<close>

lemma load_row_ok: "row_ok cat (load_row cat s)"
  by (simp add: row_ok_def load_row_def decodeConfig_def sanitizeConfig_ok no_override_def)

lemma load_row_id [simp]: "rw_groupID (load_row cat s) = st_groupID s"
  by (simp add: load_row_def)

definition table_ok :: "stored_row list \<Rightarrow> bool" where
  "table_ok tab \<longleftrightarrow> sorted (map st_groupID tab) \<and> distinct (map st_groupID tab)"

lemma load_all: "pc_load cat 0 tab = map (load_row cat) tab"
  by (simp add: pc_load_def)

lemma load_distinct: "table_ok tab \<Longrightarrow> distinct (map rw_groupID (pc_load cat 0 tab))"
  by (simp add: load_all table_ok_def comp_def)

lemma load_rows_ok: "\<forall>r \<in> set (pc_load cat 0 tab). row_ok cat r"
  by (auto simp: load_all load_row_ok)

lemma expire_row_id [simp]: "st_groupID (expire_row now s) = st_groupID s"
  by (simp add: expire_row_def Let_def split: option.split)

lemma table_ok_expire: "table_ok tab \<Longrightarrow> table_ok (map (expire_row now) tab)"
  by (simp add: table_ok_def comp_def)

lemma upsert_map_id:
  "(\<And>s. st_groupID (f s) = st_groupID s) \<Longrightarrow> i \<in> st_groupID ` set tab \<Longrightarrow> map st_groupID (upsert i f tab) = map st_groupID tab"
  by (simp add: upsert_def)

lemma table_ok_upsert:
  assumes "table_ok tab" and "\<And>s. st_groupID (f s) = st_groupID s"
  shows "table_ok (upsert i f tab)"
proof (cases "i \<in> st_groupID ` set tab")
  case True
  then show ?thesis using assms(1) upsert_map_id [OF assms(2) True] by (simp add: table_ok_def)
next
  case False
  then have "upsert i f tab = insort_key st_groupID (f (default_row i)) tab" by (simp add: upsert_def)
  moreover have "st_groupID (f (default_row i)) = i" by (simp add: assms(2) default_row_def)
  moreover have "f (default_row i) \<notin> set tab" using False calculation(2) by force
  ultimately show ?thesis using assms(1) False
    by (auto simp: table_ok_def sorted_insort_key distinct_map set_insort_key inj_on_def distinct_insort)
qed

lemma upsert_row:
  assumes "\<And>s. st_groupID (f s) = st_groupID s"
  shows "\<exists>s. f s \<in> set (upsert i f tab) \<and> st_groupID s = i"
proof (cases "i \<in> st_groupID ` set tab")
  case True
  then obtain s where "s \<in> set tab" "st_groupID s = i" by auto
  then show ?thesis using True by (auto simp: upsert_def intro!: exI [of _ s] image_eqI [of _ _ s])
next
  case False
  then show ?thesis by (intro exI [of _ "default_row i"]) (simp add: upsert_def default_row_def set_insort_key)
qed

lemma upsert_ids:
  assumes "\<And>s. st_groupID (f s) = st_groupID s"
  shows "st_groupID ` set (upsert i f tab) = insert i (st_groupID ` set tab)"
proof (cases "i \<in> st_groupID ` set tab")
  case True
  have "st_groupID ` set (upsert i f tab) = set (map st_groupID (upsert i f tab))" by simp
  also have "\<dots> = st_groupID ` set tab" using upsert_map_id [OF assms True] by simp
  finally show ?thesis using True by auto
next
  case False
  then show ?thesis by (simp add: upsert_def set_insort_key default_row_def assms)
qed

section \<open>Every state of the engine\<close>

text \<open>The snapshot the queries read is always that of the table and the groups, and the table has one row per group.\<close>

definition engine_inv :: "AppService list \<Rightarrow> parental_engine \<Rightarrow> bool" where
  "engine_inv cat e \<longleftrightarrow> table_ok (en_table e) \<and> st_groupID ` set (en_table e) \<subseteq> cg_ID ` set (en_groups e) \<and>
     en_snap e = pc_newSnapshot cat (pc_load cat 0 (en_table e)) (group_names (en_groups e))"

datatype parental_op =
    OpUpdate instant int UpdateInput
  | OpSetOverride instant instant int OverrideInput
  | OpClearOverride instant int
  | OpSetPause instant instant int PauseInput
  | OpClearPause instant int
  | OpGroups "client_group list"

definition kept :: "parental_engine \<Rightarrow> parental_error + parental_engine \<Rightarrow> parental_engine" where
  "kept e r = (case r of Inl _ \<Rightarrow> e | Inr e' \<Rightarrow> e')"

fun parental_step :: "(string set \<Rightarrow> string) \<Rightarrow> AppService list \<Rightarrow> parental_op \<Rightarrow> parental_engine \<Rightarrow> parental_engine" where
  "parental_step new cat (OpUpdate now i inp) e = kept e (pc_Update new cat e now i inp)"
| "parental_step new cat (OpSetOverride now now' i inp) e = kept e (SetOverride cat e now now' i inp)"
| "parental_step new cat (OpClearOverride now i) e = kept e (ClearOverride cat e now i)"
| "parental_step new cat (OpSetPause now now' i inp) e = kept e (SetPause cat e now now' i inp)"
| "parental_step new cat (OpClearPause now i) e = kept e (ClearPause cat e now i)"
| "parental_step new cat (OpGroups gs) e = groups_changed cat gs e"

definition table_write :: "int \<Rightarrow> (stored_row list \<Rightarrow> stored_row list) \<Rightarrow> bool" where
  "table_write i fn \<longleftrightarrow> (\<forall>tab. (table_ok tab \<longrightarrow> table_ok (fn tab)) \<and> st_groupID ` set (fn tab) = insert i (st_groupID ` set tab))"

lemma table_write_upsert:
  assumes "\<And>tab s. st_groupID (f tab s) = st_groupID s"
  shows "table_write i (\<lambda>tab. upsert i (f tab) tab)"
  using table_ok_upsert [OF _ assms] upsert_ids [OF assms] by (auto simp only: table_write_def)

lemma table_write_save [intro]:
  "table_write i (\<lambda>tab. saveConfig now i (c tab) tab)" "table_write i (saveOverride now i ov)" "table_write i (savePause now i u)"
  unfolding saveConfig_def saveOverride_def savePause_def by (rule table_write_upsert; simp)+

lemma engine_inv_write:
  assumes "engine_inv cat e" and "pc_write cat e now i fn = Inr e'" and "table_write i fn"
  shows "engine_inv cat e'"
proof -
  let ?tab = "map (expire_row now) (en_table e)"
  have i: "i \<in> cg_ID ` set (en_groups e)" and e': "e' = reload cat (e\<lparr>en_table := fn ?tab\<rparr>)"
    using assms(2) by (auto simp: pc_write_def split: if_splits)
  have ids: "st_groupID ` set ?tab = st_groupID ` set (en_table e)" by (simp add: image_image)
  have "table_ok (fn ?tab)" using assms(1,3) table_ok_expire by (auto simp: engine_inv_def table_write_def)
  moreover have "st_groupID ` set (fn ?tab) \<subseteq> cg_ID ` set (en_groups e)"
    using assms(1,3) i ids unfolding engine_inv_def table_write_def by (simp del: set_map)
  ultimately show ?thesis by (simp add: engine_inv_def e' reload_def)
qed

lemma engine_inv_ops:
  assumes "engine_inv cat e"
  shows "pc_Update new cat e now i ui = Inr e' \<Longrightarrow> engine_inv cat e'"
    and "SetOverride cat e now now' i oi = Inr e' \<Longrightarrow> engine_inv cat e'"
    and "ClearOverride cat e now i = Inr e' \<Longrightarrow> engine_inv cat e'"
    and "SetPause cat e now now' i pi = Inr e' \<Longrightarrow> engine_inv cat e'"
    and "ClearPause cat e now i = Inr e' \<Longrightarrow> engine_inv cat e'"
  by (auto simp: pc_Update_def SetOverride_def ClearOverride_def SetPause_def ClearPause_def
      split: sum.splits intro: engine_inv_write [OF assms])

lemma engine_inv_groups: "engine_inv cat e \<Longrightarrow> engine_inv cat (groups_changed cat gs e)"
  by (auto simp: engine_inv_def groups_changed_def reload_def table_ok_def distinct_map_filter sorted_filter)

lemma engine_inv_kept: "engine_inv cat e \<Longrightarrow> (\<And>e'. r = Inr e' \<Longrightarrow> engine_inv cat e') \<Longrightarrow> engine_inv cat (kept e r)"
  by (simp add: kept_def split: sum.split)

lemma engine_inv_step: "engine_inv cat e \<Longrightarrow> engine_inv cat (parental_step new cat p e)"
  by (cases p) (auto intro: engine_inv_kept engine_inv_ops engine_inv_groups)

interpretation parental: invariant_machine "new_engine cat" "parental_step new cat" "engine_inv cat"
proof unfold_locales
  show "engine_inv cat (new_engine cat)" by (simp add: new_engine_def reload_def engine_inv_def table_ok_def)
qed (rule engine_inv_step)

text \<open>
  C4: after any history of writes and changes of the groups a query is blocked exactly when one of the client's groups
  has controls that block it: no allow override is in effect, and a block override is, or an enabled schedule covers the
  local wall-clock time (all internet, or a service the name belongs to), or the name belongs to a blocked service.
\<close>

theorem parental_enforced:
  "let e = fold (parental_step new cat) ops (new_engine cat) in
   pd_Blocked (pc_Check cat loc (en_snap e) qname gids now) \<longleftrightarrow>
   (\<exists>r \<in> set (pc_load cat 0 (en_table e)). rw_groupID r \<in> set gids \<and> group_blocks cat loc qname now r)"
  using parental.inv_run [of cat new ops] pc_Check_blocked [OF load_distinct load_rows_ok]
  by (simp add: engine_inv_def Let_def)

section \<open>Overrides\<close>

lemma check_until_range:
  assumes "check_until bad longest mins till now = Inr u" and "longest = maxOverride"
  shows "now < u \<and> u \<le> now + (maxOverride + Minute)"
proof -
  have "m * Minute \<le> maxOverride + Minute \<and> 0 < m * Minute" if "1 \<le> m" "m \<le> maxOverrideMin" for m
  proof -
    have "maxOverrideMin = 10080" by (simp add: maxOverrideMin_def maxOverride_def time_consts)
    then show ?thesis using that by (simp add: maxOverride_def time_consts)
  qed
  then show ?thesis using assms by (auto simp: check_until_def split: option.splits if_splits)
qed

lemma truncate_range: "truncate_second t \<le> t \<and> t < truncate_second t + Second"
proof -
  have "t mod Second = t - truncate_second t" by (simp add: truncate_second_def minus_div_mult_eq_mod)
  moreover have "0 \<le> t mod Second \<and> t mod Second < Second" by (simp add: Second_def)
  ultimately show ?thesis by linarith
qed

lemma validateOverride_range:
  assumes "validateOverride inp now = Inr ov"
  shows "now - Second < ov_Until ov \<and> ov_Until ov \<le> now + (maxOverride + Minute) \<and> ov_Until ov mod Second = 0 \<and>
    ov_Mode ov \<in> {OverrideBlock, OverrideAllow}"
proof -
  obtain u where u: "check_until ''override.until'' maxOverride (oi_Minutes inp) (oi_Until inp) now = Inr u"
    and ov: "ov = \<lparr>ov_Mode = oi_Mode inp, ov_Until = truncate_second u\<rparr>" "oi_Mode inp \<in> {OverrideBlock, OverrideAllow}"
    using assms by (auto simp: validateOverride_def split: sum.splits if_splits)
  have "truncate_second u mod Second = 0" by (simp add: truncate_second_def)
  with check_until_range [OF u refl] truncate_range [of u] ov show ?thesis by auto
qed

lemma db_roundtrip:
  assumes "0 < t" and "t mod Second = 0"
  shows "db_Time (db_Ms t) = t \<and> db_Ms t \<noteq> 0"
proof -
  obtain k where k: "t = Second * k" using assms(2) by (auto simp: mod_eq_0_iff_dvd dvd_def)
  then have "0 < k" using assms(1) by (simp add: Second_def zero_less_mult_iff)
  with k show ?thesis by (auto simp: db_Time_def db_Ms_def Second_def Millisecond_def zero_time_def)
qed

lemma SetOverride_row:
  assumes "SetOverride cat e now now' i inp = Inr e'" and "validateOverride inp now = Inr ov" and "Second \<le> now"
  shows "\<exists>r \<in> set (pc_load cat 0 (en_table e')). rw_groupID r = i \<and> rw_override r = ov"
proof -
  let ?tab = "map (expire_row now') (en_table e)"
  have tab: "en_table e' = saveOverride now' i ov ?tab"
    using assms(1,2) by (auto simp: SetOverride_def pc_write_def reload_def split: if_splits)
  define f :: "stored_row \<Rightarrow> stored_row" where "f = (\<lambda>s. s\<lparr>st_mode := ov_Mode ov, st_until := (if ov_Mode ov \<noteq> [] then Some (db_Ms (ov_Until ov)) else None),
      st_updated := db_Ms now'\<rparr>)"
  have "st_groupID (f s) = st_groupID s" for s by (simp add: f_def)
  from upsert_row [OF this, of i ?tab] obtain s where s: "f s \<in> set (en_table e')" "st_groupID s = i"
    unfolding tab saveOverride_def f_def by blast
  have mode: "ov_Mode ov \<in> {OverrideBlock, OverrideAllow}" "ov_Mode ov \<noteq> []"
    using validateOverride_range [OF assms(2)] by (auto simp: OverrideBlock_def OverrideAllow_def)
  have "0 < ov_Until ov" using validateOverride_range [OF assms(2)] assms(3) by linarith
  then have time: "db_Time (db_Ms (ov_Until ov)) = ov_Until ov \<and> db_Ms (ov_Until ov) \<noteq> 0"
    using db_roundtrip [of "ov_Until ov"] validateOverride_range [OF assms(2)] by simp
  define s' where "s' = s\<lparr>st_mode := ov_Mode ov, st_until := Some (db_Ms (ov_Until ov)), st_updated := db_Ms now'\<rparr>"
  have "rw_override (load_row cat s') = ov" "rw_groupID (load_row cat s') = i"
    using time mode(1) s(2) by (auto simp: load_row_def s'_def coalesce0_def)
  moreover have "s' \<in> set (en_table e')" using s(1) mode(2) by (simp add: s'_def f_def)
  ultimately show ?thesis by (auto simp: load_all intro!: bexI [of _ s'])
qed

lemma check_group_id: "check_group cat loc q now (pc_compile cat r name) = Some d \<Longrightarrow> pd_GroupID d = rw_groupID r"
  by (auto simp: check_group_def Let_def pc_compile_def split: if_splits option.splits)

lemma pc_Check_group:
  assumes "distinct (map rw_groupID rows)" and "\<forall>r \<in> set rows. row_ok cat r"
    and "pd_Blocked (pc_Check cat loc (pc_newSnapshot cat rows names) q gids now)"
  shows "\<exists>r \<in> set rows. rw_groupID r = pd_GroupID (pc_Check cat loc (pc_newSnapshot cat rows names) q gids now) \<and> group_blocks cat loc q now r"
proof -
  let ?s = "pc_newSnapshot cat rows names"
  let ?f = "\<lambda>g. case ps_groups ?s g of None \<Rightarrow> None | Some r \<Rightarrow> check_group cat loc q now r"
  obtain d where d: "first_some ?f gids = Some d" "pc_Check cat loc ?s q gids now = d"
    using assms(3) by (cases "first_some ?f gids") (auto simp: pc_Check_def no_pcDecision_def)
  obtain g where "?f g = Some d" using first_some_SomeD [OF d(1)] by blast
  then obtain r where r: "find (\<lambda>r. rw_groupID r = g) rows = Some r" "check_group cat loc q now (pc_compile cat r (names g)) = Some d"
    by (auto simp: snapshot_groups [OF assms(1)] Let_def split: option.splits if_splits)
  then have "r \<in> set rows" "row_ok cat r" using assms(2) by (auto dest: find_SomeD)
  moreover have "group_blocks cat loc q now r" using check_group_blocks [OF \<open>row_ok cat r\<close>] r(2) by force
  ultimately show ?thesis using check_group_id [OF r(2)] d(2) by auto
qed

text \<open>
  C9: an override that is accepted ends at most a week and a minute after it is set, and until then every query of a
  client of the group is blocked if it is a block override, and none is blocked on account of the group if it is an
  allow override, whatever the group's services and schedules.
\<close>

theorem override_enforced:
  assumes "engine_inv cat e" and "Second \<le> now" and "validateOverride inp now = Inr ov"
    and "SetOverride cat e now now' i inp = Inr e'" and "t < ov_Until ov"
  shows "ov_Until ov \<le> now + 7 * 24 * Hour + Minute \<and>
    (ov_Mode ov = OverrideBlock \<and> i \<in> set gids \<longrightarrow> pd_Blocked (pc_Check cat loc (en_snap e') q gids t)) \<and>
    (ov_Mode ov = OverrideAllow \<and> pd_Blocked (pc_Check cat loc (en_snap e') q gids t) \<longrightarrow>
      pd_GroupID (pc_Check cat loc (en_snap e') q gids t) \<noteq> i)"
proof -
  let ?rows = "pc_load cat 0 (en_table e')"
  have inv: "engine_inv cat e'" using engine_inv_ops(2) [OF assms(1,4)] .
  then have snap: "en_snap e' = pc_newSnapshot cat ?rows (group_names (en_groups e'))" and dist: "distinct (map rw_groupID ?rows)"
    using load_distinct by (auto simp: engine_inv_def)
  obtain r where r: "r \<in> set ?rows" "rw_groupID r = i" "rw_override r = ov"
    using SetOverride_row [OF assms(4,3,2)] by blast
  have act: "override_active (rw_override r) t"
    using r(3) assms(5) validateOverride_range [OF assms(3)] by (auto simp: override_active_def OverrideBlock_def OverrideAllow_def)
  have one: "r' = r" if "r' \<in> set ?rows" "rw_groupID r' = i" for r'
    using find_row [OF dist, of i] that r(1,2) by (metis option.inject)
  have A: "ov_Until ov \<le> now + 7 * 24 * Hour + Minute"
    using validateOverride_range [OF assms(3)] by (simp add: maxOverride_def)
  have iff: "group_blocks cat loc q t r \<longleftrightarrow> ov_Mode ov = OverrideBlock" using act r(3) by (simp add: group_blocks_def)
  from iff have B: "ov_Mode ov = OverrideBlock \<and> i \<in> set gids \<longrightarrow> pd_Blocked (pc_Check cat loc (en_snap e') q gids t)"
    unfolding snap pc_Check_blocked [OF dist load_rows_ok] using r(1,2) by blast
  have C: "ov_Mode ov = OverrideAllow \<and> pd_Blocked (pc_Check cat loc (en_snap e') q gids t) \<longrightarrow>
      pd_GroupID (pc_Check cat loc (en_snap e') q gids t) \<noteq> i"
  proof (intro impI notI)
    assume d: "ov_Mode ov = OverrideAllow \<and> pd_Blocked (pc_Check cat loc (en_snap e') q gids t)"
      and i: "pd_GroupID (pc_Check cat loc (en_snap e') q gids t) = i"
    from d obtain r' where r': "r' \<in> set ?rows" "rw_groupID r' = pd_GroupID (pc_Check cat loc (en_snap e') q gids t)"
      "group_blocks cat loc q t r'"
      unfolding snap using pc_Check_group [OF dist load_rows_ok] by blast
    with i one have "group_blocks cat loc q t r" by simp
    with iff d show False by (simp add: OverrideAllow_def OverrideBlock_def)
  qed
  from A B C show ?thesis by blast
qed

definition utc :: location where
  "utc = \<lparr>lo_offset = (\<lambda>_. 0), lo_Date = (\<lambda>d m. d * Day + m * Minute), lo_zoneStart = (\<lambda>_. None), lo_abbrev = (\<lambda>_. ''UTC'')\<rparr>"

definition ex_engine :: parental_engine where
  "ex_engine = groups_changed ex_cat [\<lparr>cg_ID = 3, cg_Name = ''Kids'', cg_Enabled = True, cg_ClientCount = 2\<rparr>] (new_engine ex_cat)"

lemma ex_engine_inv: "engine_inv ex_cat ex_engine"
  unfolding ex_engine_def by (rule engine_inv_groups) (rule parental.inv_init)

lemma ex_engine_groups: "en_groups ex_engine = [\<lparr>cg_ID = 3, cg_Name = ''Kids'', cg_Enabled = True, cg_ClientCount = 2\<rparr>]"
  by (simp add: ex_engine_def groups_changed_def reload_def)

lemma ex_write: "\<exists>e'. pc_write ex_cat ex_engine now 3 fn = Inr e'"
  by (simp add: pc_write_def ex_engine_groups)

theorem override_enforced_witness:
  "\<exists>e'. SetOverride ex_cat ex_engine (100 * Hour) (100 * Hour) 3 \<lparr>oi_Mode = ''block'', oi_Minutes = Some 30, oi_Until = None\<rparr> = Inr e' \<and>
     pd_Blocked (pc_Check ex_cat utc (en_snap e') ''example.com'' [1, 3] (100 * Hour + 29 * Minute))"
proof -
  let ?inp = "\<lparr>oi_Mode = ''block'', oi_Minutes = Some 30, oi_Until = None\<rparr>"
  let ?ov = "\<lparr>ov_Mode = ''block'', ov_Until = 100 * Hour + 30 * Minute\<rparr>"
  have val: "validateOverride ?inp (100 * Hour) = Inr ?ov"
    by (simp add: validateOverride_def check_until_def truncate_second_def maxOverrideMin_def maxOverride_def time_consts
        OverrideBlock_def OverrideAllow_def)
  obtain e' where e': "SetOverride ex_cat ex_engine (100 * Hour) (100 * Hour) 3 ?inp = Inr e'"
    using ex_write by (auto simp: SetOverride_def val)
  from override_enforced [OF ex_engine_inv _ val e', of "100 * Hour + 29 * Minute" "[1, 3]" utc "''example.com''"]
  have "pd_Blocked (pc_Check ex_cat utc (en_snap e') ''example.com'' [1, 3] (100 * Hour + 29 * Minute))"
    by (simp add: OverrideBlock_def time_consts)
  with e' show ?thesis by blast
qed

section \<open>Updates\<close>

text \<open>
  C19: an update that is accepted is stored and read back as validated: no service and no schedule of it is dropped
  when the row is sanitised on loading, the schedules have distinct well-formed ids, and the members of safe search
  that the request leaves out keep their stored values.
\<close>

theorem update_read_back:
  assumes "fresh_ids new" and "validateUpdate new cat inp = Inr cfg" and "pc_Update new cat e now i inp = Inr e'"
  shows "\<exists>r \<in> set (pc_load cat 0 (en_table e')). rw_groupID r = i \<and>
    rw_cfg r = cfg\<lparr>cf_SafeSearch := si_apply (ui_SafeSearch inp) (cf_SafeSearch (loadConfig cat i (map (expire_row now) (en_table e))))\<rparr> \<and>
    distinct (map sc_ID (cf_Schedules (rw_cfg r)))"
proof -
  let ?tab = "map (expire_row now) (en_table e)"
  let ?cfg = "cfg\<lparr>cf_SafeSearch := si_apply (ui_SafeSearch inp) (cf_SafeSearch (loadConfig cat i ?tab))\<rparr>"
  have tab: "en_table e' = saveConfig now i ?cfg ?tab"
    using assms(2,3) by (auto simp: pc_Update_def pc_write_def reload_def split: if_splits)
  obtain s where s: "s\<lparr>st_config := Some ?cfg, st_updated := db_Ms now\<rparr> \<in> set (en_table e')" "st_groupID s = i"
    unfolding tab saveConfig_def using upsert_row [of "\<lambda>s. s\<lparr>st_config := Some ?cfg, st_updated := db_Ms now\<rparr>" i ?tab] by auto
  have "config_ok cat (loadConfig cat i ?tab)"
    by (simp add: loadConfig_def decodeConfig_def sanitizeConfig_ok split: option.split)
  then have ok: "config_ok cat ?cfg" "distinct (map sc_ID (cf_Schedules cfg))"
    using validateUpdate_ok [OF assms(2,1)] by (auto simp: config_ok_def)
  let ?r = "load_row cat (s\<lparr>st_config := Some ?cfg, st_updated := db_Ms now\<rparr>)"
  have "rw_cfg ?r = ?cfg" using sanitizeConfig_id [OF ok(1)] by (simp add: load_row_def decodeConfig_def)
  moreover have "?r \<in> set (pc_load cat 0 (en_table e'))" using s(1) by (simp only: load_all set_map imageI)
  ultimately show ?thesis using s(2) ok(2) by (intro bexI [of _ ?r]) simp_all
qed

definition ex_ids :: "string set \<Rightarrow> string" where
  "ex_ids used = hd (filter (\<lambda>x. x \<notin> used) (map (\<lambda>c. ''0000000'' @ [c]) ''0123456789''))"

lemma ex_ids_fresh: "fresh_ids ex_ids"
proof -
  let ?ids = "map (\<lambda>c. ''0000000'' @ [c]) ''0123456789''"
  have valid: "list_all validScheduleID ?ids" by code_simp
  have "ex_ids used \<in> set ?ids \<and> ex_ids used \<notin> used" if "finite used" "card used < maxSchedules" for used
  proof -
    have "card (set ?ids) = 10" by (simp add: card_insert_if)
    then have "\<not> set ?ids \<subseteq> used" using card_mono [OF that(1), of "set ?ids"] that(2) by (auto simp: maxSchedules_def)
    then have "filter (\<lambda>x. x \<notin> used) ?ids \<noteq> []" by (auto simp: filter_empty_conv)
    from hd_in_set [OF this] show ?thesis unfolding ex_ids_def by auto
  qed
  with valid show ?thesis unfolding fresh_ids_def list_all_iff by blast
qed

definition ex_update :: UpdateInput where
  "ex_update = \<lparr>ui_BlockedServices = [''youtube'', ''twitch'', ''youtube''],
     ui_Schedules = [ex_schedule\<lparr>sc_ID := [], sc_Name := '' Bedtime '', sc_Days := [6, 5, 6]\<rparr>], ui_SafeSearch = None\<rparr>"

lemma ex_update_valid:
  "validateUpdate ex_ids ex_cat ex_update = Inr \<lparr>cf_BlockedServices = [''twitch'', ''youtube''],
     cf_Schedules = [ex_schedule\<lparr>sc_ID := ''00000000''\<rparr>], cf_SafeSearch = no_safe\<lparr>ss_YouTube := YouTubeOff\<rparr>\<rparr>"
  by code_simp

theorem update_read_back_witness:
  "\<exists>e' r. pc_Update ex_ids ex_cat ex_engine 0 3 ex_update = Inr e' \<and> r \<in> set (pc_load ex_cat 0 (en_table e')) \<and> rw_groupID r = 3 \<and>
     cf_BlockedServices (rw_cfg r) = [''twitch'', ''youtube''] \<and> cf_Schedules (rw_cfg r) = [ex_schedule\<lparr>sc_ID := ''00000000''\<rparr>]"
proof -
  obtain e' where e': "pc_Update ex_ids ex_cat ex_engine 0 3 ex_update = Inr e'"
    using ex_write by (auto simp: pc_Update_def ex_update_valid)
  from update_read_back [OF ex_ids_fresh ex_update_valid e'] obtain r where
    "r \<in> set (pc_load ex_cat 0 (en_table e'))" "rw_groupID r = 3"
    "cf_BlockedServices (rw_cfg r) = [''twitch'', ''youtube'']" "cf_Schedules (rw_cfg r) = [ex_schedule\<lparr>sc_ID := ''00000000''\<rparr>]"
    by auto
  with e' show ?thesis by blast
qed

end
