(* ===== verification/Spec2Isabelle.thy ===== *)
theory Spec2Isabelle
  imports ListFiles ResponseCache Throttle Forwarded DhcpServer Semver Ranges SniServer FillSlots ParentalStore
begin

text \<open>
  PiCache is a DNS server for home networks with block lists, parental controls, a DHCP server and a cache for game
  and system downloads, written in Go. This development models the parts of it that decide: what a query is answered
  with, what an address is given to, what is fetched from where. Every definition is a translation of code under
  \<^verbatim>\<open>src/internal\<close> and executable where the code is; the properties are proved of these definitions.

  \<^bold>\<open>How the parts work together.\<close> A list file is scanned and parsed line by line into hash sets, patterns and address
  networks; the results of all lists are merged into one matcher, which a query is checked against together with the
  user's rules, after the parental controls of the client's groups. What is not blocked is answered from the response
  cache or by an upstream. The DHCP server gives out addresses and names, which the DNS server answers with. The
  download cache classifies hosts by its catalogue of services, serves ranges of stored objects and passes TLS
  connections through to the hosts of the catalogue only. The web interface is guarded by address ACLs and by the
  login throttle; updates compare version numbers.

  \<^bold>\<open>Shared theories.\<close> \<open>Prelude\<close>: machine types, generic facts on lists, binary search, instants of package time, and the
  locale \<open>invariant_machine\<close>, the contract of a component with an initial state, operations and an invariant, which
  every stateful component interprets. \<open>GoStrings\<close>, \<open>Decimals\<close>, \<open>ByteCodec\<close>: what the code uses of packages strings, strconv
  and encoding/binary.

  \<^bold>\<open>Filter\<close> (\<^verbatim>\<open>dns/filter\<close>). \<open>DomainNames\<close> (\<^verbatim>\<open>domain.go\<close>): normal form, validity and the FNV hashes of all suffixes in
  one pass. \<open>TypeSets\<close> (\<^verbatim>\<open>typeset.go\<close>): sets of query types. \<open>HashSets\<close> (\<^verbatim>\<open>matcher.go\<close>): sorted hash arrays; the locale
  \<open>source_index\<close> is the contract of a lookup by hash. \<open>Regexes\<close> and \<open>PatternSets\<close> (\<^verbatim>\<open>parse.go\<close>, \<^verbatim>\<open>matcher.go\<close>): RE2 syntax
  trees with their matching semantics, cost and required literals (locale \<open>literal_law\<close>), and the index of patterns by
  four bytes of a literal. \<open>NetAddr\<close>, \<open>IpSets\<close> (\<^verbatim>\<open>iplist.go\<close>): addresses and prefixes on words, address lists and the
  longest match. \<open>FilterEntries\<close>, \<open>ListParser\<close>, \<open>ListFiles\<close> (\<^verbatim>\<open>parse.go\<close>): entries, the line parser with every modifier, the
  scan of a file and its result. \<open>FilterMatcher\<close> (\<^verbatim>\<open>matcher.go\<close>, \<^verbatim>\<open>filter.go\<close>): compiling, publishing and checking. Shown
  are the exactness of each index against a search of the entries, the guards of the parser (no top-level domain is
  blocked, no private network), the budgets, the round trip of printed rules, and the documented precedence of
  verdicts. The first theorem of this file carries a line of a list text through all of them to the verdict.

  \<^bold>\<open>Network guards\<close> (\<^verbatim>\<open>netutil\<close>). \<open>NetUtil\<close> (\<^verbatim>\<open>ip.go\<close>, \<^verbatim>\<open>acl.go\<close>, \<^verbatim>\<open>webaccess.go\<close>, \<^verbatim>\<open>hostaddr.go\<close>, \<^verbatim>\<open>dialer.go\<close>): classes of
  addresses, both ACLs, rebind targets and the filter of destinations. \<open>Forwarded\<close> (\<^verbatim>\<open>forwarded.go\<close>): the client behind
  trusted proxies; it cannot be spoofed and is what the documented contract says.

  \<^bold>\<open>Response cache\<close> (\<^verbatim>\<open>dns/upstream/cache.go\<close>). \<open>ResponseCache\<close>: a heap of entries, the LRU list and the counters. Shown:
  they agree after any operations, the bounds hold, expired and bogus answers are served only as allowed.

  \<^bold>\<open>Parental controls\<close> (\<^verbatim>\<open>dns/parental\<close>). \<open>Parental\<close> (\<^verbatim>\<open>eval.go\<close>, \<^verbatim>\<open>services.go\<close>, \<^verbatim>\<open>safesearch.go\<close>): windows on the local
  wall clock, services, the snapshot, decisions, safe search. \<open>ParentalStore\<close> (\<^verbatim>\<open>store.go\<close>, \<^verbatim>\<open>parental.go\<close>): validation,
  the table and every operation. Shown: after any history exactly what the stored controls say is blocked, overrides
  hold until their end, updates are read back as validated, safe search is the union over the groups.

  \<^bold>\<open>DHCP\<close> (\<^verbatim>\<open>dhcp\<close>). \<open>DhcpPacket\<close> (\<^verbatim>\<open>packet.go\<close>, \<^verbatim>\<open>hostname.go\<close>): the wire format; a reply parses back to its fields.
  \<open>DhcpTable\<close> (\<^verbatim>\<open>store.go\<close>, \<^verbatim>\<open>alloc.go\<close>): leases, offers, reservations and the choice of an address. \<open>DhcpNames\<close> (\<^verbatim>\<open>names.go\<close>): names
  of leases. \<open>DhcpServer\<close> (\<^verbatim>\<open>server4.go\<close> with the limiter, the exchange log and the probes): every handler. Shown: one
  lease per client and address after any packets and administration, no packet takes a running lease from another
  client, and (second theorem of this file) a DISCOVER is answered while an address is free.

  \<^bold>\<open>Download cache\<close> (\<^verbatim>\<open>dlcache\<close>). \<open>Ranges\<close> (\<^verbatim>\<open>proxy/ranges.go\<close>): range requests and the plan of a reply. \<open>FillSlots\<close>
  (\<^verbatim>\<open>proxy/slots.go\<close>): limits of fetches; counts are right and no wake-up is lost. \<open>CacheServices\<close> (\<^verbatim>\<open>services/\<close>): the registry,
  its operations and the matcher. \<open>TlsHello\<close>, \<open>SniServer\<close> (\<^verbatim>\<open>sni/\<close>): reading a ClientHello and the pass-through, which relies
  on the registry through the locale \<open>allowlist\<close>; it is no open relay.

  \<^bold>\<open>Accounts and updates.\<close> \<open>Throttle\<close> (\<^verbatim>\<open>auth/throttle.go\<close>): lockouts, delays and attempts in flight. \<open>Semver\<close>
  (\<^verbatim>\<open>update/semver.go\<close>): versions, their order and the check against downgrades.

  \<^bold>\<open>Conventions.\<close> A component's state is a record and an operation a function on it; errors are sums. What a mutex makes
  atomic is one step, and the order of steps is arbitrary in the theorems on histories. Times are integers of
  nanoseconds, sizes integers where the code cannot overflow, words where it may wrap or works bitwise. Loops whose end
  is not structural have a termination proof: the binary searches, the scan of a file, the choice of a DHCP address (the
  quarantine grows with every conflict), the search of an unused service id (finitely many are taken), the records of a
  ClientHello (the stream shrinks), the end of a block (each round moves on, at most seven days). The only bound by a
  count is that of the code, the 127 labels of a name in the service walk. Code outside the repository is an argument:
  netip and regexp parsers, the public suffix list, the DNS library's packer and type names, the rate limiter, random
  numbers, the local time zone, resolving and connecting; what is relied on is a hypothesis of the theorem.

  \<^bold>\<open>Not modelled.\<close> Sockets, HTTP, TLS, SQL and files; the pipeline of the DNS server and the upstream transports, which are
  written against the message type of a DNS library; DNSSEC and password checks, which rest on cryptography; DHCPv6 and
  router advertisements; the storage and the proxy of the download cache beyond ranges and slots; the web interface and
  its API; the settings tree; wiring, logging and notifications.
\<close>

section \<open>From the text of a block list to the verdict\<close>

lemma lt_subtree_built:
  "t < numTiers \<Longrightarrow> lt_subtree (lm_tiers (buildListMatcher ids results) ! t) = mergeSets results t kindSubtree"
  by (simp add: buildListMatcher_def Let_def)

lemma publishLocked_sel:
  assumes "s = publishLocked e_lists cur0 (Some lm) (Some rules) ipRules"
  shows "sn_lists s = lm" and "sn_rules s = rules"
    and "i < length (lm_ids lm) \<Longrightarrow> e_lists (lm_ids lm ! i) = Some rt \<Longrightarrow> rt_Enabled rt \<Longrightarrow> sn_listGroups s ! i = rt_GroupIDs rt"
    and "length (sn_listGroups s) = length (lm_ids lm)"
  by (simp_all add: assms publishLocked_def Let_def)

lemma find_block_tier:
  assumes "P tierBlock" and "\<not> P tierImpAllow" and "\<not> P tierAllow"
  shows "\<exists>t. find P [0..<numTiers] = Some t \<and> tier_action t = ActionBlock"
  using assms by (auto simp: tier_defs tier_action_def upt_rec numeral_2_eq_2 numeral_3_eq_3)


definition ex_e2e :: "unit snapshot" where
  "ex_e2e = publishLocked [5 \<mapsto> \<lparr>rt_Name = ''l'', rt_Category = ''other'', rt_Enabled = True, rt_GroupIDs = [1]\<rparr>]
     \<lparr>sn_lists = buildListMatcher [] [], sn_listNames = [], sn_listCats = [], sn_listGroups = [], sn_protGroups = [], sn_hasProt = False,
       sn_rules = buildRuleMatcher id [], sn_ipRules = buildIPRuleMatcher (\<lambda>_. None) (\<lambda>_. None) [], sn_hasIP = False\<rparr>
     (Some (buildListMatcher [5] [ex_list])) (Some (buildRuleMatcher id [])) None"

lemma ex_list_parts:
  "p_sets ex_list = [[[], []], [[], []], [[], []], [[], [hashName ''ads.test'']]]" "p_mods ex_list = [[], [], [], []]" "p_pats ex_list = []"
  unfolding ex_list_parsed(3)
  by (simp_all add: pl_finish_def pl_entry_def Let_def pl_init_def new_parsed_def ex_format_def ex_subtree_def no_entry_def e_tier_def
     append_cell_def e_modified_def finish_set_def finish_mods_def tier_defs upt_rec ts_empty_def no_types_def sort_compact_def sortMods_def finish_pats_def
     numeral_Bit0 numeral_2_eq_2 numeral_3_eq_3 eval_nat_numeral)

section \<open>From a DISCOVER to the message the client reads\<close>

text \<open>The options of a view: distinct codes, none that the handler adds itself.\<close>

definition view_options_ok :: "view \<Rightarrow> bool" where
  "view_options_ok v \<longleftrightarrow> distinct (map os_code (vw_opts v))
     \<and> set (map os_code (vw_opts v)) \<inter> {optPad, optEnd, optLeaseTime, optRenewal, optRebinding, optHostName} = {}"

lemma leaseOptions_codes:
  assumes "view_options_ok v"
  shows "distinct (map os_code (leaseOptions host d (vw_opts v)))"
    and "optPad \<notin> os_code ` set (leaseOptions host d (vw_opts v))" and "optEnd \<notin> os_code ` set (leaseOptions host d (vw_opts v))"
  using assms by (auto simp: view_options_ok_def leaseOptions_def Let_def plain_option_def option_codes)

lemma usable_family: "usable p a \<Longrightarrow> usable p b \<Longrightarrow> Is4 a = Is4 b"
  by (metis usable_def Contains_def same_net_family)

text \<open>
  C2: a DISCOVER is answered with a message the client can read. While an address of the range is free for the
  client, no neighbour conflict shows up and the socket takes the datagram, the server sends one OFFER that parses
  back to the client's transaction and hardware address, offers a usable free address, names the server and fits
  the size the client accepts; the address is held for the client for a minute.
\<close>

theorem discover_answered:
  assumes "table_inv (sv_t s)" and "p_start (vw_pool v) = V4 lo" and "p_end (vw_pool v) = V4 hi"
    and "Is4 a" and "dynamic (vw_pool v) a" and "freeFor (sv_t s) a mac res (ev_now ev)"
    and "\<And>x. \<not> conflict ev x mac" and "\<not> vw_rapidCommit v" and "ev_socket ev = Some (\<lambda>_ _. True)"
    and "length (dm_chaddr m) = 16" and "pfx_Addr (if_self (vw_iface v)) = V4 self" and "view_options_ok v"
  shows "\<exists>ip b dst r. usable (vw_pool v) ip \<and> freeFor (sv_t s) ip mac res (ev_now ev)
    \<and> sv_sent (discover ev v m mac res cid s) = sv_sent s @ [(b, dst)]
    \<and> parseMessage b = Inr r \<and> msgType r = msgOffer \<and> dm_xid r = dm_xid m \<and> dm_chaddr r = dm_chaddr m
    \<and> dm_yiaddr r = ip \<and> addrOpt r optServerID = V4 self \<and> length b \<le> maxSize m
    \<and> fmlookup (tb_offers (sv_t (discover ev v m mac res cid s))) mac = Some \<lparr>o_ip = ip, o_until = ev_now ev + offerHold\<rparr>"
proof -
  obtain ip host d dst where offer: "usable (vw_pool v) ip" "freeFor (sv_t s) ip mac res (ev_now ev)"
      "sv_t (discover ev v m mac res cid s) = putOffer mac ip (ev_now ev + offerHold) (sv_t s)"
    and sent: "sv_sent (discover ev v m mac res cid s) = sv_sent s @
        [(buildReply m \<lparr>rf_typ = msgOffer, rf_ciaddr = NoAddr, rf_yiaddr = ip\<rparr> (pfx_Addr (if_self (vw_iface v)))
            (leaseOptions host d (vw_opts v)), dst)]"
    using discover_offers [OF assms(1-9), of m cid] by blast
  have "Is4 ip" using usable_family [OF offer(1)] assms(4,5) by (auto simp: dynamic_def)
  then have "addr_or_zero ip = ip" by (cases ip) (simp_all add: addr_or_zero_def)
  moreover note reply_parses [OF assms(10) leaseOptions_codes [OF assms(12), of host d],
      where f = "\<lparr>rf_typ = msgOffer, rf_ciaddr = NoAddr, rf_yiaddr = ip\<rparr>" and s = self]
  ultimately show ?thesis
    using offer sent assms(11) by (auto simp: putOffer_offered)
qed

theorem discover_answered_witness:
  "\<exists>ip b dst r. usable w_pool ip \<and> sv_sent (discover w_env w_view w_request ''02:00:00:00:00:09'' None False w_service) = [(b, dst)]
     \<and> parseMessage b = Inr r \<and> msgType r = msgOffer \<and> dm_yiaddr r = ip \<and> addrOpt r optServerID = V4 0xC0A80101"
proof -
  have eqs: "vw_pool w_view = w_pool" "ev_now w_env = 0" "sv_sent w_service = []"
    by (simp_all add: w_view_def w_env_def w_service_def new_service_def)
  have "p_start w_pool = V4 0xC0A80164" "p_end w_pool = V4 0xC0A80166" "\<And>x. \<not> conflict w_env x ''02:00:00:00:00:09''"
      "\<not> vw_rapidCommit w_view" "ev_socket w_env = Some (\<lambda>_ _. True)" "length (dm_chaddr w_request) = 16"
      "pfx_Addr (if_self (vw_iface w_view)) = V4 0xC0A80101" "view_options_ok w_view"
    by (simp_all add: w_pool_def w_view_def w_env_def w_request_def conflict_def view_options_ok_def)
  from discover_answered [of w_service w_view _ _ "V4 0xC0A80165" "''02:00:00:00:00:09''" None w_env w_request, unfolded eqs,
      OF w_service_inv this(1,2) _ w_service_lookups(3,2) this(3-), of False]
  show ?thesis by fastforce
qed

end
